(* ===== verification/Libftpp_Prelude.thy ===== *)
theory Libftpp_Prelude
  imports Main "HOL-Library.Word"
begin

text \<open>
  Shared vocabulary of the development: the machine types of the LP64 platform the library
  is built for, the errors an operation can end in, the little-endian object representation
  that \<^verbatim>\<open>reinterpret_cast\<close> and \<^verbatim>\<open>memcpy\<close> expose, and the generic facts on words, lists
  and transition systems that several components use.
\<close>

section \<open>Machine types and errors\<close>

type_synonym byte = "8 word"
type_synonym size_t = "64 word"
type_synonym cint = "32 word"

text \<open>
  The exceptions the library throws, with their message, and undefined behaviour. An operation
  that can fail returns \<open>error + 'a\<close>. Undefined behaviour is an error value of its own, so
  that its absence is something a theorem can state.
\<close>

datatype exn =
    Out_of_range string
  | Runtime_error string
  | Invalid_argument string
  | Logic_error string
  | Length_error string

datatype error = Exn exn | UB

type_synonym 'a res = "error + 'a"

abbreviation throw :: "exn \<Rightarrow> 'a res" where
  "throw e \<equiv> Inl (Exn e)"

abbreviation ub :: "'a res" where
  "ub \<equiv> Inl UB"

text \<open>
  The facts collected here unfold the operations of the byte streams and the messages
  (\<open>stream_defs\<close>) and the well-formedness predicates of the components (\<open>wf_defs\<close>).
\<close>

named_theorems stream_defs \<open>definitions of the byte-stream operations\<close>
named_theorems wf_defs \<open>definitions of the well-formedness predicates\<close>

text \<open>\<^verbatim>\<open>std::to_string\<close> of an unsigned number.\<close>

fun to_string :: "nat \<Rightarrow> string" where
  "to_string n = (if n < 10 then [] else to_string (n div 10)) @ [char_of (48 + n mod 10)]"

declare to_string.simps [simp del]

lemma to_string_digits:
  "n < 10 \<Longrightarrow> to_string n = [char_of (48 + n)]"
  "\<not> n < 10 \<Longrightarrow> to_string n = to_string (n div 10) @ [char_of (48 + n mod 10)]"
  by (simp_all add: to_string.simps[of n])

section \<open>Sizes of vectors\<close>

text \<open>
  \<^verbatim>\<open>std::vector::size()\<close> as a machine word. A vector of bytes never holds more than
  \<^verbatim>\<open>max_size()\<close> = \<open>2 ^ 63 - 1\<close> elements.
\<close>

definition vsize :: "'a list \<Rightarrow> size_t" where
  "vsize xs = word_of_nat (length xs)"

definition vbounded :: "'a list \<Rightarrow> bool" where
  "vbounded xs \<longleftrightarrow> length xs < 2 ^ 63"

text \<open>
  The pointer \<^verbatim>\<open>data()\<close> to the elements of a vector: an empty vector built from an empty range
  owns no storage, and the pointer is \<^verbatim>\<open>nullptr\<close> (libstdc++; the standard leaves it open).
\<close>

definition vec_data :: "'a list \<Rightarrow> 'a list option" where
  "vec_data xs = (if xs = [] then None else Some xs)"

lemma unat_of_nat_size [simp]: "n < 2 ^ 64 \<Longrightarrow> unat (word_of_nat n :: size_t) = n"
  by (simp add: unat_of_nat take_bit_eq_mod)

lemma unat_vsize: "length xs < 2 ^ 64 \<Longrightarrow> unat (vsize xs) = length xs"
  by (simp add: vsize_def)

lemma unat_vsize_bounded [simp]: "vbounded xs \<Longrightarrow> unat (vsize xs) = length xs"
  by (rule unat_vsize) (simp add: vbounded_def)

lemma size_t_less: "unat (w :: size_t) < 2 ^ 64"
  using unsigned_less[of w, where ?'a = nat] by simp

lemma unat_add_size:
  "unat (v :: size_t) + unat w < 2 ^ 64 \<Longrightarrow> unat (v + w) = unat v + unat w"
  by (simp add: unat_word_ariths)

lemma unat_add_size_wrap:
  assumes "2 ^ 64 \<le> unat (v :: size_t) + unat w"
  shows "unat (v + w) = unat v + unat w - 2 ^ 64"
proof -
  have "unat v + unat w < 2 * 2 ^ 64"
    using size_t_less[of v] size_t_less[of w] by linarith
  then show ?thesis
    using assms by (simp add: unat_word_ariths mod_if)
qed

lemma unat_sub_size: "w \<le> v \<Longrightarrow> unat ((v :: size_t) - w) = unat v - unat w"
  by (simp add: unat_sub)

lemma unat_minus_12: "unat (- 12 :: size_t) = 2 ^ 64 - 12"
  by simp

lemma append_eq_prefix:
  assumes "xs @ ys = us @ vs" and "length us \<le> length xs"
  obtains r where "xs = us @ r" and "r @ ys = vs"
proof -
  have "take (length us) xs = us"
    using assms by (metis append_eq_conv_conj take_append diff_is_0_eq take_0 append_Nil2)
  then have "xs = us @ drop (length us) xs"
    by (metis append_take_drop_id)
  then show thesis
    using that assms(1) by (metis append_assoc same_append_eq)
qed

section \<open>Object representation\<close>

text \<open>
  The bytes of an unsigned integer as they lie in memory on a little-endian machine, and the
  integer such bytes denote.
\<close>

fun le_bytes :: "nat \<Rightarrow> nat \<Rightarrow> byte list" where
  "le_bytes 0 v = []"
| "le_bytes (Suc n) v = word_of_nat (v mod 256) # le_bytes n (v div 256)"

fun le_val :: "byte list \<Rightarrow> nat" where
  "le_val [] = 0"
| "le_val (b # bs) = unat b + 256 * le_val bs"

lemma length_le_bytes [simp]: "length (le_bytes n v) = n"
  by (induction n arbitrary: v) auto

lemma le_bytes_numeral:
  "le_bytes (numeral k) v = word_of_nat (v mod 256) # le_bytes (pred_numeral k) (v div 256)"
  unfolding numeral_eq_Suc[of k] by (rule le_bytes.simps(2))

lemma unat_of_nat_byte [simp]: "unat (word_of_nat (v mod 256) :: byte) = v mod 256"
  by (simp add: unat_of_nat take_bit_eq_mod)

lemma le_val_le_bytes: "le_val (le_bytes n v) = v mod 256 ^ n"
proof (induction n arbitrary: v)
  case 0
  show ?case by simp
next
  case (Suc n)
  have "v mod 256 + 256 * ((v div 256) mod 256 ^ n) = v mod (256 * 256 ^ n)"
    by (metis mod_mult2_eq add.commute)
  with Suc show ?case by simp
qed

lemma le_val_less: "le_val bs < 256 ^ length bs"
proof (induction bs)
  case Nil
  show ?case by simp
next
  case (Cons b bs)
  have "unat b < 256"
    using unsigned_less[of b, where ?'a = nat] by simp
  with Cons show ?case by simp
qed

lemma le_bytes_le_val: "length bs = n \<Longrightarrow> le_bytes n (le_val bs) = bs"
proof (induction bs arbitrary: n)
  case (Cons b bs)
  have b: "unat b < 256"
    using unsigned_less[of b, where ?'a = nat] by simp
  then have "(unat b + 256 * le_val bs) mod 256 = unat b" "(unat b + 256 * le_val bs) div 256 = le_val bs"
    by simp_all
  then show ?case
    using Cons by (auto simp: word_of_nat_eq_iff)
qed simp

definition enc_size :: "size_t \<Rightarrow> byte list" where
  "enc_size w = le_bytes 8 (unat w)"

definition dec_size :: "byte list \<Rightarrow> size_t" where
  "dec_size bs = word_of_nat (le_val bs)"

definition enc_int :: "cint \<Rightarrow> byte list" where
  "enc_int w = le_bytes 4 (unat w)"

definition dec_int :: "byte list \<Rightarrow> cint" where
  "dec_int bs = word_of_nat (le_val bs)"

text \<open>
  What the serialising operators rely on for a type \<open>T\<close>: \<open>sizeof(T)\<close> bytes are written, and
  copying them back gives the value.
\<close>

locale codec =
  fixes enc :: "'a \<Rightarrow> byte list"
    and dec :: "byte list \<Rightarrow> 'a"
    and sz :: nat
  assumes length_enc [simp]: "length (enc x) = sz"
    and dec_enc [simp]: "dec (enc x) = x"
begin

lemma enc_inj: "enc x = enc y \<Longrightarrow> x = y"
  by (metis dec_enc)

lemma dec_prefix: "dec (take sz (enc x @ rest)) = x"
  by simp

lemma drop_prefix: "drop sz (enc x @ rest) = rest"
  by simp

end

interpretation size_codec: codec enc_size dec_size 8
proof
  fix w
  show "length (enc_size w) = 8"
    by (simp add: enc_size_def)
  have "unat w < 256 ^ 8"
    using size_t_less[of w] by simp
  then show "dec_size (enc_size w) = w"
    by (simp add: enc_size_def dec_size_def le_val_le_bytes)
qed

interpretation int_codec: codec enc_int dec_int 4
proof
  fix w
  show "length (enc_int w) = 4"
    by (simp add: enc_int_def)
  have "unat w < 256 ^ 4"
    using unsigned_less[of w, where ?'a = nat] by simp
  then show "dec_int (enc_int w) = w"
    by (simp add: enc_int_def dec_int_def le_val_le_bytes)
qed

lemma unat_dec_size: "length bs = 8 \<Longrightarrow> unat (dec_size bs) = le_val bs"
  using le_val_less[of bs] by (simp add: dec_size_def)

section \<open>Inverse maps\<close>

text \<open>Two finite maps that are each other's inverse, under adding and removing a pair.\<close>

definition inverse_maps :: "('a \<Rightarrow> 'b option) \<Rightarrow> ('b \<Rightarrow> 'a option) \<Rightarrow> bool" where
  "inverse_maps m n \<longleftrightarrow> (\<forall>a b. m a = Some b \<longleftrightarrow> n b = Some a)"

lemma inverse_mapsD: "inverse_maps m n \<Longrightarrow> m a = Some b \<longleftrightarrow> n b = Some a"
  by (simp add: inverse_maps_def)

lemma inverse_maps_empty [simp]: "inverse_maps (\<lambda>_. None) (\<lambda>_. None)"
  by (simp add: inverse_maps_def)

lemma inverse_maps_remove:
  assumes "inverse_maps m n" and "m a = Some b"
  shows "inverse_maps (m(a := None)) (n(b := None))"
  unfolding inverse_maps_def
proof (intro allI)
  fix c d
  have "n d = Some c \<longleftrightarrow> m c = Some d" and "n b = Some a"
    using assms by (simp_all add: inverse_mapsD)
  then show "((m(a := None)) c = Some d) = ((n(b := None)) d = Some c)"
    using assms(2) by auto
qed

lemma inverse_maps_add:
  assumes "inverse_maps m n" and "m a = None" and "n b = None"
  shows "inverse_maps (m(a \<mapsto> b)) (n(b \<mapsto> a))"
  unfolding inverse_maps_def
proof (intro allI)
  fix c d
  have "n d = Some c \<longleftrightarrow> m c = Some d"
    using assms by (simp add: inverse_mapsD)
  then show "((m(a \<mapsto> b)) c = Some d) = ((n(b \<mapsto> a)) d = Some c)"
    using assms(2,3) by auto
qed

section \<open>Transition systems\<close>

text \<open>
  A component whose steps are a relation: a predicate that holds initially and is kept by every
  step holds in every state that a run reaches.
\<close>

locale transition_system =
  fixes step :: "'s \<Rightarrow> 's \<Rightarrow> bool"
    and init :: "'s \<Rightarrow> bool"
    and inv :: "'s \<Rightarrow> bool"
  assumes inv_init: "init s \<Longrightarrow> inv s"
    and inv_step: "inv s \<Longrightarrow> step s t \<Longrightarrow> inv t"
begin

lemma inv_run: "inv s \<Longrightarrow> step\<^sup>*\<^sup>* s t \<Longrightarrow> inv t"
  by (erule rtranclp_induct[rotated]) (auto intro: inv_step)

lemma inv_reachable: "init s \<Longrightarrow> step\<^sup>*\<^sup>* s t \<Longrightarrow> inv t"
  using inv_init inv_run by blast

end

text \<open>
  An infinite run, which may pause, under a weakly fair scheduler: an actor that could take a step at
  every later moment takes one. The lemma \<open>ensures\<close> is the rule by which a condition that only the
  actor's step ends leads to that step.
\<close>

locale fair_run =
  fixes step :: "'s \<Rightarrow> 's \<Rightarrow> bool"
    and act :: "'l \<Rightarrow> 's \<Rightarrow> 's \<Rightarrow> bool"
    and \<sigma> :: "nat \<Rightarrow> 's"
  assumes run: "step (\<sigma> k) (\<sigma> (Suc k)) \<or> \<sigma> (Suc k) = \<sigma> k"
    and fair: "(\<And>k. n \<le> k \<Longrightarrow> \<exists>t. act l (\<sigma> k) t) \<Longrightarrow> \<exists>k\<ge>n. act l (\<sigma> k) (\<sigma> (Suc k))"
begin

lemma run_steps: "n \<le> m \<Longrightarrow> step\<^sup>*\<^sup>* (\<sigma> n) (\<sigma> m)"
proof (induction m rule: dec_induct)
  case (step m)
  then show ?case
    using run[of m] by (auto intro: rtranclp.rtrancl_into_rtrancl)
qed simp

lemma ensures:
  assumes "P (\<sigma> n)" and "\<And>k. n \<le> k \<Longrightarrow> P (\<sigma> k) \<Longrightarrow> \<exists>t. act l (\<sigma> k) t"
    and "\<And>k. n \<le> k \<Longrightarrow> P (\<sigma> k) \<Longrightarrow> step (\<sigma> k) (\<sigma> (Suc k)) \<Longrightarrow> \<not> act l (\<sigma> k) (\<sigma> (Suc k)) \<Longrightarrow> P (\<sigma> (Suc k))"
  shows "\<exists>k\<ge>n. P (\<sigma> k) \<and> act l (\<sigma> k) (\<sigma> (Suc k))"
proof (rule ccontr)
  assume none: "\<not> ?thesis"
  have "P (\<sigma> k)" if "n \<le> k" for k
    using that
  proof (induction k rule: dec_induct)
    case (step k)
    then show ?case
      using none run[of k] assms(3)[of k] by auto
  qed (rule assms(1))
  then show False
    using fair[of n l] assms(2) none by blast
qed

end

end
