(* ===== verification/Byte_Stream.thy ===== *)
theory Byte_Stream
  imports Libftpp_Prelude
begin

text \<open>
  The contract shared by the two serialisation classes of the library, \<^verbatim>\<open>DataBuffer\<close> and
  \<^verbatim>\<open>Memento::Snapshot\<close>: an append-only byte vector read through a cursor. The locales state
  what inserting and extracting promise about the unread bytes; the facts about sequences of
  typed values are proved once here and reach the classes by interpretation.
\<close>

section \<open>Typed values in a stream\<close>

text \<open>
  A user of the stream operators writes a sequence of values, each a trivially copyable object
  (its \<open>sizeof(T)\<close> bytes) or a \<^verbatim>\<open>std::string\<close>, and reads them back by their types.
\<close>

datatype val = Raw "byte list" | Str "byte list"

datatype shape = SRaw nat | SStr

fun shape_of :: "val \<Rightarrow> shape" where
  "shape_of (Raw bs) = SRaw (length bs)"
| "shape_of (Str cs) = SStr"

fun val_bytes :: "val \<Rightarrow> byte list" where
  "val_bytes (Raw bs) = bs"
| "val_bytes (Str cs) = enc_size (vsize cs) @ cs"

definition vals_bytes :: "val list \<Rightarrow> byte list" where
  "vals_bytes vs = concat (map val_bytes vs)"

fun put_val :: "('s \<Rightarrow> byte list \<Rightarrow> 's) \<Rightarrow> ('s \<Rightarrow> byte list \<Rightarrow> 's) \<Rightarrow> 's \<Rightarrow> val \<Rightarrow> 's" where
  "put_val put puts s (Raw bs) = put s bs"
| "put_val put puts s (Str cs) = puts s cs"

fun get_val ::
  "(nat \<Rightarrow> 's \<Rightarrow> byte list res \<times> 's) \<Rightarrow> ('s \<Rightarrow> byte list res \<times> 's) \<Rightarrow> shape \<Rightarrow> 's \<Rightarrow> val res \<times> 's"
where
  "get_val get gets (SRaw n) s = map_prod (map_sum id Raw) id (get n s)"
| "get_val get gets SStr s = map_prod (map_sum id Str) id (gets s)"

definition put_vals ::
  "('s \<Rightarrow> byte list \<Rightarrow> 's) \<Rightarrow> ('s \<Rightarrow> byte list \<Rightarrow> 's) \<Rightarrow> 's \<Rightarrow> val list \<Rightarrow> 's" where
  "put_vals put puts = foldl (put_val put puts)"

fun get_vals ::
  "(nat \<Rightarrow> 's \<Rightarrow> byte list res \<times> 's) \<Rightarrow> ('s \<Rightarrow> byte list res \<times> 's) \<Rightarrow> shape list \<Rightarrow> 's
     \<Rightarrow> val list res \<times> 's"
where
  "get_vals get gets [] s = (Inr [], s)"
| "get_vals get gets (sh # shs) s =
     (case get_val get gets sh s of
        (Inl e, s') \<Rightarrow> (Inl e, s')
      | (Inr v, s') \<Rightarrow>
          (case get_vals get gets shs s' of
             (Inl e, s'') \<Rightarrow> (Inl e, s'')
           | (Inr vs, s'') \<Rightarrow> (Inr (v # vs), s'')))"

lemma vals_bytes_simps [simp]:
  "vals_bytes [] = []"
  "vals_bytes (v # vs) = val_bytes v @ vals_bytes vs"
  by (simp_all add: vals_bytes_def)

section \<open>The stream interface\<close>

locale byte_stream =
  fixes view :: "'s \<Rightarrow> byte list"
    and used :: "'s \<Rightarrow> nat"
    and wf :: "'s \<Rightarrow> bool"
    and put :: "'s \<Rightarrow> byte list \<Rightarrow> 's"
    and get :: "nat \<Rightarrow> 's \<Rightarrow> byte list res \<times> 's"
  assumes view_used: "wf s \<Longrightarrow> length (view s) \<le> used s"
    and used_bound: "wf s \<Longrightarrow> used s < 2 ^ 63"
    and used_put: "used (put s bs) = used s + length bs"
    and wf_put: "wf s \<Longrightarrow> used s + length bs < 2 ^ 63 \<Longrightarrow> wf (put s bs)"
    and view_put: "wf s \<Longrightarrow> used s + length bs < 2 ^ 63 \<Longrightarrow> view (put s bs) = view s @ bs"
    and get_ok: "wf s \<Longrightarrow> n \<le> length (view s) \<Longrightarrow>
      \<exists>s'. get n s = (Inr (take n (view s)), s') \<and> view s' = drop n (view s) \<and> wf s' \<and>
        used s' = used s"
    and get_short: "wf s \<Longrightarrow> n < 2 ^ 63 \<Longrightarrow> length (view s) < n \<Longrightarrow>
      get n s = (throw (Out_of_range ''Buffer overflow on read''), s)"
begin

lemma get_prefix:
  assumes "wf s" and "view s = bs @ rest" and "n = length bs"
  obtains s' where "get n s = (Inr bs, s')" and "view s' = rest" and "wf s'" and "used s' = used s"
  using get_ok[OF assms(1), of n] assms(2,3) by auto

end

locale string_stream = byte_stream view used wf put get
  for view :: "'s \<Rightarrow> byte list" and used wf put get +
  fixes puts :: "'s \<Rightarrow> byte list \<Rightarrow> 's"
    and gets :: "'s \<Rightarrow> byte list res \<times> 's"
  assumes puts_eq: "puts s cs = put (put s (enc_size (vsize cs))) cs"
    and gets_ok: "wf s \<Longrightarrow> vbounded cs \<Longrightarrow> view s = enc_size (vsize cs) @ cs @ rest \<Longrightarrow>
      \<exists>s'. gets s = (Inr cs, s') \<and> view s' = rest \<and> wf s' \<and> used s' = used s"
begin

lemma used_puts: "used (puts s cs) = used s + 8 + length cs"
  by (simp add: puts_eq used_put)

lemma used_put_val: "used (put_val put puts s v) = used s + length (val_bytes v)"
  by (cases v) (auto simp: used_put used_puts)

lemma put_val_view:
  assumes "wf s" and "used s + length (val_bytes v) < 2 ^ 63"
  shows "wf (put_val put puts s v) \<and> view (put_val put puts s v) = view s @ val_bytes v"
proof (cases v)
  case (Raw bs)
  then show ?thesis using assms by (simp add: wf_put view_put)
next
  case (Str cs)
  then have room: "used s + (8 + length cs) < 2 ^ 63"
    using assms(2) by simp
  then have one: "wf (put s (enc_size (vsize cs)))"
      "view (put s (enc_size (vsize cs))) = view s @ enc_size (vsize cs)"
    using assms(1) by (simp_all add: wf_put view_put)
  then show ?thesis
    using Str room by (simp add: puts_eq wf_put view_put used_put)
qed

lemma put_vals_view:
  assumes "wf s" and "used s + length (vals_bytes vs) < 2 ^ 63"
  shows "wf (put_vals put puts s vs) \<and> view (put_vals put puts s vs) = view s @ vals_bytes vs"
  using assms
proof (induction vs arbitrary: s)
  case Nil
  then show ?case by (simp add: put_vals_def)
next
  case (Cons v vs)
  let ?t = "put_val put puts s v"
  have "wf ?t" "view ?t = view s @ val_bytes v"
    using Cons.prems put_val_view[of s v] by auto
  moreover have "used ?t + length (vals_bytes vs) < 2 ^ 63"
    using Cons.prems by (simp add: used_put_val)
  ultimately show ?case
    using Cons.IH[of ?t] by (simp add: put_vals_def)
qed

lemma get_val_prefix:
  assumes "wf s" and "view s = val_bytes v @ rest"
  obtains s' where "get_val get gets (shape_of v) s = (Inr v, s')" and "view s' = rest"
    and "wf s'" and "used s' = used s"
proof (cases v)
  case (Raw bs)
  with assms obtain s' where "get (length bs) s = (Inr bs, s')" "view s' = rest" "wf s'"
      "used s' = used s"
    by (auto elim: get_prefix)
  then show thesis using Raw that by simp
next
  case (Str cs)
  with assms have "length (view s) = 8 + length cs + length rest"
    by simp
  then have "vbounded cs"
    using view_used[OF assms(1)] used_bound[OF assms(1)] by (simp add: vbounded_def)
  then obtain s' where "gets s = (Inr cs, s')" "view s' = rest" "wf s'" "used s' = used s"
    using gets_ok[OF assms(1), of cs rest] assms(2) Str by auto
  then show thesis using Str that by simp
qed

lemma get_vals_prefix:
  assumes "wf s" and "view s = vals_bytes vs @ rest"
  shows "\<exists>s'. get_vals get gets (map shape_of vs) s = (Inr vs, s') \<and> view s' = rest \<and> wf s'"
  using assms
proof (induction vs arbitrary: s)
  case Nil
  then show ?case by simp
next
  case (Cons v vs)
  obtain s1 where one: "get_val get gets (shape_of v) s = (Inr v, s1)"
      "view s1 = vals_bytes vs @ rest" "wf s1"
    using Cons.prems get_val_prefix[of s v "vals_bytes vs @ rest"] by auto
  obtain s2 where "get_vals get gets (map shape_of vs) s1 = (Inr vs, s2)" "view s2 = rest" "wf s2"
    using Cons.IH[OF one(3,2)] by blast
  with one show ?case by simp
qed

text \<open>Values come back in the order they were written, from a stream whose unread part is empty.\<close>

lemma put_get_vals:
  assumes "wf s" and "view s = []" and "used s + length (vals_bytes vs) < 2 ^ 63"
  shows "\<exists>s'. get_vals get gets (map shape_of vs) (put_vals put puts s vs) = (Inr vs, s') \<and>
    view s' = [] \<and> wf s'"
  using put_vals_view[OF assms(1,3)] get_vals_prefix[of "put_vals put puts s vs" vs "[]"] assms(2)
  by simp

end

end
