(* ===== verification/Data_Buffer.thy ===== *)
theory Data_Buffer
  imports Byte_Stream
begin

text \<open>
  \<^verbatim>\<open>src/src/data_structures/data_buffer\<close>: the byte buffer with a read cursor that messages are
  built on. Sizes and cursors are 64-bit words, so the bound checks of the code are the checks
  of the model, wrap-around included; a read that passes its check but leaves the vector is
  undefined behaviour and ends in \<open>UB\<close>.
\<close>

section \<open>State and operations\<close>

record data_buffer =
  db_buffer :: "byte list"
  db_cursor :: size_t

definition db_new :: data_buffer where
  "db_new = \<lparr>db_buffer = [], db_cursor = 0\<rparr>"

definition db_reset :: "data_buffer \<Rightarrow> data_buffer" where
  "db_reset b = b\<lparr>db_cursor := 0\<rparr>"

definition db_clear :: "data_buffer \<Rightarrow> data_buffer" where
  "db_clear b = b\<lparr>db_buffer := [], db_cursor := 0\<rparr>"

text \<open>
  \<open>append(data, len)\<close>: the pointer is \<open>None\<close> for \<^verbatim>\<open>nullptr\<close>, otherwise the readable bytes
  it points to.
\<close>

definition db_append :: "data_buffer \<Rightarrow> byte list option \<Rightarrow> size_t \<Rightarrow> data_buffer res" where
  "db_append b data len =
     (if len = 0 \<or> data = None then Inr b
      else if unat len \<le> length (the data)
      then Inr (b\<lparr>db_buffer := db_buffer b @ take (unat len) (the data)\<rparr>)
      else ub)"

text \<open>The template \<open>operator<<\<close> on the bytes of the object representation of its argument.\<close>

definition db_put :: "data_buffer \<Rightarrow> byte list \<Rightarrow> data_buffer" where
  "db_put b bs = b\<lparr>db_buffer := db_buffer b @ bs\<rparr>"

definition db_puts :: "data_buffer \<Rightarrow> byte list \<Rightarrow> data_buffer" where
  "db_puts b value =
     (let size = vsize value; b1 = db_put b (enc_size size)
      in b1\<lparr>db_buffer := db_buffer b1 @ value\<rparr>)"

text \<open>The template \<open>operator>>\<close> for a type of \<open>n\<close> bytes: the bytes copied into the variable.\<close>

definition db_get :: "nat \<Rightarrow> data_buffer \<Rightarrow> byte list res \<times> data_buffer" where
  "db_get n b =
     (if word_of_nat n + db_cursor b > vsize (db_buffer b)
      then (throw (Out_of_range ''Buffer overflow on read''), b)
      else if unat (db_cursor b) + n \<le> length (db_buffer b)
      then (Inr (take n (drop (unat (db_cursor b)) (db_buffer b))),
            b\<lparr>db_cursor := db_cursor b + word_of_nat n\<rparr>)
      else (ub, b))"

definition db_gets :: "data_buffer \<Rightarrow> byte list res \<times> data_buffer" where
  "db_gets b =
     (case db_get 8 b of
        (Inl e, b1) \<Rightarrow> (Inl e, b1)
      | (Inr bs, b1) \<Rightarrow>
          (let size = dec_size bs
           in if size + db_cursor b1 > vsize (db_buffer b1)
              then (throw (Out_of_range ''Buffer overflow on read''), b1)
              else if unat (db_cursor b1) + unat size \<le> length (db_buffer b1)
              then (Inr (take (unat size) (drop (unat (db_cursor b1)) (db_buffer b1))),
                    b1\<lparr>db_cursor := db_cursor b1 + size\<rparr>)
              else (ub, b1)))"

definition db_size :: "data_buffer \<Rightarrow> size_t" where
  "db_size b = vsize (db_buffer b) - db_cursor b"

definition db_data :: "data_buffer \<Rightarrow> byte list res" where
  "db_data b =
     (if unat (db_cursor b) \<le> length (db_buffer b)
      then Inr (drop (unat (db_cursor b)) (db_buffer b)) else ub)"

definition db_increaseCursor :: "data_buffer \<Rightarrow> size_t \<Rightarrow> data_buffer res" where
  "db_increaseCursor b amount =
     (if db_cursor b + amount > vsize (db_buffer b)
      then throw (Out_of_range ''Buffer overflow on increaseCursor'')
      else Inr (b\<lparr>db_cursor := db_cursor b + amount\<rparr>))"

definition db_decreaseCursor :: "data_buffer \<Rightarrow> size_t \<Rightarrow> data_buffer res" where
  "db_decreaseCursor b amount =
     (if amount > db_cursor b
      then throw (Out_of_range ''Buffer underflow on decreaseCursor'')
      else Inr (b\<lparr>db_cursor := db_cursor b - amount\<rparr>))"

section \<open>Invariant and abstraction\<close>

text \<open>The cursor stays inside the vector; the unread bytes are what the buffer stands for.\<close>

definition db_wf :: "data_buffer \<Rightarrow> bool" where
  [wf_defs]: "db_wf b \<longleftrightarrow> unat (db_cursor b) \<le> length (db_buffer b) \<and> vbounded (db_buffer b)"

definition db_view :: "data_buffer \<Rightarrow> byte list" where
  "db_view b = drop (unat (db_cursor b)) (db_buffer b)"

definition db_used :: "data_buffer \<Rightarrow> nat" where
  "db_used b = length (db_buffer b)"

lemma length_db_view: "length (db_view b) = length (db_buffer b) - unat (db_cursor b)"
  by (simp add: db_view_def)

lemma db_wf_bounds:
  "db_wf b \<Longrightarrow> unat (db_cursor b) < 2 ^ 63"
  "db_wf b \<Longrightarrow> length (db_buffer b) < 2 ^ 63"
  "db_wf b \<Longrightarrow> unat (db_cursor b) + length (db_view b) = length (db_buffer b)"
  by (auto simp: db_wf_def vbounded_def length_db_view)

lemma cursor_add_unat:
  assumes "db_wf b" and "n \<le> length (db_view b)"
  shows "unat (db_cursor b + word_of_nat n) = unat (db_cursor b) + n"
  using assms db_wf_bounds[OF assms(1)] by (subst unat_add_size) auto

lemma get_check_ok:
  assumes "db_wf b" and "n < 2 ^ 63"
  shows "word_of_nat n + db_cursor b > vsize (db_buffer b) \<longleftrightarrow> length (db_view b) < n"
proof -
  have "unat (word_of_nat n + db_cursor b) = n + unat (db_cursor b)"
    using assms db_wf_bounds[OF assms(1)] by (subst unat_add_size) auto
  then show ?thesis
    using assms(1) db_wf_bounds[OF assms(1)] by (auto simp: word_less_nat_alt db_wf_def)
qed

lemma db_get_ok:
  assumes "db_wf b" and "n \<le> length (db_view b)"
  shows "db_get n b = (Inr (take n (db_view b)), b\<lparr>db_cursor := db_cursor b + word_of_nat n\<rparr>)"
proof -
  have "n < 2 ^ 63"
    using assms db_wf_bounds[OF assms(1)] by linarith
  then show ?thesis
    using assms get_check_ok[OF assms(1), of n] db_wf_bounds[OF assms(1)]
    by (auto simp: db_get_def db_view_def)
qed

lemma advance_view:
  assumes "db_wf b" and "n \<le> length (db_view b)"
  shows "db_view (b\<lparr>db_cursor := db_cursor b + word_of_nat n\<rparr>) = drop n (db_view b)"
    and "db_wf (b\<lparr>db_cursor := db_cursor b + word_of_nat n\<rparr>)"
  using assms cursor_add_unat[OF assms] db_wf_bounds[OF assms(1)]
  by (auto simp: db_view_def db_wf_def add.commute)

lemma db_get_short:
  "db_wf b \<Longrightarrow> n < 2 ^ 63 \<Longrightarrow> length (db_view b) < n \<Longrightarrow>
    db_get n b = (throw (Out_of_range ''Buffer overflow on read''), b)"
  by (simp add: db_get_def get_check_ok)

lemma db_put_wf_view:
  assumes "db_wf b" and "db_used b + length bs < 2 ^ 63"
  shows "db_wf (db_put b bs)" and "db_view (db_put b bs) = db_view b @ bs"
  using assms by (auto simp: db_wf_def db_used_def db_put_def db_view_def vbounded_def)


section \<open>Extracting a string\<close>

text \<open>
  The check \<open>size + _cursor > _buffer.size()\<close> on a stored length \<open>n\<close>: it rejects exactly the
  lengths that exceed the unread bytes, unless the addition wraps, and then it accepts.
\<close>

lemma gets_check:
  assumes "db_wf b"
  shows "n + db_cursor b > vsize (db_buffer b) \<longleftrightarrow>
    unat (db_cursor b) + unat n < 2 ^ 64 \<and> length (db_view b) < unat n"
proof (cases "unat (db_cursor b) + unat n < 2 ^ 64")
  case True
  then have "unat (n + db_cursor b) = unat n + unat (db_cursor b)"
    by (simp add: unat_add_size add.commute)
  then show ?thesis
    using True assms db_wf_bounds(3)[OF assms] by (auto simp: word_less_nat_alt db_wf_def)
next
  case False
  then have "unat (n + db_cursor b) = unat n + unat (db_cursor b) - 2 ^ 64"
    by (simp add: unat_add_size_wrap add.commute)
  moreover have "unat n < 2 ^ 64"
    by (rule size_t_less)
  ultimately have "unat (n + db_cursor b) \<le> unat (vsize (db_buffer b))"
    using assms by (auto simp: db_wf_def)
  then show ?thesis
    using False by (simp add: word_less_nat_alt)
qed

lemma db_gets_cases:
  assumes "db_wf b"
  shows "db_gets b =
    (if length (db_view b) < 8 then (throw (Out_of_range ''Buffer overflow on read''), b)
     else let n = le_val (take 8 (db_view b)); b1 = b\<lparr>db_cursor := db_cursor b + 8\<rparr>
          in if 2 ^ 64 \<le> unat (db_cursor b) + 8 + n then (ub, b1)
             else if length (db_view b) < 8 + n
             then (throw (Out_of_range ''Buffer overflow on read''), b1)
             else (Inr (take n (drop 8 (db_view b))),
                   b1\<lparr>db_cursor := db_cursor b + 8 + word_of_nat n\<rparr>))"
proof (cases "length (db_view b) < 8")
  case True
  then show ?thesis
    using assms by (simp add: db_gets_def db_get_short)
next
  case False
  define n where "n = le_val (take 8 (db_view b))"
  define b1 where "b1 = b\<lparr>db_cursor := db_cursor b + 8\<rparr>"
  have get: "db_get 8 b = (Inr (take 8 (db_view b)), b1)"
    using False assms by (simp add: db_get_ok b1_def)
  have wf1: "db_wf b1" and view1: "db_view b1 = drop 8 (db_view b)"
    and cur1: "unat (db_cursor b1) = unat (db_cursor b) + 8"
    using advance_view[OF assms, of 8] cursor_add_unat[OF assms, of 8] False
    by (simp_all add: b1_def)
  have len: "length (take 8 (db_view b)) = 8"
    using False by simp
  have dec: "unat (dec_size (take 8 (db_view b))) = n"
    using unat_dec_size[OF len] by (simp add: n_def)
  have dec': "dec_size (take 8 (db_view b)) = word_of_nat n"
    by (simp add: n_def dec_size_def)
  have inside: "unat (db_cursor b1) + n \<le> length (db_buffer b1) \<longleftrightarrow> 8 + n \<le> length (db_view b)"
    using db_wf_bounds(3)[OF wf1] view1 False by (simp add: length_db_view) linarith
  have small: "8 + n \<le> length (db_view b) \<Longrightarrow> unat (db_cursor b) + 8 + n < 2 ^ 64"
    using db_wf_bounds[OF assms] by simp
  show ?thesis
    using False gets_check[OF wf1, of "dec_size (take 8 (db_view b))"] dec dec' inside small view1
    by (auto simp: db_gets_def get Let_def cur1 simp flip: n_def b1_def)
       (auto simp: b1_def db_view_def add.commute)
qed


section \<open>Data buffers are streams\<close>

lemma db_gets_ok:
  assumes "db_wf b" and "vbounded cs" and "db_view b = enc_size (vsize cs) @ cs @ rest"
  shows "\<exists>b'. db_gets b = (Inr cs, b') \<and> db_view b' = rest \<and> db_wf b' \<and> db_used b' = db_used b"
proof -
  have n: "le_val (take 8 (db_view b)) = length cs"
    using assms(2,3) unat_dec_size[of "enc_size (vsize cs)"] by simp
  have len: "8 + length cs \<le> length (db_view b)"
    using assms(3) by simp
  have room: "unat (db_cursor b) + 8 + length cs < 2 ^ 64"
    using db_wf_bounds[OF assms(1)] len by simp
  have adv: "db_view (b\<lparr>db_cursor := db_cursor b + 8 + word_of_nat (length cs)\<rparr>) = rest"
      "db_wf (b\<lparr>db_cursor := db_cursor b + 8 + word_of_nat (length cs)\<rparr>)"
    using advance_view[OF assms(1) len] assms(3) by (simp_all add: add.assoc)
  show ?thesis
    using n len room adv assms(3) by (simp add: db_gets_cases[OF assms(1)] Let_def db_used_def)
qed

interpretation db: string_stream db_view db_used db_wf db_put db_get db_puts db_gets
proof
  fix s :: data_buffer and bs n
  assume wf: "db_wf s"
  show "length (db_view s) \<le> db_used s" and "db_used s < 2 ^ 63"
    using db_wf_bounds[OF wf] by (simp_all add: db_used_def)
  show "db_used s + length bs < 2 ^ 63 \<Longrightarrow> db_wf (db_put s bs)"
    and "db_used s + length bs < 2 ^ 63 \<Longrightarrow> db_view (db_put s bs) = db_view s @ bs"
    using db_put_wf_view[OF wf] by blast+
  show "n \<le> length (db_view s) \<Longrightarrow> \<exists>s'. db_get n s = (Inr (take n (db_view s)), s') \<and>
      db_view s' = drop n (db_view s) \<and> db_wf s' \<and> db_used s' = db_used s"
    using db_get_ok[OF wf] advance_view[OF wf] by (simp add: db_used_def)
  show "n < 2 ^ 63 \<Longrightarrow> length (db_view s) < n \<Longrightarrow>
      db_get n s = (throw (Out_of_range ''Buffer overflow on read''), s)"
    using db_get_short[OF wf] by blast
next
  fix s :: data_buffer and bs cs
  show "db_used (db_put s bs) = db_used s + length bs"
    by (simp add: db_used_def db_put_def)
  show "db_puts s cs = db_put (db_put s (enc_size (vsize cs))) cs"
    by (simp add: db_puts_def db_put_def Let_def)
next
  fix s :: data_buffer and cs rest
  assume "db_wf s" "vbounded cs" "db_view s = enc_size (vsize cs) @ cs @ rest"
  then show "\<exists>s'. db_gets s = (Inr cs, s') \<and> db_view s' = rest \<and> db_wf s' \<and> db_used s' = db_used s"
    by (rule db_gets_ok)
qed


section \<open>Properties\<close>

text \<open>
  C5. Values written with the stream operators to a buffer whose bytes have all been read come
  back equal and in the order they were written (first in, first out), whatever mix of fixed-size
  objects and strings they are, and reading them leaves the buffer fully read again.
\<close>

theorem db_put_get_roundtrip:
  assumes "db_wf b" and "db_view b = []"
    and "length (db_buffer b) + length (vals_bytes vs) < 2 ^ 63"
  shows "\<exists>b'. get_vals db_get db_gets (map shape_of vs) (put_vals db_put db_puts b vs) = (Inr vs, b') \<and>
    db_view b' = [] \<and> db_wf b'"
  using db.put_get_vals[of b vs] assms by (simp add: db_used_def)

theorem db_put_get_roundtrip_witness:
  "\<exists>b'. get_vals db_get db_gets (map shape_of [Raw [7, 0, 0, 0], Str [104, 105]])
      (put_vals db_put db_puts db_new [Raw [7, 0, 0, 0], Str [104, 105]]) =
        (Inr [Raw [7, 0, 0, 0], Str [104, 105]], b') \<and> db_view b' = [] \<and> db_wf b'"
  by (rule db_put_get_roundtrip) (simp_all add: db_new_def db_wf_def db_view_def vbounded_def)

text \<open>
  C20. What extracting a string does on a well-formed buffer, in every case: with fewer than eight
  unread bytes it throws and changes nothing; otherwise the eight bytes of the length are
  consumed first, and then a length beyond the unread bytes throws (with the cursor left behind
  the length), a length within them is delivered, and a length that makes the check
  \<open>size + _cursor\<close> wrap is undefined behaviour.
\<close>

theorem db_gets_spec:
  assumes "db_wf b"
  shows "db_gets b =
    (if length (db_view b) < 8 then (throw (Out_of_range ''Buffer overflow on read''), b)
     else let n = le_val (take 8 (db_view b)); b1 = b\<lparr>db_cursor := db_cursor b + 8\<rparr>
          in if 2 ^ 64 \<le> unat (db_cursor b) + 8 + n then (ub, b1)
             else if length (db_view b) < 8 + n
             then (throw (Out_of_range ''Buffer overflow on read''), b1)
             else (Inr (take n (drop 8 (db_view b))),
                   b1\<lparr>db_cursor := db_cursor b + 8 + word_of_nat n\<rparr>))"
  by (rule db_gets_cases[OF assms])

theorem db_gets_spec_witness:
  "db_wf (db_puts db_new [65]) \<and>
   db_gets (db_puts db_new [65]) = (Inr [65], (db_puts db_new [65])\<lparr>db_cursor := 9\<rparr>)"
proof -
  have buf: "db_puts db_new [65] = \<lparr>db_buffer = [1, 0, 0, 0, 0, 0, 0, 0, 65], db_cursor = 0\<rparr>"
    by (simp add: db_puts_def db_put_def db_new_def enc_size_def vsize_def Let_def le_bytes_numeral)
  then have wf: "db_wf (db_puts db_new [65])"
    by (simp add: db_wf_def vbounded_def)
  show ?thesis
    using wf db_gets_spec[OF wf] by (simp add: buf db_view_def Let_def)
qed

text \<open>
  The bound check on a string's length can be defeated: every stored length within
  \<open>_cursor + 8\<close> of \<open>2 ^ 64\<close> passes it and the extraction then reads outside the vector. Three
  ordinary operations reach such a state: writing a \<^verbatim>\<open>size_t\<close> of all ones and reading a string.
\<close>

theorem db_gets_length_wraps:
  "fst (db_gets (db_put db_new (enc_size (- 1)))) = ub \<and>
   (\<forall>b. db_wf b \<longrightarrow> 8 \<le> length (db_view b) \<longrightarrow>
     2 ^ 64 \<le> unat (db_cursor b) + 8 + le_val (take 8 (db_view b)) \<longrightarrow> fst (db_gets b) = ub)"
proof -
  have wrap: "fst (db_gets b) = ub"
    if "db_wf b" "8 \<le> length (db_view b)"
      "2 ^ 64 \<le> unat (db_cursor b) + 8 + le_val (take 8 (db_view b))" for b
    using that by (simp add: db_gets_cases Let_def)
  let ?b = "db_put db_new (enc_size (- 1))"
  have "le_val (enc_size (- 1)) = 2 ^ 64 - 1"
    using unat_dec_size[of "enc_size (- 1)"]
    by (simp add: unsigned_minus_1_eq_mask mask_eq_exp_minus_1)
  then have "fst (db_gets ?b) = ub"
    by (intro wrap) (simp_all add: db_put_def db_new_def db_wf_def db_view_def vbounded_def)
  with wrap show ?thesis by blast
qed

theorem db_gets_length_wraps_witness:
  "db_wf (db_put db_new (enc_size (- 2))) \<and> fst (db_gets (db_put db_new (enc_size (- 2)))) = ub"
proof -
  let ?b = "db_put db_new (enc_size (- 2))"
  have wf: "db_wf ?b" and view: "db_view ?b = enc_size (- 2)" and cur: "db_cursor ?b = 0"
    by (simp_all add: db_put_def db_new_def db_wf_def db_view_def vbounded_def)
  have "le_val (enc_size (- 2)) = 2 ^ 64 - 2"
    using unat_dec_size[of "enc_size (- 2)"] by simp
  then show ?thesis
    using wf view cur conjunct2[OF db_gets_length_wraps, rule_format, of ?b] by simp
qed

text \<open>
  C21. Every operation keeps the cursor inside the vector: whatever it returns, normally or by an
  exception, the buffer it leaves is well-formed (insertions as long as the vector stays below
  its maximal size).
\<close>

theorem db_operations_wf:
  assumes "db_wf b"
  shows "db_wf db_new \<and> db_wf (db_reset b) \<and> db_wf (db_clear b) \<and>
    (db_used b + length bs < 2 ^ 63 \<longrightarrow> db_wf (db_put b bs)) \<and>
    (db_used b + 8 + length bs < 2 ^ 63 \<longrightarrow> db_wf (db_puts b bs)) \<and>
    (db_used b + unat len < 2 ^ 63 \<longrightarrow> db_append b p len = Inr b1 \<longrightarrow> db_wf b1) \<and>
    (n < 2 ^ 63 \<longrightarrow> db_wf (snd (db_get n b))) \<and>
    (db_wf (snd (db_gets b))) \<and>
    (db_increaseCursor b k = Inr b2 \<longrightarrow> db_wf b2) \<and>
    (db_decreaseCursor b k = Inr b3 \<longrightarrow> db_wf b3)"
proof (intro conjI impI)
  show "db_wf db_new" "db_wf (db_reset b)" "db_wf (db_clear b)"
    using assms by (simp_all add: db_new_def db_reset_def db_clear_def db_wf_def vbounded_def)
  show "db_used b + length bs < 2 ^ 63 \<Longrightarrow> db_wf (db_put b bs)"
    using assms db.wf_put by blast
  show "db_used b + 8 + length bs < 2 ^ 63 \<Longrightarrow> db_wf (db_puts b bs)"
    using assms db.put_val_view[of b "Str bs"] by simp
  show "db_wf b1" if "db_used b + unat len < 2 ^ 63" "db_append b p len = Inr b1"
    using that assms
    by (auto simp: db_append_def db_used_def db_wf_def vbounded_def split: if_splits)
  show "db_wf (snd (db_get n b))" if "n < 2 ^ 63"
    using that assms advance_view[OF assms, of n]
    by (cases "n \<le> length (db_view b)") (simp_all add: db_get_ok db_get_short)
  show "db_wf (snd (db_gets b))"
  proof (cases "length (db_view b) < 8 + le_val (take 8 (db_view b)) \<or> length (db_view b) < 8")
    case True
    then show ?thesis
      using assms advance_view[OF assms, of 8] by (auto simp: db_gets_cases Let_def)
  next
    case False
    then show ?thesis
      using assms advance_view[OF assms, of "8 + le_val (take 8 (db_view b))"]
        advance_view[OF assms, of 8]
      by (auto simp: db_gets_cases Let_def add.assoc)
  qed
  show "db_wf b2" if "db_increaseCursor b k = Inr b2"
    using that assms by (auto simp: db_increaseCursor_def db_wf_def word_less_nat_alt split: if_splits)
  show "db_wf b3" if "db_decreaseCursor b k = Inr b3"
    using that assms
    by (auto simp: db_decreaseCursor_def db_wf_def not_less unat_sub_size split: if_splits)
qed

theorem db_operations_wf_witness:
  "db_wf (db_reset db_new) \<and> db_wf (db_puts db_new [1])"
  using db_operations_wf[of db_new "[1]" 0 None db_new 0 0 db_new db_new]
  by (simp add: db_new_def db_wf_def vbounded_def db_used_def)

text \<open>
  Moving the cursor: \<open>increaseCursor\<close> followed by \<open>decreaseCursor\<close> of the same amount is the
  identity when the amount is within the unread bytes, both throw exactly beyond their ends, but
  an \<open>increaseCursor\<close> whose sum wraps is accepted and moves the cursor backwards.
\<close>

theorem db_cursor_moves:
  assumes "db_wf b"
  shows "(unat k \<le> length (db_view b) \<longrightarrow>
      (\<exists>b1. db_increaseCursor b k = Inr b1 \<and> db_view b1 = drop (unat k) (db_view b) \<and>
        db_decreaseCursor b1 k = Inr b)) \<and>
    (length (db_view b) < unat k \<and> unat (db_cursor b) + unat k < 2 ^ 64 \<longrightarrow>
      db_increaseCursor b k = throw (Out_of_range ''Buffer overflow on increaseCursor'')) \<and>
    (2 ^ 64 \<le> unat (db_cursor b) + unat k \<longrightarrow>
      (\<exists>b1. db_increaseCursor b k = Inr b1 \<and> unat (db_cursor b1) < unat (db_cursor b))) \<and>
    (unat (db_cursor b) < unat k \<longrightarrow>
      db_decreaseCursor b k = throw (Out_of_range ''Buffer underflow on decreaseCursor''))"
proof (intro conjI impI)
  note check = gets_check[OF assms, of k, unfolded add.commute[of k]]
  show "\<exists>b1. db_increaseCursor b k = Inr b1 \<and> db_view b1 = drop (unat k) (db_view b) \<and>
      db_decreaseCursor b1 k = Inr b" if "unat k \<le> length (db_view b)"
  proof -
    have "unat (db_cursor b + k) = unat (db_cursor b) + unat k"
      using cursor_add_unat[OF assms that] by simp
    then show ?thesis
      using that check advance_view(1)[OF assms that]
      by (auto simp: db_increaseCursor_def db_decreaseCursor_def word_less_nat_alt)
  qed
  show "db_increaseCursor b k = throw (Out_of_range ''Buffer overflow on increaseCursor'')"
    if "length (db_view b) < unat k \<and> unat (db_cursor b) + unat k < 2 ^ 64"
    using that check by (simp add: db_increaseCursor_def)
  show "\<exists>b1. db_increaseCursor b k = Inr b1 \<and> unat (db_cursor b1) < unat (db_cursor b)"
    if "2 ^ 64 \<le> unat (db_cursor b) + unat k"
    using that check size_t_less[of k] by (auto simp: db_increaseCursor_def unat_add_size_wrap)
  show "db_decreaseCursor b k = throw (Out_of_range ''Buffer underflow on decreaseCursor'')"
    if "unat (db_cursor b) < unat k"
    using that by (simp add: db_decreaseCursor_def word_less_nat_alt)
qed

theorem db_cursor_moves_witness:
  "\<exists>b1. db_increaseCursor (db_put db_new [9, 8]) 1 = Inr b1 \<and> db_view b1 = [8] \<and>
    db_decreaseCursor b1 1 = Inr (db_put db_new [9, 8])"
  using db_cursor_moves[of "db_put db_new [9, 8]" 1]
  by (simp add: db_put_def db_new_def db_wf_def db_view_def vbounded_def)

end
