(* ===== verification/Message.thy ===== *)
theory Message
  imports Data_Buffer
begin

text \<open>
  \<^verbatim>\<open>src/src/network/message\<close>: a typed message over a data buffer, its wire format
  \<^verbatim>\<open>[type (int)][size (size_t)][data]\<close> and the test that a buffer holds a whole message.
\<close>

section \<open>State and operations\<close>

text \<open>The descriptor is \<open>None\<close> while it is indeterminate: \<open>Message(Type)\<close> does not initialise it.\<close>

record message =
  m_fd :: "int option"
  m_type :: cint
  m_buffer :: data_buffer

definition msg_typed :: "cint \<Rightarrow> message" where
  "msg_typed type = \<lparr>m_fd = None, m_type = type, m_buffer = db_new\<rparr>"

definition msg_fd_typed :: "int \<Rightarrow> cint \<Rightarrow> message" where
  "msg_fd_typed fd type = \<lparr>m_fd = Some fd, m_type = type, m_buffer = db_new\<rparr>"

definition msg_default :: message where
  "msg_default = \<lparr>m_fd = Some (- 1), m_type = 0, m_buffer = db_new\<rparr>"

definition msg_get :: "nat \<Rightarrow> message \<Rightarrow> byte list res \<times> message" where
  "msg_get n m = (let (r, b) = db_get n (m_buffer m) in (r, m\<lparr>m_buffer := b\<rparr>))"

definition msg_gets :: "message \<Rightarrow> byte list res \<times> message" where
  "msg_gets m = (let (r, b) = db_gets (m_buffer m) in (r, m\<lparr>m_buffer := b\<rparr>))"

definition msg_put :: "message \<Rightarrow> byte list \<Rightarrow> message" where
  "msg_put m bs = m\<lparr>m_buffer := db_put (m_buffer m) bs\<rparr>"

definition msg_puts :: "message \<Rightarrow> byte list \<Rightarrow> message" where
  "msg_puts m cs = m\<lparr>m_buffer := db_puts (m_buffer m) cs\<rparr>"

definition msg_appendBytes :: "message \<Rightarrow> byte list option \<Rightarrow> size_t \<Rightarrow> message res" where
  "msg_appendBytes m data len =
     (case db_append (m_buffer m) data len of
        Inl e \<Rightarrow> Inl e
      | Inr b \<Rightarrow> Inr (m\<lparr>m_buffer := b\<rparr>))"

text \<open>
  \<open>isComplet\<close> reads the header and moves the cursor back; \<open>sizeof(Message::Type)\<close> is 4 and
  \<open>sizeof(size_t)\<close> is 8.
\<close>

definition msg_isComplet :: "message \<Rightarrow> bool res \<times> message" where
  "msg_isComplet m =
     (if db_size (m_buffer m) < 4 + 8 then (Inr False, m)
      else case db_get 4 (m_buffer m) of
        (Inl e, b1) \<Rightarrow> (Inl e, m\<lparr>m_buffer := b1\<rparr>)
      | (Inr type, b1) \<Rightarrow>
          (case db_get 8 b1 of
             (Inl e, b2) \<Rightarrow> (Inl e, m\<lparr>m_buffer := b2\<rparr>)
           | (Inr messageSize, b2) \<Rightarrow>
               (case db_decreaseCursor b2 (4 + 8) of
                  Inl e \<Rightarrow> (Inl e, m\<lparr>m_buffer := b2\<rparr>)
                | Inr b3 \<Rightarrow> (Inr (db_size b3 \<ge> 4 + 8 + dec_size messageSize), m\<lparr>m_buffer := b3\<rparr>))))"

definition msg_getSerializedData :: "message \<Rightarrow> byte list res" where
  "msg_getSerializedData m =
     (case db_data (m_buffer m) of
        Inl e \<Rightarrow> Inl e
      | Inr bufData \<Rightarrow> Inr (enc_int (m_type m) @ enc_size (db_size (m_buffer m)) @ bufData))"

definition msg_reset :: "message \<Rightarrow> message" where
  "msg_reset m = m\<lparr>m_buffer := db_reset (m_buffer m)\<rparr>"

definition msg_setType :: "message \<Rightarrow> cint \<Rightarrow> message" where
  "msg_setType m type = m\<lparr>m_type := type\<rparr>"

definition msg_setMessageFd :: "message \<Rightarrow> int \<Rightarrow> message" where
  "msg_setMessageFd m fd = m\<lparr>m_fd := Some fd\<rparr>"

definition msg_type :: "message \<Rightarrow> cint" where
  "msg_type m = m_type m"

definition msg_getBuffer :: "message \<Rightarrow> data_buffer" where
  "msg_getBuffer m = m_buffer m"

definition msg_incr_cursor :: "message \<Rightarrow> size_t \<Rightarrow> message res" where
  "msg_incr_cursor m len =
     (case db_increaseCursor (m_buffer m) len of Inl e \<Rightarrow> Inl e | Inr b \<Rightarrow> Inr (m\<lparr>m_buffer := b\<rparr>))"

definition msg_decr_cursor :: "message \<Rightarrow> size_t \<Rightarrow> message res" where
  "msg_decr_cursor m len =
     (case db_decreaseCursor (m_buffer m) len of Inl e \<Rightarrow> Inl e | Inr b \<Rightarrow> Inr (m\<lparr>m_buffer := b\<rparr>))"

definition msg_getFd :: "message \<Rightarrow> int res" where
  "msg_getFd m = (case m_fd m of None \<Rightarrow> ub | Some fd \<Rightarrow> Inr fd)"

section \<open>Wire format\<close>

type_synonym frame = "cint \<times> byte list"

definition frame_bytes :: "frame \<Rightarrow> byte list" where
  "frame_bytes f = enc_int (fst f) @ enc_size (vsize (snd f)) @ snd f"

definition stream_bytes :: "frame list \<Rightarrow> byte list" where
  "stream_bytes fs = concat (map frame_bytes fs)"

text \<open>The size field of a header at the front of a byte sequence.\<close>

definition hdr_size :: "byte list \<Rightarrow> size_t" where
  "hdr_size bs = dec_size (take 8 (drop 4 bs))"

definition msg_wf :: "message \<Rightarrow> bool" where
  [wf_defs]: "msg_wf m \<longleftrightarrow> db_wf (m_buffer m)"

definition msg_view :: "message \<Rightarrow> byte list" where
  "msg_view m = db_view (m_buffer m)"

lemma length_frame_bytes [simp]: "length (frame_bytes f) = 12 + length (snd f)"
  by (simp add: frame_bytes_def)

lemma frame_bytes_nonempty [simp]: "frame_bytes f \<noteq> []"
  using length_frame_bytes[of f] by fastforce

lemma stream_bytes_simps [simp]:
  "stream_bytes [] = []"
  "stream_bytes (f # fs) = frame_bytes f @ stream_bytes fs"
  "stream_bytes (fs @ gs) = stream_bytes fs @ stream_bytes gs"
  by (simp_all add: stream_bytes_def)

lemma frame_in_stream: "f \<in> set fs \<Longrightarrow> length (frame_bytes f) \<le> length (stream_bytes fs)"
  by (induction fs) auto

lemma unat_db_size: "db_wf b \<Longrightarrow> unat (db_size b) = length (db_view b)"
  by (simp add: db_size_def unat_sub_size db_wf_def word_le_nat_alt length_db_view)

lemma db_size_eq: "db_wf b \<Longrightarrow> db_size b = vsize (db_view b)"
  using db_wf_bounds[of b]
  by (intro unsigned_word_eqI[where ?'a = nat]) (simp add: unat_db_size unat_vsize)

lemma hdr_size_frame [simp]: "hdr_size (frame_bytes f @ rest) = vsize (snd f)"
  by (simp add: hdr_size_def frame_bytes_def)

text \<open>The header of a message that is cut off anywhere behind its first twelve bytes.\<close>

lemma hdr_size_prefix:
  assumes "v @ fut = frame_bytes f @ rest" and "12 \<le> length v"
  shows "hdr_size v = vsize (snd f)"
proof -
  have "take 12 v = take 12 (frame_bytes f @ rest)"
    using assms by (metis take_append append_Nil2 diff_is_0_eq take_0)
  then have "take 8 (drop 4 (take 12 v)) = take 8 (drop 4 (take 12 (frame_bytes f @ rest)))"
    by simp
  then have "take 8 (drop 4 v) = take 8 (drop 4 (frame_bytes f @ rest))"
    by (simp add: take_drop min_def)
  then show ?thesis
    using hdr_size_frame[of f rest] by (simp add: hdr_size_def)
qed

section \<open>Completeness test\<close>

text \<open>On a well-formed message \<open>isComplet\<close> changes nothing and compares the wrapped total size.\<close>

lemma isComplet_eq:
  assumes "msg_wf m"
  shows "msg_isComplet m =
    (Inr (12 \<le> length (msg_view m) \<and> unat (12 + hdr_size (msg_view m)) \<le> length (msg_view m)), m)"
proof (cases "12 \<le> length (msg_view m)")
  case False
  then have "db_size (m_buffer m) < 4 + 8"
    using assms by (simp add: word_less_nat_alt unat_db_size msg_wf_def msg_view_def)
  then show ?thesis
    using False by (simp add: msg_isComplet_def)
next
  case True
  let ?b = "m_buffer m"
  define b1 where "b1 = ?b\<lparr>db_cursor := db_cursor ?b + 4\<rparr>"
  define b2 where "b2 = ?b\<lparr>db_cursor := db_cursor ?b + 12\<rparr>"
  have wf: "db_wf ?b" and len: "12 \<le> length (db_view ?b)"
    using assms True by (simp_all add: msg_wf_def msg_view_def)
  have get1: "db_get 4 ?b = (Inr (take 4 (db_view ?b)), b1)"
    using db_get_ok[OF wf, of 4] len by (simp add: b1_def)
  have wf1: "db_wf b1" and view1: "db_view b1 = drop 4 (db_view ?b)"
    using advance_view[OF wf, of 4] len by (simp_all add: b1_def)
  have get2: "db_get 8 b1 = (Inr (take 8 (drop 4 (db_view ?b))), b2)"
    using db_get_ok[OF wf1, of 8] len view1 by (simp add: b1_def b2_def add.commute)
  have "unat (db_cursor ?b + 12) = unat (db_cursor ?b) + 12"
    using cursor_add_unat[OF wf, of 12] len by simp
  then have dec: "db_decreaseCursor b2 (4 + 8) = Inr ?b"
    by (simp add: db_decreaseCursor_def b2_def word_less_nat_alt)
  have "\<not> db_size ?b < 4 + 8"
    using len wf by (simp add: word_less_nat_alt unat_db_size)
  then show ?thesis
    using len get1 get2 dec wf
    by (simp add: msg_isComplet_def hdr_size_def msg_view_def word_le_nat_alt unat_db_size)
qed

lemma isComplet_frame:
  assumes "msg_wf m" and "msg_view m = frame_bytes f @ rest"
  shows "msg_isComplet m = (Inr True, m)"
proof -
  have len: "length (msg_view m) = 12 + length (snd f) + length rest"
    using assms(2) by simp
  then have "12 + length (snd f) < 2 ^ 63"
    using db_wf_bounds[of "m_buffer m"] assms(1) by (simp add: msg_wf_def msg_view_def)
  then have "unat (12 + vsize (snd f)) = 12 + length (snd f)"
    by (subst unat_add_size) (simp_all add: unat_vsize)
  then show ?thesis
    using assms len by (simp add: isComplet_eq)
qed

lemma isComplet_cut:
  assumes "msg_wf m" and "msg_view m @ fut = frame_bytes f @ rest"
    and "length (msg_view m) < 12 + length (snd f)" and "vbounded (snd f)"
  shows "msg_isComplet m = (Inr False, m)"
proof (cases "12 \<le> length (msg_view m)")
  case True
  have "unat (12 + vsize (snd f)) = 12 + length (snd f)"
    using assms(4) by (subst unat_add_size) (simp_all add: vbounded_def unat_vsize)
  then show ?thesis
    using True assms hdr_size_prefix[OF assms(2)] by (simp add: isComplet_eq)
next
  case False
  then show ?thesis using assms(1) by (simp add: isComplet_eq)
qed

lemma serialized_data:
  "msg_wf m \<Longrightarrow> msg_getSerializedData m = Inr (frame_bytes (m_type m, msg_view m))"
  by (simp add: msg_getSerializedData_def db_data_def msg_wf_def msg_view_def frame_bytes_def
      db_size_eq db_wf_def flip: db_view_def)

section \<open>Messages as streams\<close>

text \<open>The operators of a message are those of its buffer, so a message is a stream too.\<close>

definition msg_used :: "message \<Rightarrow> nat" where
  "msg_used m = db_used (m_buffer m)"

interpretation msg: string_stream msg_view msg_used msg_wf msg_put msg_get msg_puts msg_gets
proof
  fix s n bs cs rest
  show "msg_wf s \<Longrightarrow> length (msg_view s) \<le> msg_used s" "msg_wf s \<Longrightarrow> msg_used s < 2 ^ 63"
    unfolding msg_wf_def msg_view_def msg_used_def by (rule db.view_used db.used_bound; assumption)+
  show "msg_used (msg_put s bs) = msg_used s + length bs"
    by (simp add: msg_used_def msg_put_def db.used_put)
  show "msg_wf s \<Longrightarrow> msg_used s + length bs < 2 ^ 63 \<Longrightarrow> msg_wf (msg_put s bs)"
    "msg_wf s \<Longrightarrow> msg_used s + length bs < 2 ^ 63 \<Longrightarrow> msg_view (msg_put s bs) = msg_view s @ bs"
    by (simp_all add: msg_wf_def msg_view_def msg_used_def msg_put_def db.wf_put db.view_put)
  show "\<exists>s'. msg_get n s = (Inr (take n (msg_view s)), s') \<and> msg_view s' = drop n (msg_view s) \<and> msg_wf s' \<and>
      msg_used s' = msg_used s" if "msg_wf s" "n \<le> length (msg_view s)"
    using db.get_ok[of "m_buffer s" n] that
    by (auto simp: msg_get_def msg_wf_def msg_view_def msg_used_def)
  show "msg_get n s = (throw (Out_of_range ''Buffer overflow on read''), s)"
    if "msg_wf s" "n < 2 ^ 63" "length (msg_view s) < n"
    using db.get_short[of "m_buffer s" n] that by (cases s) (simp add: msg_get_def msg_wf_def msg_view_def)
  show "msg_puts s cs = msg_put (msg_put s (enc_size (vsize cs))) cs"
    by (simp add: msg_puts_def msg_put_def db.puts_eq)
  show "\<exists>s'. msg_gets s = (Inr cs, s') \<and> msg_view s' = rest \<and> msg_wf s' \<and> msg_used s' = msg_used s"
    if "msg_wf s" "vbounded cs" "msg_view s = enc_size (vsize cs) @ cs @ rest"
    using db.gets_ok[of "m_buffer s" cs rest] that
    by (auto simp: msg_gets_def msg_wf_def msg_view_def msg_used_def)
qed

end
