(* ===== verification/Framing.thy ===== *)
theory Framing
  imports Message
begin

text \<open>
  Cutting whole messages off a byte stream: the loop \<^verbatim>\<open>while (msg.isComplet()) ...\<close> that
  \<^verbatim>\<open>Client::_receiveMessage\<close> and \<^verbatim>\<open>Server::_receiveClientMsg\<close> both contain. The two copies differ
  only in how the new message is constructed, which is the parameter \<open>mk\<close>.
\<close>

section \<open>The extraction loop\<close>

text \<open>
  One iteration: read the type, construct the new message, read the size, copy that many bytes
  from the unread data and advance the cursor. The second component is the partial message
  afterwards.
\<close>

definition extract_message :: "(cint \<Rightarrow> message) \<Rightarrow> message \<Rightarrow> message res \<times> message" where
  "extract_message mk tmp =
     (case msg_get 4 tmp of
        (Inl e, t1) \<Rightarrow> (Inl e, t1)
      | (Inr msgType, t1) \<Rightarrow>
          (case msg_get 8 t1 of
             (Inl e, t2) \<Rightarrow> (Inl e, t2)
           | (Inr dataSize, t2) \<Rightarrow>
               (case db_data (m_buffer t2) of
                  Inl e \<Rightarrow> (Inl e, t2)
                | Inr bytes \<Rightarrow>
                    (case msg_appendBytes (mk (dec_int msgType)) (vec_data bytes) (dec_size dataSize) of
                       Inl e \<Rightarrow> (Inl e, t2)
                     | Inr newMsg \<Rightarrow>
                         (case msg_incr_cursor t2 (dec_size dataSize) of
                            Inl e \<Rightarrow> (Inl e, t2)
                          | Inr t3 \<Rightarrow> (Inr newMsg, t3))))))"

text \<open>The loop itself; \<open>None\<close> would mean that it does not end.\<close>

partial_function (option) drain ::
  "(cint \<Rightarrow> message) \<Rightarrow> message \<Rightarrow> message list \<Rightarrow> (unit res \<times> message list \<times> message) option"
where
  "drain mk tmp acc =
     (case msg_isComplet tmp of
        (Inl e, t1) \<Rightarrow> Some (Inl e, acc, t1)
      | (Inr c, t1) \<Rightarrow>
          (if \<not> c then Some (Inr (), acc, t1)
           else case extract_message mk t1 of
             (Inl e, t2) \<Rightarrow> Some (Inl e, acc, t2)
           | (Inr newMsg, t2) \<Rightarrow> drain mk t2 (acc @ [newMsg])))"

section \<open>One iteration\<close>

text \<open>The message a frame becomes, when \<open>mk\<close> constructs an empty message.\<close>

definition frame_message :: "(cint \<Rightarrow> message) \<Rightarrow> frame \<Rightarrow> message" where
  "frame_message mk f = (mk (fst f))\<lparr>m_buffer := \<lparr>db_buffer = snd f, db_cursor = 0\<rparr>\<rparr>"

definition fresh :: "(cint \<Rightarrow> message) \<Rightarrow> bool" where
  "fresh mk \<longleftrightarrow> (\<forall>t. m_buffer (mk t) = db_new)"

lemma append_fresh:
  assumes "fresh mk"
  shows "msg_appendBytes (mk t) (vec_data bs) n =
    (if bs = [] then Inr (frame_message mk (t, []))
     else if unat n \<le> length bs then Inr (frame_message mk (t, take (unat n) bs)) else ub)"
  using assms
  by (cases "n = 0") (auto simp: msg_appendBytes_def db_append_def vec_data_def fresh_def db_new_def
      frame_message_def unat_eq_0 simp flip: word_unat_eq_iff)

definition header_of :: "byte list \<Rightarrow> cint" where
  "header_of v = dec_int (take 4 v)"

text \<open>
  The outcome of an iteration, from the unread bytes \<open>v\<close> with a whole header: the payload is there; or
  nothing follows the header, so that nothing is copied and only the cursor check can fail; or
  the copy leaves the vector.
\<close>

lemma extract_eq:
  assumes "msg_wf tmp" and "12 \<le> length (msg_view tmp)" and "fresh mk"
  shows "extract_message mk tmp =
    (let v = msg_view tmp; n = hdr_size v;
         adv = (\<lambda>k. tmp\<lparr>m_buffer := (m_buffer tmp)\<lparr>db_cursor := db_cursor (m_buffer tmp) + k\<rparr>\<rparr>)
     in if unat n \<le> length v - 12
        then (Inr (frame_message mk (header_of v, take (unat n) (drop 12 v))), adv (12 + n))
        else if 12 < length v then (ub, adv 12)
        else if unat (db_cursor (m_buffer tmp)) + 12 + unat n < 2 ^ 64
        then (throw (Out_of_range ''Buffer overflow on increaseCursor''), adv 12)
        else (Inr (frame_message mk (header_of v, [])), adv (12 + n)))"
proof -
  let ?b = "m_buffer tmp"
  define v where "v = db_view ?b"
  define b1 where "b1 = ?b\<lparr>db_cursor := db_cursor ?b + 4\<rparr>"
  define b2 where "b2 = ?b\<lparr>db_cursor := db_cursor ?b + 12\<rparr>"
  have wf: "db_wf ?b" and len: "12 \<le> length v"
    using assms by (simp_all add: msg_wf_def msg_view_def v_def)
  have get1: "msg_get 4 tmp = (Inr (take 4 v), tmp\<lparr>m_buffer := b1\<rparr>)"
    using db_get_ok[OF wf, of 4] len by (simp add: msg_get_def b1_def v_def)
  have wf1: "db_wf b1" and view1: "db_view b1 = drop 4 v"
    using advance_view[OF wf, of 4] len by (simp_all add: b1_def v_def)
  have get2: "msg_get 8 (tmp\<lparr>m_buffer := b1\<rparr>) = (Inr (take 8 (drop 4 v)), tmp\<lparr>m_buffer := b2\<rparr>)"
    using db_get_ok[OF wf1, of 8] len view1 by (simp add: msg_get_def b1_def b2_def add.commute)
  have wf2: "db_wf b2" and view2: "db_view b2 = drop 12 v"
    using advance_view[OF wf, of 12] len by (simp_all add: b2_def v_def)
  have data: "db_data b2 = Inr (drop 12 v)"
    using wf2 view2 by (simp add: db_data_def db_wf_def db_view_def)
  define n where "n = hdr_size v"
  have cur2: "unat (db_cursor b2) = unat (db_cursor ?b) + 12"
    using cursor_add_unat[OF wf, of 12] len by (simp add: b2_def v_def)
  have inc: "db_increaseCursor b2 n =
      (if unat (db_cursor ?b) + 12 + unat n < 2 ^ 64 \<and> length v - 12 < unat n
       then throw (Out_of_range ''Buffer overflow on increaseCursor'')
       else Inr (b2\<lparr>db_cursor := db_cursor b2 + n\<rparr>))"
    using gets_check[OF wf2, of n] view2 cur2 by (auto simp: db_increaseCursor_def add.commute)
  have "dec_size (take 8 (drop 4 v)) = n"
    by (simp add: n_def hdr_size_def)
  then show ?thesis
    using get1 get2 data inc len append_fresh[OF assms(3), of "header_of v" "drop 12 v" n]
    by (auto simp: extract_message_def msg_incr_cursor_def msg_view_def Let_def header_of_def
        b2_def ac_simps simp flip: v_def n_def)
qed

text \<open>
  After a header alone whose size makes the test of completeness wrap, an empty message is
  delivered and the cursor comes to stand inside the header, or in front of it.
\<close>

lemma extract_wrap:
  assumes "msg_wf tmp" and "length (msg_view tmp) = 12" and "fresh mk"
    and "2 ^ 64 \<le> 12 + unat (hdr_size (msg_view tmp))"
  shows "extract_message mk tmp = (Inr (frame_message mk (header_of (msg_view tmp), [])),
    tmp\<lparr>m_buffer := (m_buffer tmp)\<lparr>db_cursor := db_cursor (m_buffer tmp) + (12 + hdr_size (msg_view tmp))\<rparr>\<rparr>)"
  using extract_eq[OF assms(1) _ assms(3)] assms(2,4) by (simp add: Let_def)

lemma extract_frame:
  assumes "msg_wf tmp" and "msg_view tmp = frame_bytes f @ rest" and "fresh mk"
  obtains t where "extract_message mk tmp = (Inr (frame_message mk f), t)" and "msg_wf t"
    and "msg_view t = rest" and "db_used (m_buffer t) = db_used (m_buffer tmp)"
proof -
  let ?v = "msg_view tmp"
  have len: "length ?v = 12 + length (snd f) + length rest"
    using assms(2) by simp
  then have "length (snd f) < 2 ^ 63"
    using db_wf_bounds[of "m_buffer tmp"] assms(1) by (simp add: msg_wf_def msg_view_def)
  then have n: "unat (hdr_size ?v) = length (snd f)"
    using assms(2) by (simp add: unat_vsize)
  have hdr: "header_of ?v = fst f" and body: "take (length (snd f)) (drop 12 ?v) = snd f"
    using assms(2) by (simp_all add: header_of_def frame_bytes_def)
  have wf: "db_wf (m_buffer tmp)" and room: "12 + length (snd f) \<le> length (db_view (m_buffer tmp))"
    using assms(1) len by (simp_all add: msg_wf_def msg_view_def)
  show thesis
  proof (rule that)
    show "extract_message mk tmp = (Inr (frame_message mk f), tmp\<lparr>m_buffer := (m_buffer tmp)
        \<lparr>db_cursor := db_cursor (m_buffer tmp) + word_of_nat (12 + length (snd f))\<rparr>\<rparr>)"
      using extract_eq[OF assms(1) _ assms(3)] len n hdr body assms(2) by (simp add: Let_def vsize_def)
  qed (use advance_view[OF wf room] assms(2) in
        \<open>simp_all add: msg_wf_def msg_view_def db_used_def frame_bytes_def\<close>)
qed

section \<open>Appending what the socket delivered\<close>

lemma append_chunk:
  assumes "msg_wf m" and "db_used (m_buffer m) + length ch < 2 ^ 63"
  obtains m' where "msg_appendBytes m (Some ch) (vsize ch) = Inr m'" and "msg_wf m'"
    and "msg_view m' = msg_view m @ ch"
    and "db_used (m_buffer m') = db_used (m_buffer m) + length ch"
proof -
  have len: "unat (vsize ch) = length ch"
    using assms(2) by (simp add: unat_vsize)
  have "ch = []" if "vsize ch = 0"
    using len that by simp
  then have eq: "msg_appendBytes m (Some ch) (vsize ch) = Inr (m\<lparr>m_buffer := db_put (m_buffer m) ch\<rparr>)"
    by (cases "vsize ch = 0") (simp_all add: msg_appendBytes_def db_append_def len db_put_def)
  show thesis
  proof (rule that[OF eq])
    show "msg_wf (m\<lparr>m_buffer := db_put (m_buffer m) ch\<rparr>)"
      and "msg_view (m\<lparr>m_buffer := db_put (m_buffer m) ch\<rparr>) = msg_view m @ ch"
      using assms db_put_wf_view[of "m_buffer m" ch] by (simp_all add: msg_wf_def msg_view_def)
  qed (simp add: db.used_put)
qed

section \<open>The whole loop\<close>

lemma drain_stop: "msg_isComplet tmp = (Inr False, tmp) \<Longrightarrow> drain mk tmp acc = Some (Inr (), acc, tmp)"
  by (simp add: drain.simps)

lemma drain_next:
  "msg_isComplet tmp = (Inr True, tmp) \<Longrightarrow> extract_message mk tmp = (Inr m, t) \<Longrightarrow>
    drain mk tmp acc = drain mk t (acc @ [m])"
  by (subst drain.simps) simp

lemma drain_fail:
  "msg_isComplet tmp = (Inr True, tmp) \<Longrightarrow> extract_message mk tmp = (Inl e, t) \<Longrightarrow>
    drain mk tmp acc = Some (Inl e, acc, t)"
  by (simp add: drain.simps)

text \<open>The bytes on whose last header the loop turns round: a size field of \<open>2 ^ 64 - 12\<close> at the end.\<close>

definition no_loop :: "byte list \<Rightarrow> bool" where
  "no_loop v \<longleftrightarrow> \<not> (8 \<le> length v \<and> drop (length v - 8) v = enc_size (- 12))"

lemma no_loop_drop: "no_loop v \<Longrightarrow> no_loop (drop k v)"
  by (auto simp: no_loop_def)

lemma no_loop_header:
  assumes "no_loop v" and "length v = 12"
  shows "hdr_size v \<noteq> - 12"
proof
  assume "hdr_size v = - 12"
  then have "word_of_nat (le_val (drop 4 v)) = (- 12 :: size_t)"
    using assms(2) by (simp add: hdr_size_def dec_size_def)
  then have "enc_size (- 12) = le_bytes 8 (le_val (drop 4 v))"
    using le_val_less[of "drop 4 v"] assms(2) by (simp add: enc_size_def flip: \<open>word_of_nat _ = _\<close>)
  then have "enc_size (- 12) = drop 4 v"
    using assms(2) by (simp add: le_bytes_le_val)
  then show False
    using assms by (simp add: no_loop_def)
qed

lemma extract_cases:
  assumes "msg_wf tmp" and "12 \<le> length (msg_view tmp)" and "fresh mk"
    and "unat (12 + hdr_size (msg_view tmp)) \<le> length (msg_view tmp)" and "no_loop (msg_view tmp)"
  obtains f t where "extract_message mk tmp = (Inr (frame_message mk f), t)" and "msg_wf t"
      and "length (msg_view t) < length (msg_view tmp)" and "no_loop (msg_view t)"
    | t where "extract_message mk tmp = (ub, t)" and "msg_wf t"
proof -
  let ?n = "hdr_size (msg_view tmp)"
  define adv where "adv k = tmp\<lparr>m_buffer := (m_buffer tmp)
    \<lparr>db_cursor := db_cursor (m_buffer tmp) + k\<rparr>\<rparr>" for k
  have adv: "msg_wf (adv k) \<and> msg_view (adv k) = drop (unat k) (msg_view tmp)"
    if "unat k \<le> length (msg_view tmp)" for k
    using advance_view[of "m_buffer tmp" "unat k"] that assms(1)
    by (simp add: adv_def msg_wf_def msg_view_def)
  show thesis
  proof (cases "unat ?n \<le> length (msg_view tmp) - 12")
    case True
    then have "unat (12 + ?n) = 12 + unat ?n"
      using db_wf_bounds[of "m_buffer tmp"] assms(1)
      by (subst unat_add_size) (simp_all add: msg_wf_def msg_view_def)
    then show thesis
      using that(1) adv[OF assms(4)] extract_eq[OF assms(1-3)] True assms(2,5)
      by (simp add: Let_def adv_def no_loop_drop)
  next
    case False
    show thesis
    proof (cases "12 < length (msg_view tmp)")
      case True
      then show thesis
        using that(2) adv[of 12] extract_eq[OF assms(1-3)] False by (simp add: Let_def adv_def)
    next
      case short: False
      then have len: "length (msg_view tmp) = 12"
        using assms(2) by simp
      have "12 + ?n \<noteq> 0"
        using no_loop_header[OF assms(5) len] by (metis add_eq_0_iff)
      then have pos: "0 < unat (12 + ?n)"
        using unat_gt_0 by blast
      have "2 ^ 64 \<le> 12 + unat ?n"
      proof (rule ccontr)
        assume "\<not> 2 ^ 64 \<le> 12 + unat ?n"
        then have "unat (12 + ?n) = 12 + unat ?n"
          by (subst unat_add_size) simp_all
        then show False using assms(4) False len by simp
      qed
      then show thesis
        using that(1) adv[OF assms(4)] extract_wrap[OF assms(1) len assms(3)] pos len assms(5)
        by (simp add: adv_def no_loop_drop)
    qed
  qed
qed

text \<open>The loop ends on every well-formed buffer without such an end.\<close>

lemma drain_terminates:
  assumes "msg_wf tmp" and "fresh mk" and "no_loop (msg_view tmp)"
  shows "\<exists>r fs t. drain mk tmp acc = Some (r, acc @ map (frame_message mk) fs, t) \<and> msg_wf t"
  using assms(1,3)
proof (induction "length (msg_view tmp)" arbitrary: tmp acc rule: less_induct)
  case less
  let ?v = "msg_view tmp"
  show ?case
  proof (cases "12 \<le> length ?v \<and> unat (12 + hdr_size ?v) \<le> length ?v")
    case False
    then have "msg_isComplet tmp = (Inr False, tmp)"
      using less.prems by (simp add: isComplet_eq)
    then show ?thesis
      using less.prems by (intro exI[of _ "[]"] exI) (simp add: drain_stop)
  next
    case True
    then have cpl: "msg_isComplet tmp = (Inr True, tmp)"
      using less.prems by (simp add: isComplet_eq)
    from less.prems(1) conjunct1[OF True] assms(2) conjunct2[OF True] less.prems(2) show ?thesis
    proof (cases rule: extract_cases)
      case (1 f t)
      then obtain r fs t' where "msg_wf t'" "drain mk t (acc @ [frame_message mk f]) =
          Some (r, (acc @ [frame_message mk f]) @ map (frame_message mk) fs, t')"
        using less.hyps[of t "acc @ [frame_message mk f]"] by blast
      then show ?thesis
        using drain_next[OF cpl 1(1)] by (intro exI[of _ "f # fs"] exI) simp
    next
      case (2 t)
      then show ?thesis
        using drain_fail[OF cpl 2(1)] by (intro exI[of _ "[]"] exI) simp
    qed
  qed
qed

text \<open>
  On a lone header with that size the loop comes back to the same buffer for ever, with one more
  empty message each time.
\<close>

lemma hdr_size_header [simp]: "hdr_size (enc_int k @ enc_size n @ rest) = n"
  "hdr_size (enc_int k @ enc_size n) = n"
  by (simp_all add: hdr_size_def)

lemma drain_loops:
  assumes "msg_wf tmp" and "fresh mk" and "msg_view tmp = enc_int k @ enc_size (- 12)"
  shows "drain mk tmp acc = None"
proof -
  have len: "length (msg_view tmp) = 12" and hdr: "hdr_size (msg_view tmp) = - 12"
    using assms(3) by simp_all
  have cpl: "msg_isComplet tmp = (Inr True, tmp)"
    using isComplet_eq[OF assms(1)] len hdr by simp
  obtain m where turn: "extract_message mk tmp = (Inr m, tmp)"
    using extract_wrap[OF assms(1) len assms(2)] hdr by (simp add: unat_minus_12)
  have "\<not> (k = mk \<and> t = tmp)" if "drain k t a = Some y" for k t a y
    by (rule drain.raw_induct[where P = "\<lambda>k t a y. \<not> (k = mk \<and> t = tmp)", OF _ that])
      (use cpl turn in \<open>fastforce split: prod.splits\<close>)
  then show ?thesis
    by (metis option.exhaust)
qed

text \<open>
  On a buffer that holds a front part of a stream of frames the loop delivers the whole frames
  in it and leaves the bytes of the frame that is cut off.
\<close>

lemma drain_frames:
  assumes "msg_wf tmp" and "fresh mk" and "msg_view tmp @ fut = stream_bytes fs"
    and "\<forall>f \<in> set fs. vbounded (snd f)"
  shows "\<exists>k t. k \<le> length fs \<and>
    drain mk tmp acc = Some (Inr (), acc @ map (frame_message mk) (take k fs), t) \<and> msg_wf t \<and>
    msg_view t @ fut = stream_bytes (drop k fs) \<and> db_used (m_buffer t) = db_used (m_buffer tmp) \<and>
    (k < length fs \<longrightarrow> length (msg_view t) < length (frame_bytes (fs ! k)))"
  using assms
proof (induction fs arbitrary: tmp acc)
  case Nil
  then have "msg_isComplet tmp = (Inr False, tmp)"
    by (simp add: isComplet_eq)
  then show ?case
    using Nil.prems by (simp add: drain_stop)
next
  case (Cons f fs)
  show ?case
  proof (cases "length (msg_view tmp) < 12 + length (snd f)")
    case True
    then have "msg_isComplet tmp = (Inr False, tmp)"
      using Cons.prems by (intro isComplet_cut[of tmp fut f "stream_bytes fs"]) auto
    then show ?thesis
      using Cons.prems True by (intro exI[of _ 0] exI[of _ tmp]) (simp add: drain_stop)
  next
    case False
    then obtain rest where rest: "msg_view tmp = frame_bytes f @ rest"
        "rest @ fut = stream_bytes fs"
      using Cons.prems(3) append_eq_prefix[of "msg_view tmp" fut "frame_bytes f"] by auto
    obtain t where t: "extract_message mk tmp = (Inr (frame_message mk f), t)" "msg_wf t"
        "msg_view t = rest" "db_used (m_buffer t) = db_used (m_buffer tmp)"
      using extract_frame[OF Cons.prems(1) rest(1) Cons.prems(2)] .
    have step_eq: "drain mk tmp acc = drain mk t (acc @ [frame_message mk f])"
      using isComplet_frame[OF Cons.prems(1) rest(1)] t(1) by (rule drain_next)
    obtain k t' where "k \<le> length fs" "msg_wf t'"
        "drain mk t (acc @ [frame_message mk f]) =
          Some (Inr (), (acc @ [frame_message mk f]) @ map (frame_message mk) (take k fs), t')"
        "msg_view t' @ fut = stream_bytes (drop k fs)" "db_used (m_buffer t') = db_used (m_buffer t)"
        "k < length fs \<longrightarrow> length (msg_view t') < length (frame_bytes (fs ! k))"
      using Cons.IH[of t "acc @ [frame_message mk f]"] Cons.prems t rest by auto
    then show ?thesis
      using step_eq t by (intro exI[of _ "Suc k"] exI[of _ t']) simp
  qed
qed

lemma stream_prefix_end:
  assumes "v = stream_bytes gs" and "gs \<noteq> [] \<longrightarrow> length v < length (frame_bytes (hd gs))"
  shows "gs = []"
  using assms by (cases gs) auto

lemma drain_all:
  assumes "msg_wf tmp" and "fresh mk" and "msg_view tmp = stream_bytes fs"
    and "\<forall>f \<in> set fs. vbounded (snd f)"
  shows "\<exists>t. drain mk tmp acc = Some (Inr (), acc @ map (frame_message mk) fs, t) \<and> msg_wf t \<and>
    msg_view t = []"
proof -
  have "msg_view tmp @ [] = stream_bytes fs"
    using assms(3) by simp
  from drain_frames[OF assms(1,2) this assms(4), of acc] obtain k t where
    k: "drain mk tmp acc = Some (Inr (), acc @ map (frame_message mk) (take k fs), t)" "msg_wf t"
      "msg_view t @ [] = stream_bytes (drop k fs)"
      "k < length fs \<longrightarrow> length (msg_view t) < length (frame_bytes (fs ! k))"
    by blast
  have "drop k fs = []"
    by (rule stream_prefix_end[of "msg_view t"]) (use k(3,4) in \<open>simp_all add: hd_drop_conv_nth\<close>)
  then show ?thesis
    using k by simp
qed

end
