(* ===== verification/Posix.thy ===== *)
theory Posix
  imports Libftpp_Prelude
begin

text \<open>
  What the network classes see of the operating system. The calls themselves are not code of the
  library: their results are arguments of the operations that make them. Fixed here are the
  error numbers the code distinguishes, the outcome of draining a socket with
  \<^verbatim>\<open>recv(..., MSG_DONTWAIT)\<close> and the descriptor sets of \<^verbatim>\<open>select\<close>.
\<close>

datatype errno = EAGAIN | EWOULDBLOCK | ENOTCONN | ECONNRESET | EPIPE | EBADF | EINTR | EOther nat

text \<open>The error numbers of Linux, as they are printed.\<close>

fun errno_num :: "errno \<Rightarrow> nat" where
  "errno_num EAGAIN = 11"
| "errno_num EWOULDBLOCK = 11"
| "errno_num ENOTCONN = 107"
| "errno_num ECONNRESET = 104"
| "errno_num EPIPE = 32"
| "errno_num EBADF = 9"
| "errno_num EINTR = 4"
| "errno_num (EOther n) = n"

text \<open>
  A loop \<^verbatim>\<open>while ((bytes = recv(...)) > 0)\<close> sees a finite sequence of chunks and then either the
  orderly end of the connection (0) or an error (-1 with \<^verbatim>\<open>errno\<close>).
\<close>

datatype recv_end = RClosed | RError errno

type_synonym recv_batch = "byte list list \<times> recv_end"

definition would_block :: "errno \<Rightarrow> bool" where
  "would_block e \<longleftrightarrow> e = EAGAIN \<or> e = EWOULDBLOCK"

text \<open>Chunks that a socket with a read buffer of \<open>cap\<close> bytes can deliver.\<close>

definition chunks_ok :: "nat \<Rightarrow> byte list list \<Rightarrow> bool" where
  "chunks_ok cap cs \<longleftrightarrow> (\<forall>c \<in> set cs. 0 < length c \<and> length c \<le> cap)"

text \<open>
  \<^verbatim>\<open>fd_set\<close> holds the descriptors from 0 to \<^verbatim>\<open>FD_SETSIZE - 1\<close>; \<^verbatim>\<open>FD_SET\<close>, \<^verbatim>\<open>FD_CLR\<close> and
  \<^verbatim>\<open>FD_ISSET\<close> on any other descriptor leave the array.
\<close>

type_synonym fd_set = "int set"

definition FD_SETSIZE :: int where
  "FD_SETSIZE = 1024"

definition fd_ok :: "int \<Rightarrow> bool" where
  "fd_ok fd \<longleftrightarrow> 0 \<le> fd \<and> fd < FD_SETSIZE"

definition FD_SET :: "int \<Rightarrow> fd_set \<Rightarrow> fd_set res" where
  "FD_SET fd s = (if fd_ok fd then Inr (insert fd s) else ub)"

definition FD_CLR :: "int \<Rightarrow> fd_set \<Rightarrow> fd_set res" where
  "FD_CLR fd s = (if fd_ok fd then Inr (s - {fd}) else ub)"

definition FD_ISSET :: "int \<Rightarrow> fd_set \<Rightarrow> bool res" where
  "FD_ISSET fd s = (if fd_ok fd then Inr (fd \<in> s) else ub)"

text \<open>The network byte order does not matter for what is modelled: a port is what \<^verbatim>\<open>htons\<close> keeps of it.\<close>

definition port16 :: "size_t \<Rightarrow> 16 word" where
  "port16 p = ucast p"

end
