(* ===== verification/Client.thy ===== *)
theory Client
  imports Framing Posix
begin

text \<open>
  \<^verbatim>\<open>src/src/network/client\<close>: the TCP client. Its state is the queue of received messages, the
  actions per message type, the partial message that collects the bytes of the connection and
  the socket. The system calls are arguments: a record of call results for \<open>connect\<close>, and for
  \<open>update\<close> the list of drained batches, one per round in which \<^verbatim>\<open>select\<close> reports the socket
  readable. An action is a name of type \<open>'cb\<close>; \<open>run\<close> executes it on a message and the rest of the
  world, and may move the message's read cursor, which is \<^verbatim>\<open>mutable\<close> in the code.
\<close>

section \<open>State and operations\<close>

record 'cb client =
  c_msgs :: "message list"
  c_triggers :: "cint \<Rightarrow> 'cb list option"
  c_tmpMsg :: message
  c_fd :: int
  c_closed :: "int list" \<comment> \<open>descriptors passed to \<^verbatim>\<open>close\<close>, latest first\<close>

record client_os =
  os_socket :: int
  os_inet_pton :: "string \<Rightarrow> bool"
  os_gethostbyname :: "string \<Rightarrow> bool"
  os_connect :: "int \<Rightarrow> string \<Rightarrow> 16 word \<Rightarrow> int"
  os_errno :: errno
  os_strerror :: "errno \<Rightarrow> string"

definition cl_new :: "'cb client" where
  "cl_new = \<lparr>c_msgs = [], c_triggers = (\<lambda>_. None), c_tmpMsg = msg_default, c_fd = - 1, c_closed = []\<rparr>"

definition cl_disconnect :: "'cb client \<Rightarrow> 'cb client" where
  "cl_disconnect c =
     (let c1 = (if c_fd c > 0 then c\<lparr>c_closed := c_fd c # c_closed c\<rparr> else c)
      in c1\<lparr>c_fd := - 1\<rparr>)"

definition cl_networkError ::
  "(errno \<Rightarrow> string) \<Rightarrow> string \<Rightarrow> errno \<Rightarrow> 'cb client \<Rightarrow> unit res \<times> 'cb client" where
  "cl_networkError strerror errorMsg err c =
     (throw (Runtime_error (errorMsg @ strerror err @ '' (errno: '' @ to_string (errno_num err) @ '')'')),
      cl_disconnect c)"

definition cl_connect ::
  "client_os \<Rightarrow> string \<Rightarrow> size_t \<Rightarrow> 'cb client \<Rightarrow> unit res \<times> 'cb client" where
  "cl_connect os address port c =
     (let c1 = (cl_disconnect c)\<lparr>c_fd := os_socket os\<rparr>
      in if c_fd c1 < 0
         then cl_networkError (os_strerror os) ''Cannot create socket'' (os_errno os) c1
         else if \<not> os_inet_pton os address \<and> \<not> os_gethostbyname os address
         then cl_networkError (os_strerror os) (''Cannot resolve hostname: '' @ address) (os_errno os) c1
         else if os_connect os (c_fd c1) address (port16 port) < 0
         then cl_networkError (os_strerror os) ''Cannot connect to socket: '' (os_errno os) c1
         else (Inr (), c1))"

definition cl_new_connected :: "client_os \<Rightarrow> string \<Rightarrow> size_t \<Rightarrow> unit res \<times> 'cb client" where
  "cl_new_connected os address port = cl_connect os address port cl_new"

definition cl_defineAction :: "cint \<Rightarrow> 'cb \<Rightarrow> 'cb client \<Rightarrow> 'cb client" where
  "cl_defineAction messageType action c =
     c\<lparr>c_triggers := (c_triggers c)(messageType :=
        Some ((case c_triggers c messageType of None \<Rightarrow> [] | Some as \<Rightarrow> as) @ [action]))\<rparr>"

text \<open>\<open>send\<close> ignores the result of the system call; the model gives the bytes handed to it.\<close>

definition cl_send :: "message \<Rightarrow> 'cb client \<Rightarrow> (int \<times> byte list) res" where
  "cl_send msg c =
     (case msg_getSerializedData msg of Inl e \<Rightarrow> Inl e | Inr data \<Rightarrow> Inr (c_fd c, data))"

definition cl_isConnected :: "(int \<Rightarrow> bool) \<Rightarrow> 'cb client \<Rightarrow> bool" where
  "cl_isConnected getsockopt_ok c \<longleftrightarrow> \<not> c_fd c \<le> 0 \<and> getsockopt_ok (c_fd c)"

fun append_chunks :: "byte list list \<Rightarrow> message \<Rightarrow> message res" where
  "append_chunks [] tmp = Inr tmp"
| "append_chunks (ch # chs) tmp =
     (case msg_appendBytes tmp (Some ch) (vsize ch) of
        Inl e \<Rightarrow> Inl e
      | Inr tmp' \<Rightarrow> append_chunks chs tmp')"

definition cl_receiveMessage ::
  "(errno \<Rightarrow> string) \<Rightarrow> recv_batch \<Rightarrow> 'cb client \<Rightarrow> (unit res \<times> 'cb client) option" where
  "cl_receiveMessage strerror batch c =
     (case append_chunks (fst batch) (c_tmpMsg c) of
        Inl e \<Rightarrow> Some (Inl e, c)
      | Inr tmp \<Rightarrow>
          (let c1 = c\<lparr>c_tmpMsg := tmp\<rparr>;
               parse = (case drain msg_typed tmp (c_msgs c) of
                          None \<Rightarrow> None
                        | Some (r, ms, tmp') \<Rightarrow> Some (r, c1\<lparr>c_msgs := ms, c_tmpMsg := tmp'\<rparr>))
           in case snd batch of
                RClosed \<Rightarrow> Some (Inr (), cl_disconnect c1)
              | RError err \<Rightarrow>
                  (if \<not> would_block err
                   then if err = ENOTCONN \<or> err = ECONNRESET \<or> err = EPIPE \<or> err = EBADF
                        then Some (Inr (), cl_disconnect c1)
                        else Some (cl_networkError strerror ''Cannot receive message: '' err c1)
                   else parse)))"

text \<open>
  The rounds of \<open>update\<close> in which \<^verbatim>\<open>select\<close> reports the socket readable, and the one in which it does
  not; each begins by adding the descriptor to a set, which holds no descriptor from 1024 on.
\<close>

fun cl_poll ::
  "(errno \<Rightarrow> string) \<Rightarrow> recv_batch list \<Rightarrow> 'cb client \<Rightarrow> (unit res \<times> 'cb client) option" where
  "cl_poll strerror [] c = Some (if c_fd c > 0 \<and> \<not> fd_ok (c_fd c) then ub else Inr (), c)"
| "cl_poll strerror (b # bs) c =
     (if c_fd c > 0
      then if \<not> fd_ok (c_fd c) then Some (ub, c)
      else case cl_receiveMessage strerror b c of
             None \<Rightarrow> None
           | Some (Inl e, c') \<Rightarrow> Some (Inl e, c')
           | Some (Inr u, c') \<Rightarrow> cl_poll strerror bs c'
      else Some (Inr (), c))"

text \<open>Running the actions of one message, then of all messages; an exception ends both loops.\<close>

fun run_actions ::
  "('cb \<Rightarrow> message \<Rightarrow> 'w \<Rightarrow> unit res \<times> message \<times> 'w) \<Rightarrow> 'cb list \<Rightarrow> message \<Rightarrow> 'w
     \<Rightarrow> unit res \<times> message \<times> 'w" where
  "run_actions run [] msg w = (Inr (), msg, w)"
| "run_actions run (f # fs) msg w =
     (case run f msg w of
        (Inl e, msg', w') \<Rightarrow> (Inl e, msg', w')
      | (Inr u, msg', w') \<Rightarrow> run_actions run fs msg' w')"

fun cl_dispatch ::
  "('cb \<Rightarrow> message \<Rightarrow> 'w \<Rightarrow> unit res \<times> message \<times> 'w) \<Rightarrow> (cint \<Rightarrow> 'cb list option) \<Rightarrow> message list
     \<Rightarrow> 'w \<Rightarrow> unit res \<times> message list \<times> 'w" where
  "cl_dispatch run trig [] w = (Inr (), [], w)"
| "cl_dispatch run trig (msg # ms) w =
     (case (case trig (m_type msg) of
              None \<Rightarrow> (Inr (), msg, w)
            | Some fs \<Rightarrow> run_actions run fs msg w) of
        (Inl e, msg', w') \<Rightarrow> (Inl e, msg' # ms, w')
      | (Inr u, msg', w') \<Rightarrow>
          (case cl_dispatch run trig ms w' of (r, ms', w'') \<Rightarrow> (r, msg' # ms', w'')))"

definition cl_update ::
  "('cb \<Rightarrow> message \<Rightarrow> 'w \<Rightarrow> unit res \<times> message \<times> 'w) \<Rightarrow> (int \<Rightarrow> bool) \<Rightarrow> (errno \<Rightarrow> string)
     \<Rightarrow> recv_batch list \<Rightarrow> 'cb client \<Rightarrow> 'w \<Rightarrow> (unit res \<times> 'cb client \<times> 'w) option" where
  "cl_update run getsockopt_ok strerror batches c w =
     (if \<not> cl_isConnected getsockopt_ok c then Some (Inr (), c, w)
      else case cl_poll strerror batches c of
        None \<Rightarrow> None
      | Some (Inl e, c1) \<Rightarrow> Some (Inl e, c1, w)
      | Some (Inr u, c1) \<Rightarrow>
          (case cl_dispatch run (c_triggers c1) (c_msgs c1) w of
             (Inl e, ms, w') \<Rightarrow> Some (Inl e, c1\<lparr>c_msgs := ms\<rparr>, w')
           | (Inr u, ms, w') \<Rightarrow> Some (Inr (), c1\<lparr>c_msgs := []\<rparr>, w')))"

section \<open>Collecting bytes\<close>

lemma fresh_typed [simp]: "fresh msg_typed"
  by (simp add: fresh_def msg_typed_def)

lemma append_chunks_view:
  assumes "msg_wf m" and "db_used (m_buffer m) + length (concat chs) < 2 ^ 63"
  shows "\<exists>m'. append_chunks chs m = Inr m' \<and> msg_wf m' \<and> msg_view m' = msg_view m @ concat chs \<and>
    db_used (m_buffer m') = db_used (m_buffer m) + length (concat chs)"
  using assms
proof (induction chs arbitrary: m)
  case Nil
  then show ?case by simp
next
  case (Cons ch chs)
  then have "db_used (m_buffer m) + length ch < 2 ^ 63" by simp
  with Cons.prems(1) obtain m' where "msg_appendBytes m (Some ch) (vsize ch) = Inr m'" "msg_wf m'"
      "msg_view m' = msg_view m @ ch" "db_used (m_buffer m') = db_used (m_buffer m) + length ch"
    by (rule append_chunk)
  then show ?case
    using Cons.IH[of m'] Cons.prems by (simp add: add.assoc)
qed


section \<open>Reassembling messages\<close>

text \<open>One round that ends because the socket has nothing more to deliver.\<close>

lemma receive_frames:
  assumes "msg_wf (c_tmpMsg c)" and "db_used (m_buffer (c_tmpMsg c)) + length (concat chs) < 2 ^ 63"
    and "would_block err" and "msg_view (c_tmpMsg c) @ concat chs @ fut = stream_bytes fs"
    and "\<forall>f \<in> set fs. vbounded (snd f)"
  shows "\<exists>k t. k \<le> length fs \<and> cl_receiveMessage se (chs, RError err) c =
      Some (Inr (), c\<lparr>c_msgs := c_msgs c @ map (frame_message msg_typed) (take k fs), c_tmpMsg := t\<rparr>) \<and>
    msg_wf t \<and> msg_view t @ fut = stream_bytes (drop k fs) \<and>
    db_used (m_buffer t) = db_used (m_buffer (c_tmpMsg c)) + length (concat chs) \<and>
    (k < length fs \<longrightarrow> length (msg_view t) < length (frame_bytes (fs ! k)))"
proof -
  obtain m where m: "append_chunks chs (c_tmpMsg c) = Inr m" "msg_wf m"
      "msg_view m = msg_view (c_tmpMsg c) @ concat chs"
      "db_used (m_buffer m) = db_used (m_buffer (c_tmpMsg c)) + length (concat chs)"
    using append_chunks_view[OF assms(1,2)] by blast
  have "msg_view m @ fut = stream_bytes fs"
    using m(3) assms(4) by simp
  from drain_frames[OF m(2) fresh_typed this assms(5), of "c_msgs c"] obtain k t where
    k: "k \<le> length fs" "drain msg_typed m (c_msgs c) =
        Some (Inr (), c_msgs c @ map (frame_message msg_typed) (take k fs), t)" "msg_wf t"
      "msg_view t @ fut = stream_bytes (drop k fs)" "db_used (m_buffer t) = db_used (m_buffer m)"
      "k < length fs \<longrightarrow> length (msg_view t) < length (frame_bytes (fs ! k))"
    by blast
  show ?thesis
    using m k assms(3) by (intro exI[of _ k] exI[of _ t]) (simp add: cl_receiveMessage_def Let_def)
qed

lemma receive_all:
  assumes "msg_wf (c_tmpMsg c)" and "db_used (m_buffer (c_tmpMsg c)) + length (concat chs) < 2 ^ 63"
    and "would_block err" and "msg_view (c_tmpMsg c) @ concat chs = stream_bytes fs"
    and "\<forall>f \<in> set fs. vbounded (snd f)"
  shows "\<exists>t. cl_receiveMessage se (chs, RError err) c =
      Some (Inr (), c\<lparr>c_msgs := c_msgs c @ map (frame_message msg_typed) fs, c_tmpMsg := t\<rparr>) \<and>
    msg_wf t \<and> msg_view t = []"
proof -
  obtain m where m: "append_chunks chs (c_tmpMsg c) = Inr m" "msg_wf m"
      "msg_view m = stream_bytes fs"
    using append_chunks_view[OF assms(1,2)] assms(4) by auto
  then show ?thesis
    using drain_all[OF m(2) fresh_typed m(3) assms(5), of "c_msgs c"] assms(3)
    by (auto simp: cl_receiveMessage_def Let_def)
qed

text \<open>
  All rounds of one \<open>update\<close>. What is still under way, \<open>fut\<close>, completes the stream; the messages that have
  arrived whole are queued, and the front part of the next one is kept.
\<close>

definition kept :: "message \<Rightarrow> byte list \<Rightarrow> frame list \<Rightarrow> bool" where
  "kept t fut fs \<longleftrightarrow> msg_wf t \<and> msg_view t @ fut = stream_bytes fs \<and>
     (fs \<noteq> [] \<longrightarrow> length (msg_view t) < length (frame_bytes (hd fs)))"

lemma kept_end: "kept t [] fs \<Longrightarrow> fs = [] \<and> msg_view t = []"
  using stream_prefix_end[of "msg_view t" fs] by (auto simp: kept_def)

lemma poll_frames:
  assumes "kept (c_tmpMsg c) (concat (concat (map fst batches)) @ fut) fs" and "c_fd c > 0 \<and> fd_ok (c_fd c)"
    and "\<forall>b \<in> set batches. \<exists>err. snd b = RError err \<and> would_block err"
    and "db_used (m_buffer (c_tmpMsg c)) + length (concat (concat (map fst batches))) < 2 ^ 63"
    and "\<forall>f \<in> set fs. vbounded (snd f)"
  shows "\<exists>k t. k \<le> length fs \<and> kept t fut (drop k fs) \<and>
    cl_poll se batches c =
      Some (Inr (), c\<lparr>c_msgs := c_msgs c @ map (frame_message msg_typed) (take k fs), c_tmpMsg := t\<rparr>) \<and>
    db_used (m_buffer t) = db_used (m_buffer (c_tmpMsg c)) + length (concat (concat (map fst batches)))"
  using assms
proof (induction batches arbitrary: c fs)
  case Nil
  then show ?case
    by (intro exI[of _ 0] exI[of _ "c_tmpMsg c"]) simp
next
  case (Cons b bs)
  obtain chs err where b: "b = (chs, RError err)" "would_block err"
    using bspec[OF Cons.prems(3), of b] by (metis list.set_intros(1) prod.collapse)
  let ?fut = "concat (concat (map fst bs)) @ fut"
  have room: "db_used (m_buffer (c_tmpMsg c)) + length (concat chs) < 2 ^ 63"
    and pre: "msg_view (c_tmpMsg c) @ concat chs @ ?fut = stream_bytes fs" and wf: "msg_wf (c_tmpMsg c)"
    using Cons.prems(1,4) b by (simp_all add: kept_def)
  obtain j u where j: "j \<le> length fs" "cl_receiveMessage se b c =
        Some (Inr (), c\<lparr>c_msgs := c_msgs c @ map (frame_message msg_typed) (take j fs), c_tmpMsg := u\<rparr>)"
      "msg_wf u" "msg_view u @ ?fut = stream_bytes (drop j fs)"
      "db_used (m_buffer u) = db_used (m_buffer (c_tmpMsg c)) + length (concat chs)"
      "j < length fs \<longrightarrow> length (msg_view u) < length (frame_bytes (fs ! j))"
    using receive_frames[OF wf room b(2) pre Cons.prems(5), of se] b(1) by blast
  let ?c = "c\<lparr>c_msgs := c_msgs c @ map (frame_message msg_typed) (take j fs), c_tmpMsg := u\<rparr>"
  have "\<exists>k t. k \<le> length (drop j fs) \<and> kept t fut (drop k (drop j fs)) \<and> cl_poll se bs ?c =
      Some (Inr (), ?c\<lparr>c_msgs := c_msgs ?c @ map (frame_message msg_typed) (take k (drop j fs)), c_tmpMsg := t\<rparr>) \<and>
    db_used (m_buffer t) = db_used (m_buffer (c_tmpMsg ?c)) + length (concat (concat (map fst bs)))"
  proof (rule Cons.IH)
    show "\<forall>f \<in> set (drop j fs). vbounded (snd f)"
      using Cons.prems(5) by (auto dest: in_set_dropD)
    show "kept (c_tmpMsg ?c) ?fut (drop j fs)"
      using j(3,4,6) by (simp add: kept_def hd_drop_conv_nth)
  qed (use Cons.prems j b in simp_all)
  then obtain k t where k: "k \<le> length (drop j fs)" "kept t fut (drop k (drop j fs))" "cl_poll se bs ?c =
      Some (Inr (), ?c\<lparr>c_msgs := c_msgs ?c @ map (frame_message msg_typed) (take k (drop j fs)), c_tmpMsg := t\<rparr>)"
      "db_used (m_buffer t) = db_used (m_buffer (c_tmpMsg ?c)) + length (concat (concat (map fst bs)))"
    by blast
  then show ?case
    using Cons.prems(2) j(1,2,5) b(1)
    by (intro exI[of _ "j + k"] exI[of _ t]) (simp add: add.commute take_add)
qed

lemma poll_all:
  assumes "msg_wf (c_tmpMsg c)" and "c_fd c > 0 \<and> fd_ok (c_fd c)"
    and "\<forall>b \<in> set batches. \<exists>err. snd b = RError err \<and> would_block err"
    and "db_used (m_buffer (c_tmpMsg c)) + length (concat (concat (map fst batches))) < 2 ^ 63"
    and "msg_view (c_tmpMsg c) @ concat (concat (map fst batches)) = stream_bytes fs"
    and "\<forall>f \<in> set fs. vbounded (snd f)"
    and "fs \<noteq> [] \<longrightarrow> length (msg_view (c_tmpMsg c)) < length (frame_bytes (hd fs))"
  shows "\<exists>t. cl_poll se batches c =
      Some (Inr (), c\<lparr>c_msgs := c_msgs c @ map (frame_message msg_typed) fs, c_tmpMsg := t\<rparr>) \<and>
    msg_wf t \<and> msg_view t = []"
proof -
  have "kept (c_tmpMsg c) (concat (concat (map fst batches)) @ []) fs"
    using assms(1,5,7) by (simp add: kept_def)
  from poll_frames[OF this assms(2,3,4,6), of se] obtain k t where k: "kept t [] (drop k fs)"
      "cl_poll se batches c =
        Some (Inr (), c\<lparr>c_msgs := c_msgs c @ map (frame_message msg_typed) (take k fs), c_tmpMsg := t\<rparr>)"
    by blast
  have "take k fs = fs" and "msg_view t = []"
    using kept_end[OF k(1)] by simp_all
  with k show ?thesis
    by (intro exI[of _ t]) (simp add: kept_def)
qed

lemma append_close:
  assumes "msg_wf (c_tmpMsg c)" and "db_used (m_buffer (c_tmpMsg c)) + length (concat chs) < 2 ^ 63"
  shows "\<exists>t. cl_receiveMessage se (chs, RClosed) c = Some (Inr (), cl_disconnect (c\<lparr>c_tmpMsg := t\<rparr>)) \<and>
    msg_wf t \<and> msg_view t = msg_view (c_tmpMsg c) @ concat chs \<and>
    db_used (m_buffer t) = db_used (m_buffer (c_tmpMsg c)) + length (concat chs)"
  using append_chunks_view[OF assms] by (auto simp: cl_receiveMessage_def)

lemma disconnect_keeps [simp]:
  "c_msgs (cl_disconnect c) = c_msgs c" "c_tmpMsg (cl_disconnect c) = c_tmpMsg c"
  "c_triggers (cl_disconnect c) = c_triggers c" "c_fd (cl_disconnect c) = - 1"
  by (simp_all add: cl_disconnect_def Let_def)

lemma connect_keeps_bytes [simp]: "c_tmpMsg (snd (cl_connect os a p c)) = c_tmpMsg c"
  by (simp add: cl_connect_def cl_networkError_def Let_def)

section \<open>Properties\<close>

text \<open>
  C22. A header from the peer is enough to break the client, because the sum in \<open>isComplet\<close> wraps for a
  size field within 12 of \<open>2 ^ 64\<close> and the header counts as a complete message. Twelve bytes with the
  size \<open>2 ^ 64 - 12\<close> make \<open>_receiveMessage\<close> loop for ever, queueing empty messages: the cursor moves by
  the size, that is, back to the front of the header. With any byte behind it, every such header
  makes the client copy from outside its buffer.
\<close>

theorem client_hostile_header:
  assumes "msg_wf (c_tmpMsg c)" and "msg_view (c_tmpMsg c) = []"
    and "db_used (m_buffer (c_tmpMsg c)) + 12 + length rest < 2 ^ 63"
    and "rest \<noteq> []" and "2 ^ 64 - 12 \<le> unat n"
  shows "cl_receiveMessage se ([enc_int t @ enc_size (- 12)], RError EAGAIN) c = None \<and>
    (\<exists>c'. cl_receiveMessage se ([enc_int t @ enc_size n @ rest], RError EAGAIN) c = Some (ub, c'))"
proof
  have arrive: "\<exists>m. append_chunks [v] (c_tmpMsg c) = Inr m \<and> msg_wf m \<and> msg_view m = v"
    if "length v \<le> 12 + length rest" for v
    using append_chunks_view[OF assms(1), of "[v]"] assms(2,3) that by auto
  obtain l where l: "append_chunks [enc_int t @ enc_size (- 12)] (c_tmpMsg c) = Inr l" "msg_wf l"
      "msg_view l = enc_int t @ enc_size (- 12)"
    using arrive[of "enc_int t @ enc_size (- 12)"] by auto
  then show "cl_receiveMessage se ([enc_int t @ enc_size (- 12)], RError EAGAIN) c = None"
    using drain_loops[OF l(2) fresh_typed l(3)] by (simp add: cl_receiveMessage_def Let_def would_block_def)
  obtain m where m: "append_chunks [enc_int t @ enc_size n @ rest] (c_tmpMsg c) = Inr m" "msg_wf m"
      "msg_view m = enc_int t @ enc_size n @ rest"
    using arrive[of "enc_int t @ enc_size n @ rest"] by auto
  have hdr: "hdr_size (msg_view m) = n" and len: "length (msg_view m) = 12 + length rest"
    using m(3) by simp_all
  have "unat (12 + n) = 12 + unat n - 2 ^ 64"
    using assms(5) by (subst unat_add_size_wrap) simp_all
  then have cpl: "msg_isComplet m = (Inr True, m)"
    using isComplet_eq[OF m(2)] hdr len size_t_less[of n] by simp
  have "length rest < unat n"
    using assms(3,5) by simp
  then obtain m' where "extract_message msg_typed m = (ub, m')"
    using extract_eq[OF m(2) _ fresh_typed] hdr len assms(4) by (simp add: Let_def)
  then show "\<exists>c'. cl_receiveMessage se ([enc_int t @ enc_size n @ rest], RError EAGAIN) c = Some (ub, c')"
    using m(1) drain_fail[OF cpl] by (simp add: cl_receiveMessage_def Let_def would_block_def)
qed

theorem client_hostile_header_witness:
  "cl_receiveMessage (\<lambda>_. []) ([enc_int 7 @ enc_size (- 12)], RError EAGAIN) (cl_new :: nat client) = None \<and>
   (\<exists>c'. cl_receiveMessage (\<lambda>_. []) ([enc_int 7 @ enc_size (- 2) @ [0]], RError EAGAIN)
      (cl_new :: nat client) = Some (ub, c'))"
  by (rule client_hostile_header)
    (simp_all add: cl_new_def msg_default_def msg_wf_def msg_view_def db_new_def db_wf_def
      db_view_def vbounded_def db_used_def)

text \<open>
  Messages that arrive together with the end of the connection are not delivered by the round
  that receives them: the client disconnects before it looks for whole messages. Their bytes stay
  in the partial message across the next successful \<open>connect\<close>, and the first round of the new
  connection delivers them in front of the new peer's messages.
\<close>

theorem client_close_carries_over:
  assumes "msg_wf (c_tmpMsg c)" and "msg_view (c_tmpMsg c) = []"
    and "db_used (m_buffer (c_tmpMsg c)) + length (stream_bytes (fs @ gs)) < 2 ^ 63"
    and "0 < os_socket os \<and> fd_ok (os_socket os)" and "fst (cl_connect os a p (cl_disconnect c)) = Inr ()"
    and "\<forall>f \<in> set (fs @ gs). vbounded (snd f)"
  shows "\<exists>c1 c2. cl_receiveMessage se ([stream_bytes fs], RClosed) c = Some (Inr (), c1) \<and>
    c_msgs c1 = c_msgs c \<and> c_fd c1 = - 1 \<and>
    cl_poll se [([stream_bytes gs], RError EAGAIN)] (snd (cl_connect os a p c1)) = Some (Inr (), c2) \<and>
    c_msgs c2 = c_msgs c @ map (frame_message msg_typed) (fs @ gs)"
proof -
  have room: "db_used (m_buffer (c_tmpMsg c)) + length (concat [stream_bytes fs]) < 2 ^ 63"
    using assms(3) by simp
  obtain t where t: "cl_receiveMessage se ([stream_bytes fs], RClosed) c =
        Some (Inr (), cl_disconnect (c\<lparr>c_tmpMsg := t\<rparr>))"
      "msg_wf t" "msg_view t = stream_bytes fs"
      "db_used (m_buffer t) = db_used (m_buffer (c_tmpMsg c)) + length (stream_bytes fs)"
    using append_close[OF assms(1) room, of se] assms(2) by auto
  let ?c1 = "cl_disconnect (c\<lparr>c_tmpMsg := t\<rparr>)"
  let ?c2 = "snd (cl_connect os a p ?c1)"
  have c2: "c_msgs ?c2 = c_msgs c" "c_tmpMsg ?c2 = t" "c_fd ?c2 > 0 \<and> fd_ok (c_fd ?c2)"
    using assms(4,5) by (auto simp: cl_connect_def cl_networkError_def Let_def split: if_splits)
  have blk: "would_block EAGAIN"
    by (simp add: would_block_def)
  have room2: "db_used (m_buffer (c_tmpMsg ?c2)) + length (concat [stream_bytes gs]) < 2 ^ 63"
    and view2: "msg_view (c_tmpMsg ?c2) @ concat [stream_bytes gs] = stream_bytes (fs @ gs)"
    and wf2: "msg_wf (c_tmpMsg ?c2)"
    using c2 t assms(3) by simp_all
  obtain t' where "cl_receiveMessage se ([stream_bytes gs], RError EAGAIN) ?c2 = Some (Inr (),
      ?c2\<lparr>c_msgs := c_msgs ?c2 @ map (frame_message msg_typed) (fs @ gs), c_tmpMsg := t'\<rparr>)"
    using receive_all[OF wf2 room2 blk view2 assms(6), of se] by blast
  then have "cl_poll se [([stream_bytes gs], RError EAGAIN)] ?c2 = Some (Inr (),
      ?c2\<lparr>c_msgs := c_msgs ?c2 @ map (frame_message msg_typed) (fs @ gs), c_tmpMsg := t'\<rparr>)"
    (is "_ = Some (Inr (), ?c3)")
    using c2(3) by simp
  moreover have "c_msgs ?c3 = c_msgs c @ map (frame_message msg_typed) (fs @ gs)"
    using c2(1) by simp
  ultimately show ?thesis
    using t(1) by (intro exI[of _ ?c1] exI[of _ ?c3]) simp
qed

theorem client_close_carries_over_witness:
  "\<exists>c1 c2. cl_receiveMessage (\<lambda>_. []) ([stream_bytes [(1, [65])]], RClosed) (cl_new :: nat client) =
      Some (Inr (), c1) \<and> c_msgs c1 = c_msgs (cl_new :: nat client) \<and> c_fd c1 = - 1 \<and>
    cl_poll (\<lambda>_. []) [([stream_bytes [(2, [])]], RError EAGAIN)]
      (snd (cl_connect \<lparr>os_socket = 5, os_inet_pton = (\<lambda>_. True), os_gethostbyname = (\<lambda>_. True),
        os_connect = (\<lambda>_ _ _. 0), os_errno = EAGAIN, os_strerror = (\<lambda>_. [])\<rparr> ''host'' 80 c1)) =
      Some (Inr (), c2) \<and>
    c_msgs c2 = c_msgs (cl_new :: nat client) @ map (frame_message msg_typed) ([(1, [65])] @ [(2, [])])"
  by (rule client_close_carries_over)
    (simp_all add: cl_connect_def cl_disconnect_def cl_new_def msg_default_def msg_wf_def
      msg_view_def db_new_def db_wf_def db_view_def vbounded_def db_used_def fd_ok_def FD_SETSIZE_def)

text \<open>The calls \<open>update\<close> owes a queue of messages: every action of every message, in order.\<close>

definition calls_for :: "(cint \<Rightarrow> 'cb list option) \<Rightarrow> message list \<Rightarrow> ('cb \<times> message) list" where
  "calls_for trig ms =
     concat (map (\<lambda>m. map (\<lambda>f. (f, m)) (case trig (m_type m) of None \<Rightarrow> [] | Some fs \<Rightarrow> fs)) ms)"

text \<open>
  Actions that do not throw and do not read from the message: the state they leave is computed
  by \<open>eff\<close>.
\<close>

definition pure_run ::
  "('cb \<Rightarrow> message \<Rightarrow> 'w \<Rightarrow> 'w) \<Rightarrow> 'cb \<Rightarrow> message \<Rightarrow> 'w \<Rightarrow> unit res \<times> message \<times> 'w" where
  "pure_run eff f m w = (Inr (), m, eff f m w)"

lemma run_actions_pure:
  "run_actions (pure_run eff) fs m w = (Inr (), m, fold (\<lambda>f. eff f m) fs w)"
  by (induction fs arbitrary: w) (auto simp: pure_run_def)

lemma cl_dispatch_pure:
  "cl_dispatch (pure_run eff) trig ms w = (Inr (), ms, fold (\<lambda>(f, m). eff f m) (calls_for trig ms) w)"
proof (induction ms arbitrary: w)
  case Nil
  show ?case by (simp add: calls_for_def)
next
  case (Cons m ms)
  then show ?case
    by (cases "trig (m_type m)")
      (simp_all add: calls_for_def run_actions_pure fold_map comp_def)
qed

text \<open>
  Dispatching runs every action registered for a message's type exactly once per message,
  message by message in arrival order and action by action in registration order; an action
  registered with \<open>defineAction\<close> comes after those already there.
\<close>

theorem client_dispatch_order:
  "cl_dispatch (pure_run eff) trig ms w = (Inr (), ms, fold (\<lambda>(f, m). eff f m) (calls_for trig ms) w) \<and>
   calls_for (c_triggers (cl_defineAction t f c)) [m] =
     calls_for (c_triggers c) [m] @ (if m_type m = t then [(f, m)] else [])"
  by (auto simp: cl_dispatch_pure calls_for_def cl_defineAction_def split: option.splits)

text \<open>
  The client reassembles the stream: however the bytes of a sequence of messages are cut into
  chunks and the chunks into readiness rounds, \<open>update\<close> runs the actions on exactly these
  messages, in order, and keeps no bytes back.
\<close>

theorem client_update_reassembles:
  assumes "msg_wf (c_tmpMsg c)" and "msg_view (c_tmpMsg c) = []" and "c_msgs c = []"
    and "cl_isConnected gs c \<and> fd_ok (c_fd c)"
    and "\<forall>b \<in> set batches. \<exists>err. snd b = RError err \<and> would_block err"
    and "concat (concat (map fst batches)) = stream_bytes fs"
    and "db_used (m_buffer (c_tmpMsg c)) + length (stream_bytes fs) < 2 ^ 63"
  shows "\<exists>t. msg_wf t \<and> msg_view t = [] \<and> cl_update run gs se batches c w =
    (case cl_dispatch run (c_triggers c) (map (frame_message msg_typed) fs) w of
       (Inl e, ms, w') \<Rightarrow> Some (Inl e, c\<lparr>c_msgs := ms, c_tmpMsg := t\<rparr>, w')
     | (Inr u, ms, w') \<Rightarrow> Some (Inr (), c\<lparr>c_msgs := [], c_tmpMsg := t\<rparr>, w'))"
proof -
  have small: "\<forall>f \<in> set fs. vbounded (snd f)"
    using assms(7) frame_in_stream[of _ fs] by (fastforce simp: vbounded_def)
  have fd: "c_fd c > 0 \<and> fd_ok (c_fd c)"
    using assms(4) by (simp add: cl_isConnected_def)
  obtain t where "cl_poll se batches c =
      Some (Inr (), c\<lparr>c_msgs := map (frame_message msg_typed) fs, c_tmpMsg := t\<rparr>)"
      "msg_wf t" "msg_view t = []"
    using poll_all[OF assms(1) fd assms(5) _ _ small, of se] assms(2,3,6,7) by auto
  then show ?thesis
    using assms(4) by (intro exI[of _ t]) (auto simp: cl_update_def split: prod.splits sum.splits)
qed

theorem client_update_reassembles_witness:
  "\<exists>t. msg_wf t \<and> msg_view t = [] \<and>
    cl_update (\<lambda>f m w. (Inr (), m, w @ [(f, m)])) (\<lambda>_. True) (\<lambda>_. [])
      [([take 5 (stream_bytes [(1, [65]), (2, [])])], RError EAGAIN),
       ([drop 5 (stream_bytes [(1, [65]), (2, [])])], RError EAGAIN)]
      ((cl_defineAction 1 ''a'' cl_new)\<lparr>c_fd := 4\<rparr>) [] =
    Some (Inr (), (cl_defineAction 1 ''a'' cl_new)\<lparr>c_fd := 4, c_msgs := [], c_tmpMsg := t\<rparr>,
      [(''a'', frame_message msg_typed (1, [65]))])"
proof -
  let ?c = "(cl_defineAction 1 ''a'' cl_new)\<lparr>c_fd := 4\<rparr>"
  let ?fs = "[(1, [65]), (2, [])] :: frame list"
  have "\<exists>t. msg_wf t \<and> msg_view t = [] \<and>
      cl_update (\<lambda>f m w. (Inr (), m, w @ [(f, m)])) (\<lambda>_. True) (\<lambda>_. [])
        [([take 5 (stream_bytes ?fs)], RError EAGAIN), ([drop 5 (stream_bytes ?fs)], RError EAGAIN)]
        ?c [] =
      (case cl_dispatch (\<lambda>f m w. (Inr (), m, w @ [(f, m)])) (c_triggers ?c)
            (map (frame_message msg_typed) ?fs) [] of
         (Inl e, ms, w') \<Rightarrow> Some (Inl e, ?c\<lparr>c_msgs := ms, c_tmpMsg := t\<rparr>, w')
       | (Inr u, ms, w') \<Rightarrow> Some (Inr (), ?c\<lparr>c_msgs := [], c_tmpMsg := t\<rparr>, w'))"
    by (rule client_update_reassembles)
      (simp_all add: cl_defineAction_def cl_new_def msg_default_def msg_wf_def msg_view_def db_new_def
        db_wf_def db_view_def vbounded_def cl_isConnected_def would_block_def db_used_def fd_ok_def FD_SETSIZE_def)
  then show ?thesis
    by (simp add: cl_defineAction_def cl_new_def frame_message_def msg_typed_def)
qed

text \<open>A connected client with one action.\<close>

lemma example_client:
  fixes t :: cint and a :: 'cb
  defines "c \<equiv> (cl_defineAction t a cl_new)\<lparr>c_fd := 4\<rparr>"
  shows "msg_wf (c_tmpMsg c)" "msg_view (c_tmpMsg c) = []" "c_msgs c = []"
    "cl_isConnected (\<lambda>_. True) c \<and> fd_ok (c_fd c)" "db_used (m_buffer (c_tmpMsg c)) = 0" "c_triggers c = [t \<mapsto> [a]]"
  unfolding c_def
  by (simp_all add: cl_defineAction_def cl_new_def msg_default_def msg_wf_def msg_view_def db_new_def
      db_wf_def db_view_def vbounded_def cl_isConnected_def db_used_def fd_ok_def FD_SETSIZE_def)

text \<open>Bytes that arrive in two calls of \<open>update\<close>.\<close>

abbreviation cut_in_two :: "nat \<Rightarrow> byte list \<Rightarrow> recv_batch list list" where
  "cut_in_two k v \<equiv> [[([take k v], RError EAGAIN)], [([drop k v], RError EAGAIN)]]"

lemma cut_in_two:
  "concat (concat (map fst (concat (cut_in_two k v)))) = v"
  "\<forall>b \<in> set (concat (cut_in_two k v)). \<exists>err. snd b = RError err \<and> would_block err"
  by (simp_all add: would_block_def)

text \<open>A program that calls \<open>update\<close> again and again.\<close>

fun cl_updates ::
  "('cb \<Rightarrow> message \<Rightarrow> 'w \<Rightarrow> unit res \<times> message \<times> 'w) \<Rightarrow> (int \<Rightarrow> bool) \<Rightarrow> (errno \<Rightarrow> string)
     \<Rightarrow> recv_batch list list \<Rightarrow> 'cb client \<Rightarrow> 'w \<Rightarrow> (unit res \<times> 'cb client \<times> 'w) option" where
  "cl_updates run gs se [] c w = Some (Inr (), c, w)"
| "cl_updates run gs se (bs # bss) c w =
     (case cl_update run gs se bs c w of
        Some (Inr u, c', w') \<Rightarrow> cl_updates run gs se bss c' w'
      | r \<Rightarrow> r)"

abbreviation received :: "recv_batch list \<Rightarrow> byte list" where
  "received batches \<equiv> concat (concat (map fst batches))"

lemma updates_frames:
  assumes "kept (c_tmpMsg c) (received (concat bss) @ fut) fs" and "c_msgs c = []"
    and "cl_isConnected gs c \<and> fd_ok (c_fd c)"
    and "\<forall>b \<in> set (concat bss). \<exists>err. snd b = RError err \<and> would_block err"
    and "db_used (m_buffer (c_tmpMsg c)) + length (received (concat bss)) < 2 ^ 63"
    and "\<forall>f \<in> set fs. vbounded (snd f)"
  shows "\<exists>k t. k \<le> length fs \<and> kept t fut (drop k fs) \<and>
    db_used (m_buffer t) = db_used (m_buffer (c_tmpMsg c)) + length (received (concat bss)) \<and>
    cl_updates (pure_run eff) gs se bss c w = Some (Inr (), c\<lparr>c_msgs := [], c_tmpMsg := t\<rparr>,
      fold (\<lambda>(f, m). eff f m) (calls_for (c_triggers c) (map (frame_message msg_typed) (take k fs))) w)"
  using assms
proof (induction bss arbitrary: c fs w)
  case Nil
  then show ?case
    by (intro exI[of _ 0] exI[of _ "c_tmpMsg c"]) (simp add: calls_for_def)
next
  case (Cons bs bss)
  have fd: "c_fd c > 0 \<and> fd_ok (c_fd c)"
    using Cons.prems(3) by (simp add: cl_isConnected_def)
  have "kept (c_tmpMsg c) (received bs @ received (concat bss) @ fut) fs"
    using Cons.prems(1) by simp
  from poll_frames[OF this fd _ _ Cons.prems(6), of se] Cons.prems(2,4,5) obtain j u where
    j: "j \<le> length fs" "kept u (received (concat bss) @ fut) (drop j fs)"
      "cl_poll se bs c = Some (Inr (), c\<lparr>c_msgs := map (frame_message msg_typed) (take j fs), c_tmpMsg := u\<rparr>)"
      "db_used (m_buffer u) = db_used (m_buffer (c_tmpMsg c)) + length (received bs)"
    by auto
  let ?c = "c\<lparr>c_msgs := [], c_tmpMsg := u\<rparr>"
  let ?w = "fold (\<lambda>(f, m). eff f m) (calls_for (c_triggers c) (map (frame_message msg_typed) (take j fs))) w"
  have "cl_update (pure_run eff) gs se bs c w = Some (Inr (), ?c, ?w)"
    using Cons.prems(3) j(3) by (simp add: cl_update_def cl_dispatch_pure)
  moreover have "\<exists>k t. k \<le> length (drop j fs) \<and> kept t fut (drop k (drop j fs)) \<and>
    db_used (m_buffer t) = db_used (m_buffer (c_tmpMsg ?c)) + length (received (concat bss)) \<and>
    cl_updates (pure_run eff) gs se bss ?c ?w = Some (Inr (), ?c\<lparr>c_msgs := [], c_tmpMsg := t\<rparr>,
      fold (\<lambda>(f, m). eff f m) (calls_for (c_triggers ?c) (map (frame_message msg_typed) (take k (drop j fs)))) ?w)"
    by (rule Cons.IH) (use Cons.prems j(2,4) in \<open>auto simp: cl_isConnected_def dest: in_set_dropD\<close>)
  then obtain k t where k: "k \<le> length (drop j fs)" "kept t fut (drop k (drop j fs))"
      "db_used (m_buffer t) = db_used (m_buffer (c_tmpMsg ?c)) + length (received (concat bss))"
      "cl_updates (pure_run eff) gs se bss ?c ?w = Some (Inr (), ?c\<lparr>c_msgs := [], c_tmpMsg := t\<rparr>,
        fold (\<lambda>(f, m). eff f m) (calls_for (c_triggers ?c) (map (frame_message msg_typed) (take k (drop j fs)))) ?w)"
    by blast
  ultimately show ?case
    using j(1,4) by (intro exI[of _ "j + k"] exI[of _ t]) (simp add: calls_for_def add.commute take_add)
qed

lemma updates_stream:
  assumes "msg_wf (c_tmpMsg c)" and "msg_view (c_tmpMsg c) = []" and "c_msgs c = []"
    and "cl_isConnected gs c \<and> fd_ok (c_fd c)"
    and "\<forall>b \<in> set (concat bss). \<exists>err. snd b = RError err \<and> would_block err"
    and "db_used (m_buffer (c_tmpMsg c)) + length (received (concat bss)) < 2 ^ 63"
    and "\<forall>f \<in> set fs. vbounded (snd f)" and "received (concat bss) = stream_bytes fs"
  shows "\<exists>v. msg_view v = [] \<and> cl_updates (pure_run eff) gs se bss c w = Some (Inr (), c\<lparr>c_msgs := [], c_tmpMsg := v\<rparr>,
    fold (\<lambda>(f, m). eff f m) (calls_for (c_triggers c) (map (frame_message msg_typed) fs)) w)"
proof -
  have "kept (c_tmpMsg c) (received (concat bss) @ []) fs"
    using assms(1,2,8) by (simp add: kept_def)
  from updates_frames[OF this assms(3-7), of eff se w] obtain k v where k: "kept v [] (drop k fs)"
      "cl_updates (pure_run eff) gs se bss c w = Some (Inr (), c\<lparr>c_msgs := [], c_tmpMsg := v\<rparr>,
        fold (\<lambda>(f, m). eff f m) (calls_for (c_triggers c) (map (frame_message msg_typed) (take k fs))) w)"
    by blast
  have "take k fs = fs" and "msg_view v = []"
    using kept_end[OF k(1)] by simp_all
  with k(2) show ?thesis
    by (intro exI[of _ v]) simp
qed

text \<open>
  The client reassembles the stream. However the bytes of a sequence of messages are cut into chunks, the chunks
  into readiness rounds and the rounds into calls of \<open>update\<close>, these calls together run the actions of exactly the
  messages that have arrived whole, each once and in order; the front part of the next message is kept for the
  calls to come, and nothing is kept when the stream is complete. The buffer holds all bytes received so far:
  those of delivered messages are never removed.
\<close>

theorem client_reassembles:
  assumes "msg_wf (c_tmpMsg c)" and "msg_view (c_tmpMsg c) = []" and "c_msgs c = []"
    and "cl_isConnected gs c \<and> fd_ok (c_fd c)"
    and "\<forall>b \<in> set (concat bss). \<exists>err. snd b = RError err \<and> would_block err"
    and "concat (concat (map fst (concat bss))) @ fut = stream_bytes fs" and "\<forall>f \<in> set fs. vbounded (snd f)"
    and "db_used (m_buffer (c_tmpMsg c)) + length (concat (concat (map fst (concat bss)))) < 2 ^ 63"
  shows "\<exists>k t. k \<le> length fs \<and> (fut = [] \<longrightarrow> k = length fs \<and> msg_view t = []) \<and>
    msg_view t @ fut = stream_bytes (drop k fs) \<and>
    (k < length fs \<longrightarrow> length (msg_view t) < length (frame_bytes (fs ! k))) \<and>
    db_used (m_buffer t) = db_used (m_buffer (c_tmpMsg c)) + length (concat (concat (map fst (concat bss)))) \<and>
    cl_updates (pure_run eff) gs se bss c w = Some (Inr (), c\<lparr>c_msgs := [], c_tmpMsg := t\<rparr>,
      fold (\<lambda>(f, m). eff f m) (calls_for (c_triggers c) (map (frame_message msg_typed) (take k fs))) w)"
proof -
  have "kept (c_tmpMsg c) (received (concat bss) @ fut) fs"
    using assms(1,2,6) by (simp add: kept_def)
  from updates_frames[OF this assms(3,4,5,8,7), of eff se w] obtain k t where k: "k \<le> length fs" "kept t fut (drop k fs)"
      "db_used (m_buffer t) = db_used (m_buffer (c_tmpMsg c)) + length (received (concat bss))"
      "cl_updates (pure_run eff) gs se bss c w = Some (Inr (), c\<lparr>c_msgs := [], c_tmpMsg := t\<rparr>,
        fold (\<lambda>(f, m). eff f m) (calls_for (c_triggers c) (map (frame_message msg_typed) (take k fs))) w)"
    by blast
  have *: "msg_view t @ fut = stream_bytes (drop k fs)"
    using k(2) unfolding kept_def by (elim conjE)
  have **: "k < length fs \<longrightarrow> length (msg_view t) < length (frame_bytes (fs ! k))"
    using k(2) by (simp add: kept_def hd_drop_conv_nth del: length_frame_bytes)
  have ***: "k = length fs \<and> msg_view t = []" if "fut = []"
  proof -
    have "drop k fs = [] \<and> msg_view t = []"
      by (rule kept_end) (rule k(2)[unfolded that])
    then show ?thesis
      using k(1) by auto
  qed
  show ?thesis
    by (intro exI conjI) (rule k(1) * ** *** k(3,4) impI | assumption)+
qed

theorem client_reassembles_witness:
  "\<exists>t. cl_updates (pure_run (\<lambda>f m w. w @ [(f, m)])) (\<lambda>_. True) (\<lambda>_. [])
      [[([take 5 (stream_bytes [(1, [65]), (2, [])])], RError EAGAIN)],
       [([drop 5 (stream_bytes [(1, [65]), (2, [])])], RError EAGAIN)]]
      ((cl_defineAction 1 ''a'' cl_new)\<lparr>c_fd := 4\<rparr>) [] =
    Some (Inr (), (cl_defineAction 1 ''a'' cl_new)\<lparr>c_fd := 4, c_msgs := [], c_tmpMsg := t\<rparr>,
      [(''a'', frame_message msg_typed (1, [65]))])"
proof -
  let ?c = "(cl_defineAction 1 ''a'' cl_new)\<lparr>c_fd := 4\<rparr>"
  let ?fs = "[(1, [65]), (2, [])] :: frame list"
  let ?bss = "[[([take 5 (stream_bytes ?fs)], RError EAGAIN)], [([drop 5 (stream_bytes ?fs)], RError EAGAIN)]]"
  note c = example_client(1-5)[of 1 "''a''"]
  have b: "\<forall>b \<in> set (concat ?bss). \<exists>err. snd b = RError err \<and> would_block err"
    "concat (concat (map fst (concat ?bss))) @ [] = stream_bytes ?fs" "\<forall>f \<in> set ?fs. vbounded (snd f)"
    by (simp_all add: would_block_def vbounded_def)
  have "length (concat (concat (map fst (concat ?bss)))) \<le> length (stream_bytes ?fs)"
    by simp
  then have r: "db_used (m_buffer (c_tmpMsg ?c)) + length (concat (concat (map fst (concat ?bss)))) < 2 ^ 63"
    unfolding c(5) by simp
  obtain k t where "k = length ?fs"
      "cl_updates (pure_run (\<lambda>f m w. w @ [(f, m)])) (\<lambda>_. True) (\<lambda>_. []) ?bss ?c [] =
        Some (Inr (), ?c\<lparr>c_msgs := [], c_tmpMsg := t\<rparr>,
          fold (\<lambda>(f, m). (\<lambda>f m w. w @ [(f, m)]) f m) (calls_for (c_triggers ?c) (map (frame_message msg_typed) (take k ?fs))) [])"
    using client_reassembles[OF c(1-4) b r, of "\<lambda>f m w. w @ [(f, m)]" "\<lambda>_. []" "[]"] by blast
  then show ?thesis
    by (intro exI[of _ t]) (simp add: calls_for_def cl_defineAction_def cl_new_def frame_message_def msg_typed_def)
qed

text \<open>An action that extracts \<open>n\<close> bytes from the message and records them.\<close>

definition read_run :: "nat \<Rightarrow> message \<Rightarrow> byte list list \<Rightarrow> unit res \<times> message \<times> byte list list" where
  "read_run n m w =
     (case msg_get n m of (Inl e, m') \<Rightarrow> (Inl e, m', w) | (Inr bs, m') \<Rightarrow> (Inr (), m', w @ [bs]))"

text \<open>
  Two actions registered for one message type share the read cursor of the message: when the
  first extracts \<open>n\<close> bytes and fewer than \<open>n\<close> remain, the second throws although the message held
  everything it wanted to read, and \<open>update\<close> then leaves the message in the queue.
\<close>

theorem client_actions_share_cursor:
  assumes "msg_wf m" and "n \<le> length (msg_view m)" and "length (msg_view m) < 2 * n" and "n < 2 ^ 63"
  shows "\<exists>m'. cl_dispatch read_run (\<lambda>_. Some [n, n]) [m] [] =
    (throw (Out_of_range ''Buffer overflow on read''), [m'], [take n (msg_view m)])"
proof -
  have wf: "db_wf (m_buffer m)" and len: "n \<le> length (db_view (m_buffer m))"
    using assms by (simp_all add: msg_wf_def msg_view_def)
  let ?b = "(m_buffer m)\<lparr>db_cursor := db_cursor (m_buffer m) + word_of_nat n\<rparr>"
  have "db_get n ?b = (throw (Out_of_range ''Buffer overflow on read''), ?b)"
    using advance_view[OF wf len] assms(2-4) by (intro db_get_short) (simp_all add: msg_view_def)
  then show ?thesis
    using db_get_ok[OF wf len] by (simp add: read_run_def msg_get_def msg_view_def)
qed

theorem client_actions_share_cursor_witness:
  "\<exists>m'. cl_dispatch read_run (\<lambda>_. Some [4, 4]) [frame_message msg_typed (1, [9, 0, 0, 0])] [] =
    (throw (Out_of_range ''Buffer overflow on read''), [m'], [[9, 0, 0, 0]])"
  using client_actions_share_cursor[of "frame_message msg_typed (1, [9, 0, 0, 0])" 4]
  by (simp add: frame_message_def msg_typed_def msg_wf_def msg_view_def db_wf_def db_view_def
      vbounded_def)

end
