(* ===== verification/Server.thy ===== *)
theory Server
  imports Framing Posix
begin

text \<open>
  \<^verbatim>\<open>src/src/network/server\<close>: the TCP server. Its state is the listening socket, the descriptor sets
  of \<^verbatim>\<open>select\<close>, the two maps between descriptors and client identifiers, the actions, the received
  messages and one partial message per descriptor. Results of system calls are arguments; where
  the code iterates over an unordered map, the iteration order is an argument. An action is a name
  of type \<open>'cb\<close>; \<open>run\<close> executes it on a client identifier, the index of the message in the queue and
  the server with the rest of the world, because actions send through the server.
\<close>

section \<open>State\<close>

record 'cb server =
  sv_socket :: int
  sv_max_fd :: int
  sv_next_id :: int
  sv_running :: bool
  sv_address :: string
  sv_port :: size_t
  sv_active :: fd_set
  sv_readyRead :: fd_set
  sv_clients :: "int \<Rightarrow> int option"
  sv_clientsToFd :: "int \<Rightarrow> int option"
  sv_tasks :: "cint \<Rightarrow> 'cb option"
  sv_msgs :: "message list"
  sv_partialMsgs :: "int \<Rightarrow> message option"
  sv_closed :: "int list" \<comment> \<open>descriptors passed to \<^verbatim>\<open>close\<close>, latest first\<close>

definition NB_CONNECTION :: nat where
  "NB_CONNECTION = 1000"

definition READ_BUFFER_SIZE :: nat where
  "READ_BUFFER_SIZE = 4096"

definition INT_MAX :: int where
  "INT_MAX = 2 ^ 31 - 1"

record server_os =
  so_socket :: int
  so_inet_pton :: "string \<Rightarrow> bool"
  so_bind :: "int \<Rightarrow> string \<Rightarrow> 16 word \<Rightarrow> int"
  so_listen :: "int \<Rightarrow> int"
  so_errno_text :: string

text \<open>
  The constructor leaves the descriptor sets uninitialised. They are empty here: until \<open>start\<close> sets them
  there are no clients and no descriptor to scan, so nothing reads them.
\<close>

definition sv_new :: "string \<Rightarrow> size_t \<Rightarrow> 'cb server" where
  "sv_new address port = \<lparr>sv_socket = - 1, sv_max_fd = - 1, sv_next_id = 0, sv_running = True,
     sv_address = address, sv_port = port, sv_active = {}, sv_readyRead = {},
     sv_clients = (\<lambda>_. None), sv_clientsToFd = (\<lambda>_. None), sv_tasks = (\<lambda>_. None), sv_msgs = [],
     sv_partialMsgs = (\<lambda>_. None), sv_closed = []\<rparr>"

section \<open>Clients\<close>

text \<open>
  \<open>_clearClient(int& fd)\<close>. The flag says whether the reference designates the entry of
  \<open>_clientsToFd\<close> that the function erases; the reference is read once more after that.
\<close>

definition sv_clearClient :: "bool \<Rightarrow> int \<Rightarrow> 'cb server \<Rightarrow> 'cb server res" where
  "sv_clearClient alias fd s =
     (case sv_clients s fd of
        None \<Rightarrow> Inr s
      | Some clientId \<Rightarrow>
          (case (if fd > 2 then FD_CLR fd (sv_active s) else Inr (sv_active s)) of
             Inl e \<Rightarrow> Inl e
           | Inr active \<Rightarrow>
               (let s1 = s\<lparr>sv_active := active,
                           sv_closed := (if fd > 2 then fd # sv_closed s else sv_closed s),
                           sv_clients := (sv_clients s)(fd := None),
                           sv_clientsToFd := (sv_clientsToFd s)(clientId := None)\<rparr>
                in if alias then ub
                   else Inr (s1\<lparr>sv_partialMsgs := (sv_partialMsgs s1)(fd := None)\<rparr>))))"

definition sv_clearAll :: "'cb server \<Rightarrow> 'cb server" where
  "sv_clearAll s = s\<lparr>sv_clients := (\<lambda>_. None), sv_clientsToFd := (\<lambda>_. None),
     sv_partialMsgs := (\<lambda>_. None), sv_msgs := [], sv_active := {}\<rparr>"

text \<open>The loop of \<open>stop\<close> over the descriptors of \<open>_clients\<close>, in iteration order.\<close>

fun sv_close_clients :: "int list \<Rightarrow> 'cb server \<Rightarrow> 'cb server res" where
  "sv_close_clients [] s = Inr s"
| "sv_close_clients (fd # fds) s =
     (if fd \<le> 2 then sv_close_clients fds s
      else case FD_CLR fd (sv_active s) of
        Inl e \<Rightarrow> Inl e
      | Inr active \<Rightarrow>
          sv_close_clients fds (s\<lparr>sv_closed := fd # sv_closed s, sv_active := active\<rparr>))"

definition sv_stop :: "int list \<Rightarrow> 'cb server \<Rightarrow> 'cb server res" where
  "sv_stop order s =
     (let s1 = s\<lparr>sv_running := False\<rparr>;
          s2 = (if sv_socket s1 \<ge> 0
                then s1\<lparr>sv_closed := sv_socket s1 # sv_closed s1, sv_socket := - 1\<rparr> else s1)
      in case sv_close_clients order s2 of Inl e \<Rightarrow> Inl e | Inr s3 \<Rightarrow> Inr (sv_clearAll s3))"

definition sv_destructor :: "int list \<Rightarrow> 'cb server \<Rightarrow> 'cb server res" where
  "sv_destructor order s = sv_stop order s"

definition sv_fail :: "int list \<Rightarrow> 'cb server \<Rightarrow> string \<Rightarrow> unit res \<times> 'cb server" where
  "sv_fail order s msg =
     (case sv_stop order s of Inl e \<Rightarrow> (Inl e, s) | Inr s' \<Rightarrow> (throw (Runtime_error msg), s'))"

definition sv_start ::
  "server_os \<Rightarrow> int list \<Rightarrow> size_t \<Rightarrow> 'cb server \<Rightarrow> unit res \<times> 'cb server" where
  "sv_start os order port s =
     (let s1 = s\<lparr>sv_socket := so_socket os\<rparr>
      in if sv_socket s1 < 0 then (throw (Runtime_error ''Cannot create socket''), s1)
         else if sv_address s1 \<noteq> [] \<and> \<not> so_inet_pton os (sv_address s1)
         then sv_fail order s1 (''Invalid address: '' @ sv_address s1)
         else if so_bind os (sv_socket s1) (sv_address s1)
                   (port16 (if port \<noteq> 0 then port else sv_port s1)) < 0
         then sv_fail order s1 (''Failed to bind on socket. errno: '' @ so_errno_text os)
         else case FD_SET (sv_socket s1) {} of
           Inl e \<Rightarrow> (Inl e, s1)
         | Inr active \<Rightarrow>
             (let s2 = s1\<lparr>sv_max_fd := sv_socket s1, sv_active := active\<rparr>
              in if so_listen os (sv_socket s2) < 0
                 then sv_fail order s2 (''Failed to listen on socket. errno: '' @ so_errno_text os)
                 else (Inr (), s2)))"

definition sv_acceptNewConnection :: "int \<Rightarrow> 'cb server \<Rightarrow> 'cb server res" where
  "sv_acceptNewConnection connfd s =
     (if connfd < 0 then Inr s
      else if card (dom (sv_clients s)) \<ge> NB_CONNECTION
      then Inr (s\<lparr>sv_closed := connfd # sv_closed s\<rparr>)
      else
        (let s1 = (if sv_max_fd s < connfd then s\<lparr>sv_max_fd := connfd\<rparr> else s)
         in case FD_SET connfd (sv_active s1) of
              Inl e \<Rightarrow> Inl e
            | Inr active \<Rightarrow>
                (case FD_SET connfd (sv_readyRead s1) of
                   Inl e \<Rightarrow> Inl e
                 | Inr ready \<Rightarrow>
                     (if sv_next_id s1 = INT_MAX then ub
                      else Inr (s1\<lparr>sv_active := active, sv_readyRead := ready,
                        sv_clients := (sv_clients s1)(connfd \<mapsto> sv_next_id s1),
                        sv_clientsToFd := (sv_clientsToFd s1)(sv_next_id s1 \<mapsto> connfd),
                        sv_next_id := sv_next_id s1 + 1\<rparr>)))))"

section \<open>Receiving\<close>

text \<open>The constructor calls for a message received on \<open>fd\<close>.\<close>

definition sv_newMsg :: "int \<Rightarrow> cint \<Rightarrow> message" where
  "sv_newMsg fd msgType = msg_setMessageFd (msg_fd_typed fd msgType) fd"

text \<open>The receive loop: after every chunk the partial message of the descriptor is cleared.\<close>

fun sv_recv_loop ::
  "int \<Rightarrow> byte list list \<Rightarrow> 'cb server \<Rightarrow> (unit res \<times> 'cb server) option" where
  "sv_recv_loop fd [] s = Some (Inr (), s)"
| "sv_recv_loop fd (ch # chs) s =
     (let p = (case sv_partialMsgs s fd of None \<Rightarrow> msg_default | Some m \<Rightarrow> m)
      in case msg_appendBytes p (Some ch) (vsize ch) of
           Inl e \<Rightarrow> Some (Inl e, s)
         | Inr p1 \<Rightarrow>
             (case drain (sv_newMsg fd) p1 (sv_msgs s) of
                None \<Rightarrow> None
              | Some (Inl e, ms, p2) \<Rightarrow>
                  Some (Inl e, s\<lparr>sv_msgs := ms, sv_partialMsgs := (sv_partialMsgs s)(fd \<mapsto> p2)\<rparr>)
              | Some (Inr u, ms, p2) \<Rightarrow>
                  sv_recv_loop fd chs (s\<lparr>sv_msgs := ms,
                    sv_partialMsgs := (sv_partialMsgs s)(fd \<mapsto> p2\<lparr>m_buffer := db_clear (m_buffer p2)\<rparr>)\<rparr>)))"

definition sv_receiveClientMsg ::
  "int \<Rightarrow> recv_batch \<Rightarrow> 'cb server \<Rightarrow> (bool res \<times> 'cb server) option" where
  "sv_receiveClientMsg fd batch s =
     (case FD_ISSET fd (sv_readyRead s) of
        Inl e \<Rightarrow> Some (Inl e, s)
      | Inr ready \<Rightarrow>
          (if \<not> ready then Some (Inr False, s)
           else case sv_recv_loop fd (fst batch) s of
             None \<Rightarrow> None
           | Some (Inl e, s') \<Rightarrow> Some (Inl e, s')
           | Some (Inr u, s') \<Rightarrow>
               Some (Inr (case snd batch of RClosed \<Rightarrow> False | RError err \<Rightarrow> would_block err), s')))"

section \<open>Sending\<close>

text \<open>
  Sending gives the server and the system call that succeeded, if there was one: the descriptor
  and the bytes.
\<close>

definition sv_sendTo ::
  "(int \<Rightarrow> byte list \<Rightarrow> int) \<Rightarrow> message \<Rightarrow> int \<Rightarrow> 'cb server \<Rightarrow> ('cb server \<times> (int \<times> byte list) list) res"
where
  "sv_sendTo send msg clientID s =
     (case sv_clientsToFd s clientID of
        None \<Rightarrow> Inr (s, [])
      | Some fd \<Rightarrow>
          (case FD_ISSET fd (sv_active s) of
             Inl e \<Rightarrow> Inl e
           | Inr active \<Rightarrow>
               (if \<not> active then Inr (s, [])
                else case msg_getSerializedData msg of
                  Inl e \<Rightarrow> Inl e
                | Inr data \<Rightarrow>
                    (if data = [] then Inr (s, [])
                     else if send fd data = - 1
                     then (case sv_clearClient True fd s of Inl e \<Rightarrow> Inl e | Inr s' \<Rightarrow> Inr (s', []))
                     else Inr (s, [(fd, data)])))))"

fun sv_sendToArray ::
  "(int \<Rightarrow> byte list \<Rightarrow> int) \<Rightarrow> message \<Rightarrow> int list \<Rightarrow> 'cb server
     \<Rightarrow> ('cb server \<times> (int \<times> byte list) list) res" where
  "sv_sendToArray send msg [] s = Inr (s, [])"
| "sv_sendToArray send msg (i # is) s =
     (case sv_sendTo send msg i s of
        Inl e \<Rightarrow> Inl e
      | Inr (s', out) \<Rightarrow>
          (case sv_sendToArray send msg is s' of
             Inl e \<Rightarrow> Inl e
           | Inr (s'', out') \<Rightarrow> Inr (s'', out @ out')))"

text \<open>\<open>sendToAll\<close> walks \<open>_clients\<close> in its iteration order, a list of descriptors.\<close>

fun sv_sendToAll ::
  "(int \<Rightarrow> byte list \<Rightarrow> int) \<Rightarrow> message \<Rightarrow> int list \<Rightarrow> 'cb server
     \<Rightarrow> ('cb server \<times> (int \<times> byte list) list) res" where
  "sv_sendToAll send msg [] s = Inr (s, [])"
| "sv_sendToAll send msg (fd # fds) s =
     (case sv_clients s fd of
        None \<Rightarrow> ub
      | Some clientId \<Rightarrow>
          (case sv_sendTo send msg clientId s of
             Inl e \<Rightarrow> Inl e
           | Inr (s', out) \<Rightarrow>
               (case sv_sendToAll send msg fds s' of
                  Inl e \<Rightarrow> Inl e
                | Inr (s'', out') \<Rightarrow> Inr (s'', out @ out'))))"

definition sv_defineAction :: "cint \<Rightarrow> 'cb \<Rightarrow> 'cb server \<Rightarrow> 'cb server" where
  "sv_defineAction messageType action s = s\<lparr>sv_tasks := (sv_tasks s)(messageType \<mapsto> action)\<rparr>"

section \<open>The update loop\<close>

text \<open>
  One round of the loop: what \<^verbatim>\<open>select\<close> leaves in the read set, what \<^verbatim>\<open>accept\<close> returns and what
  each descriptor delivers.
\<close>

record sel_round =
  sr_ready :: fd_set
  sr_accept :: int
  sr_recv :: "int \<Rightarrow> recv_batch"

lemma FD_ISSET_Inr: "FD_ISSET fd s = Inr b \<Longrightarrow> fd_ok fd"
  by (simp add: FD_ISSET_def split: if_splits)

function sv_scan :: "sel_round \<Rightarrow> int \<Rightarrow> 'cb server \<Rightarrow> (unit res \<times> 'cb server) option" where
  "sv_scan r fd s =
     (if \<not> fd \<le> sv_max_fd s then Some (Inr (), s)
      else case FD_ISSET fd (sv_readyRead s) of
        Inl e \<Rightarrow> Some (Inl e, s)
      | Inr ready \<Rightarrow>
          (if \<not> ready then sv_scan r (fd + 1) s
           else if fd = sv_socket s
           then (case sv_acceptNewConnection (sr_accept r) s of
                   Inl e \<Rightarrow> Some (Inl e, s)
                 | Inr s' \<Rightarrow> sv_scan r (fd + 1) s')
           else case sv_receiveClientMsg fd (sr_recv r fd) s of
                  None \<Rightarrow> None
                | Some (Inl e, s') \<Rightarrow> Some (Inl e, s')
                | Some (Inr ok, s') \<Rightarrow>
                    (if ok then sv_scan r (fd + 1) s'
                     else case sv_clearClient False fd s' of
                            Inl e \<Rightarrow> Some (Inl e, s')
                          | Inr s'' \<Rightarrow>
                              sv_scan r (fd + 1) (s''\<lparr>sv_partialMsgs := (sv_partialMsgs s'')(fd := None)\<rparr>))))"
  by pat_completeness auto
termination
  by (relation "measure (\<lambda>(r, fd, s). nat (FD_SETSIZE - fd))")
    (auto dest!: FD_ISSET_Inr simp: fd_ok_def)

text \<open>
  The loop \<^verbatim>\<open>while (_running)\<close>: the rounds in which \<^verbatim>\<open>select\<close> reports a readable descriptor, then one
  in which it reports none, which leaves a set of descriptors and \<^verbatim>\<open>errno\<close>. The flag of the result
  says whether the actions are to be run.
\<close>

record sel_last =
  sl_ready :: fd_set
  sl_errno :: "errno option"

fun sv_poll ::
  "sel_round list \<Rightarrow> sel_last \<Rightarrow> 'cb server \<Rightarrow> (bool res \<times> 'cb server) option" where
  "sv_poll [] lst s =
     (if sl_errno lst = Some EBADF \<or> sl_errno lst = Some EINTR
      then Some (Inr False, s\<lparr>sv_readyRead := sl_ready lst\<rparr>)
      else Some (Inr True, s\<lparr>sv_readyRead := sl_ready lst, sv_running := False\<rparr>))"
| "sv_poll (r # rs) lst s =
     (case sv_scan r 0 (s\<lparr>sv_readyRead := sr_ready r\<rparr>) of
        None \<Rightarrow> None
      | Some (Inl e, s') \<Rightarrow> Some (Inl e, s')
      | Some (Inr u, s') \<Rightarrow> sv_poll rs lst s')"

text \<open>Running the actions over the queue, by index, as the queue is when each index is reached.\<close>

partial_function (option) sv_dispatch ::
  "('cb \<Rightarrow> int \<Rightarrow> nat \<Rightarrow> 'cb server \<times> 'w \<Rightarrow> unit res \<times> 'cb server \<times> 'w) \<Rightarrow> nat \<Rightarrow> 'cb server \<times> 'w
     \<Rightarrow> (unit res \<times> 'cb server \<times> 'w) option" where
  "sv_dispatch run i sw =
     (if \<not> i < length (sv_msgs (fst sw)) then Some (Inr (), (fst sw)\<lparr>sv_msgs := []\<rparr>, snd sw)
      else case sv_tasks (fst sw) (m_type (sv_msgs (fst sw) ! i)) of
        None \<Rightarrow> sv_dispatch run (Suc i) sw
      | Some task \<Rightarrow>
          (case msg_getFd (sv_msgs (fst sw) ! i) of
             Inl e \<Rightarrow> Some (Inl e, sw)
           | Inr fd \<Rightarrow>
               (case sv_clients (fst sw) fd of
                  None \<Rightarrow> sv_dispatch run (Suc i) sw
                | Some clientId \<Rightarrow>
                    (case run task clientId i sw of
                       (Inl e, sw') \<Rightarrow> Some (Inl e, sw')
                     | (Inr u, sw') \<Rightarrow> sv_dispatch run (Suc i) sw'))))"

definition sv_update ::
  "('cb \<Rightarrow> int \<Rightarrow> nat \<Rightarrow> 'cb server \<times> 'w \<Rightarrow> unit res \<times> 'cb server \<times> 'w) \<Rightarrow> sel_round list
     \<Rightarrow> sel_last \<Rightarrow> 'cb server \<times> 'w \<Rightarrow> (unit res \<times> 'cb server \<times> 'w) option" where
  "sv_update run rounds lst sw =
     (case sv_poll rounds lst ((fst sw)\<lparr>sv_running := True\<rparr>) of
        None \<Rightarrow> None
      | Some (Inl e, s') \<Rightarrow> Some (Inl e, s', snd sw)
      | Some (Inr go, s') \<Rightarrow>
          (if go then sv_dispatch run 0 (s', snd sw) else Some (Inr (), s', snd sw)))"

section \<open>Invariant\<close>

text \<open>
  The two client maps are inverse to each other, identifiers are below the next one to be given
  out, no more clients than allowed are connected, their descriptors fit the descriptor sets and
  are watched, every queued message knows its descriptor, and every partial message is empty
  between two chunks.
\<close>

definition sv_watched :: "'cb server \<Rightarrow> int \<Rightarrow> bool" where
  "sv_watched s fd \<longleftrightarrow> fd_ok fd \<and> fd \<in> sv_active s \<and> fd \<le> sv_max_fd s"

definition sv_wf :: "'cb server \<Rightarrow> bool" where
  [wf_defs]: "sv_wf s \<longleftrightarrow>
     inverse_maps (sv_clients s) (sv_clientsToFd s) \<and>
     (\<forall>i \<in> ran (sv_clients s). 0 \<le> i \<and> i < sv_next_id s) \<and> 0 \<le> sv_next_id s \<and>
     finite (dom (sv_clients s)) \<and> card (dom (sv_clients s)) \<le> NB_CONNECTION \<and>
     (\<forall>fd \<in> dom (sv_clients s). sv_watched s fd) \<and>
     (\<forall>m \<in> set (sv_msgs s). m_fd m \<noteq> None) \<and>
     (\<forall>m \<in> ran (sv_partialMsgs s). msg_wf m \<and> db_used (m_buffer m) = 0)"

lemma sv_wfD:
  assumes "sv_wf s"
  shows "inverse_maps (sv_clients s) (sv_clientsToFd s)"
    and "sv_clients s fd = Some i \<Longrightarrow> 0 \<le> i \<and> i < sv_next_id s"
    and "sv_clients s fd = Some i \<Longrightarrow> sv_watched s fd"
    and "sv_partialMsgs s fd = Some m \<Longrightarrow> msg_wf m \<and> db_used (m_buffer m) = 0"
    and "m \<in> set (sv_msgs s) \<Longrightarrow> m_fd m \<noteq> None"
    and "finite (dom (sv_clients s))" and "card (dom (sv_clients s)) \<le> NB_CONNECTION"
    and "0 \<le> sv_next_id s"
  using assms unfolding sv_wf_def by (blast intro: ranI domI)+

lemma sv_wf_new: "sv_wf (sv_new address port)"
  by (simp add: sv_wf_def sv_new_def)

text \<open>Fields the invariant does not mention.\<close>

lemma sv_wf_frame [simp]:
  "sv_wf (s\<lparr>sv_readyRead := x\<rparr>) = sv_wf s" "sv_wf (s\<lparr>sv_running := b\<rparr>) = sv_wf s"
  "sv_wf (s\<lparr>sv_socket := k\<rparr>) = sv_wf s" "sv_wf (s\<lparr>sv_closed := cs\<rparr>) = sv_wf s"
  "sv_wf (s\<lparr>sv_tasks := ts\<rparr>) = sv_wf s"
  by (simp_all add: sv_wf_def sv_watched_def)

lemma clearAll_wf: "0 \<le> sv_next_id s \<Longrightarrow> sv_wf (sv_clearAll s)"
  by (simp add: sv_wf_def sv_clearAll_def)

lemma ran_upd_None: "x \<in> ran (m(a := None)) \<Longrightarrow> x \<in> ran m"
  by (auto simp: ran_def split: if_splits)

lemma clearClient_eq:
  assumes "sv_wf s" and "sv_clients s fd = Some i"
  shows "sv_clearClient alias fd s =
    (if alias then ub
     else Inr (s\<lparr>sv_active := (if fd > 2 then sv_active s - {fd} else sv_active s),
       sv_closed := (if fd > 2 then fd # sv_closed s else sv_closed s),
       sv_clients := (sv_clients s)(fd := None),
       sv_clientsToFd := (sv_clientsToFd s)(i := None),
       sv_partialMsgs := (sv_partialMsgs s)(fd := None)\<rparr>))"
  using assms sv_wfD(3)[OF assms]
  by (simp add: sv_clearClient_def FD_CLR_def sv_watched_def Let_def)

lemma clearClient_wf:
  assumes "sv_wf s" and "sv_clearClient alias fd s = Inr s'"
  shows "sv_wf s'"
proof (cases "sv_clients s fd")
  case None
  then show ?thesis using assms by (simp add: sv_clearClient_def)
next
  case (Some i)
  have card: "card (dom (sv_clients s) - {fd}) \<le> NB_CONNECTION"
    using sv_wfD(6,7)[OF assms(1)] by (meson card_Diff1_le le_trans)
  have maps: "inverse_maps ((sv_clients s)(fd := None)) ((sv_clientsToFd s)(i := None))"
    using sv_wfD(1)[OF assms(1)] Some by (rule inverse_maps_remove)
  show ?thesis
    using assms(2) card maps sv_wfD(5-8)[OF assms(1)] assms(1)
    by (auto simp: clearClient_eq[OF assms(1) Some] sv_wf_def sv_watched_def dest!: ran_upd_None
        split: if_splits)
qed

lemma clearClient_ok:
  assumes "sv_wf s"
  shows "\<exists>s'. sv_clearClient False fd s = Inr s' \<and> sv_clients s' = (sv_clients s)(fd := None)"
proof (cases "sv_clients s fd")
  case None
  then show ?thesis by (simp add: sv_clearClient_def fun_upd_idem)
next
  case (Some i)
  then show ?thesis by (simp add: clearClient_eq[OF assms])
qed

lemma accept_wf:
  assumes "sv_wf s" and "sv_clients s connfd = None" and "sv_acceptNewConnection connfd s = Inr s'"
  shows "sv_wf s'"
proof (cases "connfd < 0 \<or> card (dom (sv_clients s)) \<ge> NB_CONNECTION")
  case True
  then show ?thesis using assms by (auto simp: sv_acceptNewConnection_def split: if_splits)
next
  case False
  let ?i = "sv_next_id s"
  have s': "fd_ok connfd" "sv_clients s' = (sv_clients s)(connfd \<mapsto> ?i)"
      "sv_clientsToFd s' = (sv_clientsToFd s)(?i \<mapsto> connfd)" "sv_next_id s' = ?i + 1"
      "sv_active s' = insert connfd (sv_active s)" "sv_max_fd s' = max (sv_max_fd s) connfd"
      "sv_msgs s' = sv_msgs s" "sv_partialMsgs s' = sv_partialMsgs s"
    using assms(3) False
    by (auto simp: sv_acceptNewConnection_def FD_SET_def Let_def max_def split: if_splits)
  have new: "sv_clientsToFd s ?i = None"
  proof (rule ccontr)
    assume "sv_clientsToFd s ?i \<noteq> None"
    then obtain g where "sv_clients s g = Some ?i"
      using inverse_mapsD[OF sv_wfD(1)[OF assms(1)]] by blast
    then show False using sv_wfD(2)[OF assms(1)] by blast
  qed
  have maps: "inverse_maps (sv_clients s') (sv_clientsToFd s')"
    using sv_wfD(1)[OF assms(1)] assms(2) new unfolding s'(2,3) by (rule inverse_maps_add)
  have card: "card (dom (sv_clients s')) \<le> NB_CONNECTION"
    using s'(2) False assms(2) sv_wfD(6)[OF assms(1)] by (auto simp: card_insert_if)
  have ids: "0 \<le> j \<and> j < sv_next_id s'" if "j \<in> ran (sv_clients s')" for j
    using that s'(2,4) assms sv_wfD(2,8)[OF assms(1)] by (fastforce simp: ran_def split: if_splits)
  have fds: "sv_watched s' g" if "g \<in> dom (sv_clients s')" for g
    using that s' sv_wfD(3)[OF assms(1)] by (fastforce simp: sv_watched_def split: if_splits)
  have fin: "finite (dom (sv_clients s'))"
    using s'(2) sv_wfD(6)[OF assms(1)] by simp
  show ?thesis
    using maps card ids fds fin s'(4,7,8) assms(1) by (simp add: sv_wf_def)
qed

section \<open>Receiving keeps the invariant\<close>

lemma fresh_newMsg [simp]: "fresh (sv_newMsg fd)"
  by (simp add: fresh_def sv_newMsg_def msg_setMessageFd_def msg_fd_typed_def)

lemma frame_newMsg_fd [simp]: "m_fd (frame_message (sv_newMsg fd) f) = Some fd"
  by (simp add: frame_message_def sv_newMsg_def msg_setMessageFd_def)

lemma used_0_view: "db_wf b \<Longrightarrow> db_used b = 0 \<Longrightarrow> db_view b = []"
  by (simp add: db_used_def db_view_def)

lemma cleared_empty:
  "msg_wf (p\<lparr>m_buffer := db_clear b\<rparr>)" "db_used (m_buffer (p\<lparr>m_buffer := db_clear b\<rparr>)) = 0"
  by (simp_all add: msg_wf_def db_clear_def db_wf_def db_used_def vbounded_def)

lemma default_empty: "msg_wf msg_default" "db_used (m_buffer msg_default) = 0"
  by (simp_all add: msg_default_def msg_wf_def db_new_def db_wf_def vbounded_def db_used_def)

text \<open>What one chunk is appended to: an empty message.\<close>

lemma partial_append:
  assumes "sv_wf s" and "length ch < 2 ^ 63"
  obtains p1 where "msg_appendBytes (case sv_partialMsgs s fd of None \<Rightarrow> msg_default | Some m \<Rightarrow> m)
      (Some ch) (vsize ch) = Inr p1" and "msg_wf p1" and "msg_view p1 = ch"
proof -
  let ?p = "case sv_partialMsgs s fd of None \<Rightarrow> msg_default | Some m \<Rightarrow> m"
  have p: "msg_wf ?p" "db_used (m_buffer ?p) = 0"
    using sv_wfD(4)[OF assms(1), of fd] default_empty by (auto split: option.split)
  then have "msg_view ?p = []"
    using used_0_view by (simp add: msg_wf_def msg_view_def)
  then show thesis
    using append_chunk[of ?p ch] p assms(2) that by auto
qed

lemma received_wf:
  assumes "sv_wf s" and "msg_wf p" and "db_used (m_buffer p) = 0"
  shows "sv_wf (s\<lparr>sv_msgs := sv_msgs s @ map (frame_message (sv_newMsg fd)) fs,
    sv_partialMsgs := (sv_partialMsgs s)(fd \<mapsto> p)\<rparr>)"
  using assms by (auto simp: sv_wf_def sv_watched_def ran_def split: if_splits)

text \<open>The state a receive loop leaves differs in the queue and the partial messages only.\<close>

definition only_received :: "int \<Rightarrow> 'cb server \<Rightarrow> 'cb server \<Rightarrow> bool" where
  "only_received fd s s' \<longleftrightarrow> (\<exists>fs P. s' = s\<lparr>sv_msgs := sv_msgs s @ map (frame_message (sv_newMsg fd)) fs,
     sv_partialMsgs := P\<rparr>)"

lemma only_received_refl: "only_received fd s s"
  unfolding only_received_def by (rule exI[of _ "[]"], rule exI[of _ "sv_partialMsgs s"]) simp

lemma only_received_step:
  assumes "only_received fd (s\<lparr>sv_msgs := sv_msgs s @ map (frame_message (sv_newMsg fd)) gs,
      sv_partialMsgs := P\<rparr>) s'"
  shows "only_received fd s s'"
proof -
  from assms obtain fs Q where "s' = s\<lparr>sv_msgs :=
      sv_msgs s @ map (frame_message (sv_newMsg fd)) (gs @ fs), sv_partialMsgs := Q\<rparr>"
    unfolding only_received_def by auto
  then show ?thesis unfolding only_received_def by blast
qed

lemma only_received_frame:
  assumes "only_received fd s s'"
  shows "sv_clients s' = sv_clients s" "sv_socket s' = sv_socket s" "sv_max_fd s' = sv_max_fd s"
    "sv_active s' = sv_active s" "sv_readyRead s' = sv_readyRead s" "sv_closed s' = sv_closed s"
  using assms by (auto simp: only_received_def)

text \<open>Chunks on which the extraction loop ends.\<close>

definition chunk_ends :: "byte list \<Rightarrow> bool" where
  "chunk_ends ch \<longleftrightarrow> length ch < 2 ^ 63 \<and> no_loop ch"

lemma recv_loop_wf:
  assumes "sv_wf s" and "\<forall>ch \<in> set chs. chunk_ends ch"
  shows "\<exists>r s'. sv_recv_loop fd chs s = Some (r, s') \<and> only_received fd s s' \<and> (r = Inr () \<longrightarrow> sv_wf s')"
  using assms
proof (induction chs arbitrary: s)
  case Nil
  then show ?case by (simp add: only_received_refl)
next
  case (Cons ch chs)
  have ch: "length ch < 2 ^ 63" "no_loop ch"
    using Cons.prems(2) by (simp_all add: chunk_ends_def)
  from Cons.prems(1) ch(1) obtain p1 where p1: "msg_appendBytes
      (case sv_partialMsgs s fd of None \<Rightarrow> msg_default | Some m \<Rightarrow> m) (Some ch) (vsize ch) = Inr p1"
      "msg_wf p1" "msg_view p1 = ch"
    by (rule partial_append)
  obtain r fs p2 where d: "drain (sv_newMsg fd) p1 (sv_msgs s) =
      Some (r, sv_msgs s @ map (frame_message (sv_newMsg fd)) fs, p2)" "msg_wf p2"
    using drain_terminates[OF p1(2) fresh_newMsg] p1(3) ch(2) by blast
  let ?s = "s\<lparr>sv_msgs := sv_msgs s @ map (frame_message (sv_newMsg fd)) fs,
    sv_partialMsgs := (sv_partialMsgs s)(fd \<mapsto> p2\<lparr>m_buffer := db_clear (m_buffer p2)\<rparr>)\<rparr>"
  show ?case
  proof (cases r)
    case (Inl e)
    then show ?thesis
      using p1 d by (auto simp: Let_def only_received_def)
  next
    case (Inr u)
    have "sv_wf ?s"
      using Cons.prems(1) cleared_empty by (rule received_wf)
    then obtain r' s' where "sv_recv_loop fd chs ?s = Some (r', s')" "only_received fd ?s s'"
        "r' = Inr () \<longrightarrow> sv_wf s'"
      using Cons.IH[of ?s] Cons.prems(2) by auto
    then show ?thesis
      using Inr p1(1) d(1) only_received_step by (simp add: Let_def)
  qed
qed

text \<open>A proper front part of a message is forgotten as soon as the chunk that carried it is done.\<close>

lemma recv_cut_chunk:
  assumes "sv_wf s" and "k < length (frame_bytes f)" and "length (frame_bytes f) < 2 ^ 63"
  shows "\<exists>p. msg_wf p \<and> db_used (m_buffer p) = 0 \<and> sv_recv_loop fd (take k (frame_bytes f) # chs) s =
    sv_recv_loop fd chs (s\<lparr>sv_partialMsgs := (sv_partialMsgs s)(fd \<mapsto> p)\<rparr>)"
proof -
  let ?ch = "take k (frame_bytes f)"
  have "length ?ch < 2 ^ 63"
    using assms(2,3) by simp
  with assms(1) obtain p1 where p1: "msg_appendBytes
      (case sv_partialMsgs s fd of None \<Rightarrow> msg_default | Some m \<Rightarrow> m) (Some ?ch) (vsize ?ch) = Inr p1"
      "msg_wf p1" "msg_view p1 = ?ch"
    by (rule partial_append)
  have view: "msg_view p1 @ drop k (frame_bytes f) = frame_bytes f @ []"
    using p1(3) by simp
  have "msg_isComplet p1 = (Inr False, p1)"
    by (rule isComplet_cut[OF p1(2) view]) (use assms(2,3) p1(3) in \<open>auto simp: vbounded_def\<close>)
  then have "drain (sv_newMsg fd) p1 (sv_msgs s) = Some (Inr (), sv_msgs s, p1)"
    by (rule drain_stop)
  then show ?thesis
    using p1(1) cleared_empty by (intro exI[of _ "p1\<lparr>m_buffer := db_clear (m_buffer p1)\<rparr>"]) (simp add: Let_def)
qed

lemma recv_whole_chunk:
  assumes "sv_wf s" and "length (stream_bytes fs) < 2 ^ 63"
  shows "\<exists>p. msg_wf p \<and> db_used (m_buffer p) = 0 \<and> sv_recv_loop fd (stream_bytes fs # chs) s =
    sv_recv_loop fd chs (s\<lparr>sv_msgs := sv_msgs s @ map (frame_message (sv_newMsg fd)) fs,
      sv_partialMsgs := (sv_partialMsgs s)(fd \<mapsto> p)\<rparr>)"
proof -
  from assms obtain p1 where p1: "msg_appendBytes
      (case sv_partialMsgs s fd of None \<Rightarrow> msg_default | Some m \<Rightarrow> m)
      (Some (stream_bytes fs)) (vsize (stream_bytes fs)) = Inr p1"
      "msg_wf p1" "msg_view p1 = stream_bytes fs"
    by (rule partial_append)
  have "\<forall>f \<in> set fs. vbounded (snd f)"
    using assms(2) frame_in_stream[of _ fs] by (fastforce simp: vbounded_def)
  then obtain p2 where "drain (sv_newMsg fd) p1 (sv_msgs s) =
      Some (Inr (), sv_msgs s @ map (frame_message (sv_newMsg fd)) fs, p2)"
    using drain_all[OF p1(2) fresh_newMsg p1(3)] by blast
  then show ?thesis
    using p1(1) cleared_empty by (intro exI[of _ "p2\<lparr>m_buffer := db_clear (m_buffer p2)\<rparr>"]) (simp add: Let_def)
qed

lemma recv_whole_chunks:
  assumes "sv_wf s" and "\<forall>fs \<in> set fss. length (stream_bytes fs) < 2 ^ 63"
  shows "\<exists>s' P. sv_recv_loop fd (map stream_bytes fss) s = Some (Inr (), s') \<and> sv_wf s' \<and>
    s' = s\<lparr>sv_msgs := sv_msgs s @ map (frame_message (sv_newMsg fd)) (concat fss), sv_partialMsgs := P\<rparr>"
  using assms
proof (induction fss arbitrary: s)
  case Nil
  then show ?case by (intro exI[of _ s] exI[of _ "sv_partialMsgs s"]) simp
next
  case (Cons fs fss)
  obtain p where p: "msg_wf p" "db_used (m_buffer p) = 0" "sv_recv_loop fd (map stream_bytes (fs # fss)) s =
      sv_recv_loop fd (map stream_bytes fss) (s\<lparr>sv_msgs := sv_msgs s @ map (frame_message (sv_newMsg fd)) fs,
        sv_partialMsgs := (sv_partialMsgs s)(fd \<mapsto> p)\<rparr>)" (is "_ = sv_recv_loop fd _ ?s")
    using recv_whole_chunk[OF Cons.prems(1), of fs fd "map stream_bytes fss"] Cons.prems(2) by auto
  have "sv_wf ?s"
    using Cons.prems(1) p(1,2) by (rule received_wf)
  with Cons.IH[of ?s] Cons.prems(2) p(3) show ?case by auto
qed

section \<open>The update loop keeps the invariant\<close>

declare sv_scan.simps [simp del]

lemma receive_wf:
  assumes "sv_wf s" and "\<forall>ch \<in> set (fst batch). chunk_ends ch"
  obtains r s' where "sv_receiveClientMsg fd batch s = Some (r, s')" and "only_received fd s s'"
    and "\<And>b. r = Inr b \<Longrightarrow> sv_wf s'"
proof (cases "FD_ISSET fd (sv_readyRead s)")
  case (Inl e)
  then show thesis using that only_received_refl[of fd s] by (simp add: sv_receiveClientMsg_def)
next
  case (Inr ready)
  obtain r s' where loop: "sv_recv_loop fd (fst batch) s = Some (r, s')" "only_received fd s s'"
      "r = Inr () \<longrightarrow> sv_wf s'"
    using recv_loop_wf[OF assms] by blast
  show thesis
  proof (cases ready)
    case False
    then show thesis
      using that only_received_refl[of fd s] Inr assms(1) by (simp add: sv_receiveClientMsg_def)
  next
    case True
    then show thesis
      using that loop Inr by (cases r) (auto simp: sv_receiveClientMsg_def)
  qed
qed

lemma erase_partial_wf: "sv_wf s \<Longrightarrow> sv_wf (s\<lparr>sv_partialMsgs := (sv_partialMsgs s)(fd := None)\<rparr>)"
  by (auto simp: sv_wf_def sv_watched_def dest!: ran_upd_None)

lemma clearClient_socket: "sv_clearClient al fd s = Inr s' \<Longrightarrow> sv_socket s' = sv_socket s"
  by (auto simp: sv_clearClient_def FD_CLR_def Let_def split: option.splits if_splits)

lemma accept_socket: "sv_acceptNewConnection k s = Inr s' \<Longrightarrow> sv_socket s' = sv_socket s"
  by (auto simp: sv_acceptNewConnection_def FD_SET_def Let_def split: if_splits)

text \<open>
  What holds when the scan reaches a descriptor: the invariant, and that \<^verbatim>\<open>accept\<close> is going to
  return a descriptor that no client has, as long as the listening socket is still ahead.
\<close>

definition scan_inv :: "sel_round \<Rightarrow> int \<Rightarrow> 'cb server \<Rightarrow> bool" where
  "scan_inv r fd s \<longleftrightarrow> sv_wf s \<and> (fd \<le> sv_socket s \<longrightarrow> sv_clients s (sr_accept r) = None)"

lemma scan_accept:
  assumes "scan_inv r fd s" and "fd = sv_socket s"
    and "sv_acceptNewConnection (sr_accept r) s = Inr t"
  shows "scan_inv r (fd + 1) t"
  using accept_wf[OF _ _ assms(3)] accept_socket[OF assms(3)] assms(1,2)
  by (simp add: scan_inv_def)

lemma scan_received:
  assumes "scan_inv r fd s" and "only_received fd s t" and "sv_wf t"
  shows "scan_inv r (fd + 1) t"
  using assms only_received_frame[OF assms(2)] by (simp add: scan_inv_def)

lemma scan_dropped:
  assumes "scan_inv r fd s" and "only_received fd s t" and "sv_wf t"
  obtains u where "sv_clearClient False fd t = Inr u"
    and "scan_inv r (fd + 1) (u\<lparr>sv_partialMsgs := (sv_partialMsgs u)(fd := None)\<rparr>)"
proof -
  obtain u where u: "sv_clearClient False fd t = Inr u" "sv_clients u = (sv_clients t)(fd := None)"
    using clearClient_ok[OF assms(3)] by blast
  have "sv_wf (u\<lparr>sv_partialMsgs := (sv_partialMsgs u)(fd := None)\<rparr>)"
    using clearClient_wf[OF assms(3) u(1)] by (rule erase_partial_wf)
  then show thesis
    using that u clearClient_socket[OF u(1)] only_received_frame[OF assms(2)] assms(1)
    by (auto simp: scan_inv_def)
qed

lemma scan_step:
  assumes "scan_inv r fd s" and "fd \<le> sv_max_fd s" and "fd_ok fd"
    and "\<forall>g. \<forall>ch \<in> set (fst (sr_recv r g)). chunk_ends ch"
  shows "(\<exists>e t. sv_scan r fd s = Some (Inl e, t)) \<or>
    (\<exists>t. sv_scan r fd s = sv_scan r (fd + 1) t \<and> scan_inv r (fd + 1) t)"
proof (cases "fd \<in> sv_readyRead s")
  case False
  then show ?thesis
    using assms by (auto simp: sv_scan.simps[of r fd] FD_ISSET_def scan_inv_def)
next
  case ready: True
  show ?thesis
  proof (cases "fd = sv_socket s")
    case True
    then show ?thesis
      using assms(2,3) ready scan_accept[OF assms(1) True]
      by (cases "sv_acceptNewConnection (sr_accept r) s")
        (auto simp: sv_scan.simps[of r "sv_socket s"] FD_ISSET_def)
  next
    case False
    have wf: "sv_wf s" using assms(1) by (simp add: scan_inv_def)
    obtain b t where rc: "sv_receiveClientMsg fd (sr_recv r fd) s = Some (b, t)"
        "only_received fd s t" "\<And>c. b = Inr c \<Longrightarrow> sv_wf t"
      using receive_wf[OF wf, of "sr_recv r fd" fd] assms(4) by blast
    show ?thesis
    proof (cases b)
      case (Inl e)
      then show ?thesis
        using assms(2,3) ready False rc(1) by (simp add: sv_scan.simps[of r fd] FD_ISSET_def)
    next
      case (Inr ok)
      obtain u where "sv_clearClient False fd t = Inr u"
          "scan_inv r (fd + 1) (u\<lparr>sv_partialMsgs := (sv_partialMsgs u)(fd := None)\<rparr>)"
        using scan_dropped[OF assms(1) rc(2) rc(3)[OF Inr]] .
      then show ?thesis
        using assms(2,3) ready False rc(1) Inr scan_received[OF assms(1) rc(2) rc(3)[OF Inr]]
        by (cases ok) (auto simp: sv_scan.simps[of r fd] FD_ISSET_def)
    qed
  qed
qed

lemma scan_wf:
  assumes "scan_inv r fd s"
    and "\<forall>g. \<forall>ch \<in> set (fst (sr_recv r g)). chunk_ends ch"
  shows "\<exists>x s'. sv_scan r fd s = Some (x, s') \<and> (x = Inr () \<longrightarrow> sv_wf s')"
  using assms(1)
proof (induction "nat (FD_SETSIZE - fd)" arbitrary: fd s rule: less_induct)
  case less
  show ?case
  proof (cases "fd \<le> sv_max_fd s \<and> fd_ok fd")
    case False
    then show ?thesis
      using less.prems by (auto simp: sv_scan.simps[of r fd] FD_ISSET_def scan_inv_def)
  next
    case True
    from scan_step[OF less.prems conjunct1[OF True] conjunct2[OF True] assms(2)] show ?thesis
      using less.hyps[of "fd + 1"] True by (fastforce simp: fd_ok_def)
  qed
qed

text \<open>
  What is asked of the system and the peers in the rounds of one \<open>update\<close>: chunks fit the read buffer
  and do not end in the size field on which the extraction loop never ends, and \<^verbatim>\<open>accept\<close> returns no
  descriptor that a connected client has.
\<close>

fun rounds_ok :: "sel_round list \<Rightarrow> 'cb server \<Rightarrow> bool" where
  "rounds_ok [] s = True"
| "rounds_ok (r # rs) s =
     ((\<forall>g. chunks_ok READ_BUFFER_SIZE (fst (sr_recv r g)) \<and> (\<forall>ch \<in> set (fst (sr_recv r g)). no_loop ch)) \<and>
      sv_clients s (sr_accept r) = None \<and>
      (case sv_scan r 0 (s\<lparr>sv_readyRead := sr_ready r\<rparr>) of
         Some (Inr u, s') \<Rightarrow> rounds_ok rs s'
       | _ \<Rightarrow> True))"

lemma chunks_small:
  "chunks_ok READ_BUFFER_SIZE cs \<Longrightarrow> \<forall>ch \<in> set cs. no_loop ch \<Longrightarrow> \<forall>ch \<in> set cs. chunk_ends ch"
  by (fastforce simp: chunks_ok_def READ_BUFFER_SIZE_def chunk_ends_def)

lemma poll_wf:
  assumes "sv_wf s" and "rounds_ok rounds s"
  shows "\<exists>x s'. sv_poll rounds lst s = Some (x, s') \<and> (\<forall>b. x = Inr b \<longrightarrow> sv_wf s')"
  using assms
proof (induction rounds arbitrary: s)
  case Nil
  then show ?case by simp
next
  case (Cons r rs)
  have "scan_inv r 0 (s\<lparr>sv_readyRead := sr_ready r\<rparr>)"
    using Cons.prems by (simp add: scan_inv_def)
  moreover have "\<forall>g. \<forall>ch \<in> set (fst (sr_recv r g)). chunk_ends ch"
    using Cons.prems(2) chunks_small by auto
  ultimately obtain x t where x: "sv_scan r 0 (s\<lparr>sv_readyRead := sr_ready r\<rparr>) = Some (x, t)"
      "x = Inr () \<longrightarrow> sv_wf t"
    using scan_wf by blast
  show ?case
    using x Cons.IH[of t] Cons.prems(2) by (cases x) auto
qed

section \<open>Sending, starting and stopping\<close>

lemma sendTo_eq:
  assumes "sv_wf s" and "msg_wf msg" and "sv_clients s fd = Some i"
  shows "sv_sendTo send msg i s =
    (let data = frame_bytes (m_type msg, msg_view msg)
     in if send fd data = - 1 then ub else Inr (s, [(fd, data)]))"
proof -
  have "sv_clientsToFd s i = Some fd"
    using inverse_mapsD[OF sv_wfD(1)[OF assms(1)]] assms(3) by blast
  moreover have "frame_bytes (m_type msg, msg_view msg) \<noteq> []"
    using length_frame_bytes[of "(m_type msg, msg_view msg)"] by (metis list.size(3) add_is_0 zero_neq_numeral)
  ultimately show ?thesis
    using sv_wfD(3)[OF assms(1,3)] clearClient_eq[OF assms(1,3)] serialized_data[OF assms(2)]
    by (simp add: sv_sendTo_def FD_ISSET_def sv_watched_def Let_def)
qed

lemma sendTo_unknown: "sv_clientsToFd s i = None \<Longrightarrow> sv_sendTo send msg i s = Inr (s, [])"
  by (simp add: sv_sendTo_def)

lemma sendTo_state:
  assumes "sv_wf s" and "msg_wf msg" and "sv_sendTo send msg i s = Inr (s', out)"
  shows "s' = s"
proof (cases "sv_clientsToFd s i")
  case None
  then show ?thesis using assms(3) by (simp add: sendTo_unknown)
next
  case (Some fd)
  then have "sv_clients s fd = Some i"
    using inverse_mapsD[OF sv_wfD(1)[OF assms(1)]] by blast
  from assms(3) show ?thesis
    by (simp add: sendTo_eq[OF assms(1,2) \<open>sv_clients s fd = Some i\<close>] Let_def split: if_splits)
qed

lemma close_clients_ok:
  assumes "\<forall>fd \<in> set order. fd_ok fd"
  shows "\<exists>A. sv_close_clients order s =
    Inr (s\<lparr>sv_closed := rev (filter (\<lambda>fd. fd > 2) order) @ sv_closed s, sv_active := A\<rparr>)"
  using assms
proof (induction order arbitrary: s)
  case Nil
  then show ?case by (intro exI[of _ "sv_active s"]) simp
next
  case (Cons fd fds)
  then show ?case
    using Cons.IH[of "s\<lparr>sv_closed := fd # sv_closed s, sv_active := sv_active s - {fd}\<rparr>"]
    by (cases "fd \<le> 2") (auto simp: FD_CLR_def)
qed

lemma stop_eq:
  assumes "\<forall>fd \<in> set order. fd_ok fd"
  shows "sv_stop order s = Inr (s\<lparr>sv_running := False, sv_socket := (if sv_socket s \<ge> 0 then - 1 else sv_socket s),
    sv_closed := rev (filter (\<lambda>fd. fd > 2) order) @ (if sv_socket s \<ge> 0 then [sv_socket s] else []) @ sv_closed s,
    sv_clients := (\<lambda>_. None), sv_clientsToFd := (\<lambda>_. None), sv_partialMsgs := (\<lambda>_. None),
    sv_msgs := [], sv_active := {}\<rparr>)"
proof -
  let ?s2 = "if sv_socket s \<ge> 0 then s\<lparr>sv_running := False, sv_closed := sv_socket s # sv_closed s,
    sv_socket := - 1\<rparr> else s\<lparr>sv_running := False\<rparr>"
  obtain A where "sv_close_clients order ?s2 =
      Inr (?s2\<lparr>sv_closed := rev (filter (\<lambda>fd. fd > 2) order) @ sv_closed ?s2, sv_active := A\<rparr>)"
    using close_clients_ok[OF assms] by blast
  then show ?thesis
    by (simp add: sv_stop_def Let_def sv_clearAll_def split: if_splits)
qed

lemma start_wf:
  assumes "sv_wf s" and "sv_clients s = (\<lambda>_. None)"
  shows "sv_wf (snd (sv_start os [] port s))"
proof -
  have stop: "sv_stop [] t = Inr u \<Longrightarrow> 0 \<le> sv_next_id t \<Longrightarrow> sv_wf u" for t u :: "'a server"
    by (auto simp: stop_eq sv_wf_def)
  have next_id: "0 \<le> sv_next_id s"
    using assms(1) by (simp add: sv_wf_def)
  have fail: "sv_wf (snd (sv_fail [] t msg))" if "0 \<le> sv_next_id t" for t :: "'a server" and msg
    using stop[OF _ that] by (simp add: sv_fail_def stop_eq)
  have fds: "sv_wf (s\<lparr>sv_socket := k, sv_max_fd := n, sv_active := A\<rparr>)" for k n A
    using assms by (simp add: sv_wf_def)
  show ?thesis
    using assms(1) next_id fds
    by (auto simp: sv_start_def Let_def FD_SET_def intro!: fail)
qed

section \<open>Running the actions\<close>

lemma dispatch_end:
  "\<not> i < length (sv_msgs s) \<Longrightarrow> sv_dispatch run i (s, w) = Some (Inr (), s\<lparr>sv_msgs := []\<rparr>, w)"
  by (simp add: sv_dispatch.simps)

lemma dispatch_orphans:
  assumes "\<forall>m \<in> set (drop i (sv_msgs s)). \<exists>fd. m_fd m = Some fd \<and> sv_clients s fd = None"
  shows "sv_dispatch run i (s, w) = Some (Inr (), s\<lparr>sv_msgs := []\<rparr>, w)"
  using assms
proof (induction "length (sv_msgs s) - i" arbitrary: i)
  case 0
  then show ?case by (simp add: dispatch_end)
next
  case (Suc n)
  then have i: "i < length (sv_msgs s)" by simp
  then have m: "sv_msgs s ! i \<in> set (drop i (sv_msgs s))"
    by (metis Cons_nth_drop_Suc list.set_intros(1))
  have rest: "\<forall>m \<in> set (drop (Suc i) (sv_msgs s)). \<exists>fd. m_fd m = Some fd \<and> sv_clients s fd = None"
    using Suc.prems i by (metis Cons_nth_drop_Suc list.set_intros(2))
  have "sv_dispatch run (Suc i) (s, w) = Some (Inr (), s\<lparr>sv_msgs := []\<rparr>, w)"
    using Suc.hyps(1)[of "Suc i"] Suc.hyps(2) rest by linarith
  moreover obtain fd where "m_fd (sv_msgs s ! i) = Some fd" "sv_clients s fd = None"
    using Suc.prems m by blast
  ultimately show ?case
    using i by (subst sv_dispatch.simps) (auto simp: msg_getFd_def split: option.splits)
qed

lemma dispatch_terminates:
  assumes "\<And>f c i sw. length (sv_msgs (fst (snd (run f c i sw)))) \<le> length (sv_msgs (fst sw))"
  shows "\<exists>x. sv_dispatch run i sw = Some x"
proof (induction "length (sv_msgs (fst sw)) - i" arbitrary: i sw rule: less_induct)
  case less
  show ?case
  proof (cases "i < length (sv_msgs (fst sw))")
    case False
    then show ?thesis by (cases sw) (simp add: dispatch_end)
  next
    case True
    have smaller: "\<exists>x. sv_dispatch run (Suc i) sw' = Some x"
      if "length (sv_msgs (fst sw')) \<le> length (sv_msgs (fst sw))" for sw'
      using less.hyps[of sw' "Suc i"] that True by simp
    show ?thesis
      using True smaller[of sw] smaller[OF assms]
      by (subst sv_dispatch.simps)
        (auto split: option.split sum.split prod.split simp: split_beta intro: smaller)
  qed
qed

section \<open>Properties\<close>



text \<open>
  C16. A message that a read splits is lost: when a chunk ends inside a message, the part already
  received is discarded with the chunk, no message is queued for it, and the bytes that follow are
  taken for the start of a new message.
\<close>

theorem server_drops_split_message:
  assumes "sv_wf s" and "k < length (frame_bytes f)" and "length (frame_bytes f) < 2 ^ 63"
  shows "\<exists>p. msg_wf p \<and> db_used (m_buffer p) = 0 \<and>
    sv_recv_loop fd (take k (frame_bytes f) # chs) s =
      sv_recv_loop fd chs (s\<lparr>sv_partialMsgs := (sv_partialMsgs s)(fd \<mapsto> p)\<rparr>)"
  by (rule recv_cut_chunk[OF assms])

theorem server_drops_split_message_witness:
  "\<exists>p. msg_wf p \<and> db_used (m_buffer p) = 0 \<and>
    sv_recv_loop 5 [take 13 (frame_bytes (1, [65, 66])), []] (sv_new [] 0 :: nat server) =
      sv_recv_loop 5 [[]] ((sv_new [] 0)\<lparr>sv_partialMsgs := (sv_partialMsgs (sv_new [] 0 :: nat server))(5 \<mapsto> p)\<rparr>)"
  by (rule server_drops_split_message) (simp_all add: sv_wf_new)

text \<open>
  No message longer than the read buffer (4096 bytes with its header) can be received:
  whatever chunks \<^verbatim>\<open>recv\<close> delivers it in, the first one is discarded.
\<close>

theorem server_long_message_lost:
  assumes "sv_wf s" and "READ_BUFFER_SIZE < length (frame_bytes f)" and "length (frame_bytes f) < 2 ^ 63"
    and "chunks_ok READ_BUFFER_SIZE chs" and "concat chs = frame_bytes f"
  shows "\<exists>p. msg_wf p \<and> db_used (m_buffer p) = 0 \<and>
    sv_recv_loop fd chs s = sv_recv_loop fd (tl chs) (s\<lparr>sv_partialMsgs := (sv_partialMsgs s)(fd \<mapsto> p)\<rparr>)"
proof (cases chs)
  case Nil
  then show ?thesis using assms(2,5) by (metis concat.simps(1) list.size(3) not_less_zero)
next
  case (Cons ch rest)
  then have "ch = take (length ch) (frame_bytes f)"
    using assms(5) by (metis append_eq_conv_conj concat.simps(2))
  moreover have "length ch < length (frame_bytes f)"
    using Cons assms(2,4) by (auto simp: chunks_ok_def)
  ultimately show ?thesis
    using recv_cut_chunk[OF assms(1) _ assms(3), of "length ch" fd rest] Cons by simp
qed

theorem server_long_message_lost_witness:
  "\<exists>p. msg_wf p \<and> db_used (m_buffer p) = 0 \<and>
    sv_recv_loop 5 [take 4096 (frame_bytes (1, replicate 4090 0)), drop 4096 (frame_bytes (1, replicate 4090 0))]
      (sv_new [] 0 :: nat server) =
    sv_recv_loop 5 (tl [take 4096 (frame_bytes (1, replicate 4090 0)), drop 4096 (frame_bytes (1, replicate 4090 0))])
      ((sv_new [] 0)\<lparr>sv_partialMsgs := (sv_partialMsgs (sv_new [] 0 :: nat server))(5 \<mapsto> p)\<rparr>)"
  by (rule server_long_message_lost[where f = "(1, replicate 4090 0)"])
    (simp_all add: sv_wf_new READ_BUFFER_SIZE_def chunks_ok_def)

text \<open>
  Messages that arrive whole are received: when every chunk consists of whole messages, all
  of them are queued, in order, marked with the descriptor they came from.
\<close>

theorem server_receives_whole_messages:
  assumes "sv_wf s" and "\<forall>fs \<in> set fss. length (stream_bytes fs) < 2 ^ 63"
  shows "\<exists>P. sv_recv_loop fd (map stream_bytes fss) s =
    Some (Inr (), s\<lparr>sv_msgs := sv_msgs s @ map (frame_message (sv_newMsg fd)) (concat fss), sv_partialMsgs := P\<rparr>)"
  using recv_whole_chunks[OF assms] by blast

theorem server_receives_whole_messages_witness:
  "\<exists>P. sv_recv_loop 5 (map stream_bytes [[(1, [65]), (2, [])], [(3, [66])]]) (sv_new [] 0 :: nat server) =
    Some (Inr (), (sv_new [] 0)\<lparr>sv_msgs := sv_msgs (sv_new [] 0 :: nat server) @
      map (frame_message (sv_newMsg 5)) (concat [[(1, [65]), (2, [])], [(3, [66])]]), sv_partialMsgs := P\<rparr>)"
  by (rule server_receives_whole_messages) (simp_all add: sv_wf_new)

lemma recv_default_rounds: "chunks_ok READ_BUFFER_SIZE []"
  by (simp add: chunks_ok_def)

lemma recv_loops:
  assumes "sv_wf s"
  shows "sv_recv_loop fd ((enc_int t @ enc_size (- 12)) # chs) s = None"
proof -
  let ?ch = "enc_int t @ enc_size (- 12)"
  have "length ?ch < 2 ^ 63" by simp
  with assms obtain p1 where p1: "msg_appendBytes
      (case sv_partialMsgs s fd of None \<Rightarrow> msg_default | Some m \<Rightarrow> m) (Some ?ch) (vsize ?ch) = Inr p1"
      "msg_wf p1" "msg_view p1 = ?ch"
    by (rule partial_append)
  then show ?thesis
    using drain_loops[OF p1(2) fresh_newMsg p1(3)] by (simp add: Let_def)
qed

text \<open>
  C17. \<open>update\<close> returns: for every sequence of rounds the system can deliver in which no chunk ends in
  the size field \<open>2 ^ 64 - 12\<close>, the scan of the descriptors, the receive loops and the extraction loops
  end, and so does the loop that runs the actions, provided no action makes the queue longer. The
  restriction on the chunks is needed: twelve bytes from one client, a header with that size, make
  the server loop for ever.
\<close>

theorem server_update_returns:
  assumes "sv_wf s" and "rounds_ok rounds (s\<lparr>sv_running := True\<rparr>)"
    and "\<And>f c i sw. length (sv_msgs (fst (snd (run f c i sw)))) \<le> length (sv_msgs (fst sw))"
  shows "(\<exists>x. sv_update run rounds lst (s, w) = Some x) \<and>
    sv_recv_loop fd ((enc_int t @ enc_size (- 12)) # chs) s = None"
proof
  obtain x s' where "sv_poll rounds lst (s\<lparr>sv_running := True\<rparr>) = Some (x, s')"
    using poll_wf[of "s\<lparr>sv_running := True\<rparr>" rounds lst] assms(1,2) by auto
  then show "\<exists>x. sv_update run rounds lst (s, w) = Some x"
    using dispatch_terminates[of run 0, OF assms(3)] by (auto simp: sv_update_def split: sum.split)
qed (rule recv_loops[OF assms(1)])

theorem server_update_returns_witness:
  "(\<exists>x. sv_update (\<lambda>f c i sw. (Inr (), sw)) [\<lparr>sr_ready = {3}, sr_accept = 5, sr_recv = (\<lambda>_. ([], RClosed))\<rparr>]
     \<lparr>sl_ready = {}, sl_errno = None\<rparr> (sv_new [] 0 :: nat server, 7 :: nat) = Some x) \<and>
   sv_recv_loop 4 ((enc_int 1 @ enc_size (- 12)) # []) (sv_new [] 0 :: nat server) = None"
proof (rule server_update_returns)
  show "rounds_ok [\<lparr>sr_ready = {3}, sr_accept = 5, sr_recv = (\<lambda>_. ([], RClosed))\<rparr>]
      ((sv_new [] 0 :: nat server)\<lparr>sv_running := True\<rparr>)"
    by (auto simp: recv_default_rounds sv_new_def split: option.split sum.split)
qed (simp_all add: sv_wf_new)

text \<open>
  C18. A queued message belongs to whoever has its descriptor when the actions run. When the
  client that sent it is dropped, the message is discarded without running its action; and when
  the system gives the descriptor to the next client, the action runs with the identifier of that
  client, which is not the sender.
\<close>

theorem server_fd_reuse:
  assumes "sv_wf s" and "sv_clients s fd = Some i" and "sv_msgs s = [m]" and "m_fd m = Some fd"
    and "sv_clearClient False fd s = Inr s1"
  shows "sv_dispatch run 0 (s1, w) = Some (Inr (), s1\<lparr>sv_msgs := []\<rparr>, w) \<and>
    (\<forall>s2 task sw. sv_acceptNewConnection fd s1 = Inr s2 \<longrightarrow> sv_clients s2 fd \<noteq> None \<longrightarrow>
       sv_tasks s (m_type m) = Some task \<longrightarrow>
       (\<exists>j. j \<noteq> i \<and> sv_clients s2 fd = Some j \<and>
         (run task j 0 (s2, w) = (Inr (), sw) \<longrightarrow> sv_dispatch run 0 (s2, w) = sv_dispatch run 1 sw)))"
proof (intro conjI allI impI)
  have s1: "sv_clients s1 = (sv_clients s)(fd := None)" "sv_msgs s1 = [m]" "sv_tasks s1 = sv_tasks s"
    "sv_next_id s1 = sv_next_id s"
    using assms(3,5) by (auto simp: clearClient_eq[OF assms(1,2)])
  show "sv_dispatch run 0 (s1, w) = Some (Inr (), s1\<lparr>sv_msgs := []\<rparr>, w)"
    by (rule dispatch_orphans) (use s1 assms(4) in simp)
  fix s2 task sw
  assume acc: "sv_acceptNewConnection fd s1 = Inr s2" "sv_clients s2 fd \<noteq> None"
    and task: "sv_tasks s (m_type m) = Some task"
  then have s2: "sv_clients s2 fd = Some (sv_next_id s)" "sv_msgs s2 = [m]" "sv_tasks s2 = sv_tasks s"
    using s1 by (auto simp: sv_acceptNewConnection_def FD_SET_def Let_def split: if_splits)
  moreover have "sv_next_id s \<noteq> i"
    using sv_wfD(2)[OF assms(1,2)] by simp
  moreover have "sv_dispatch run 0 (s2, w) = sv_dispatch run 1 sw"
    if "run task (sv_next_id s) 0 (s2, w) = (Inr (), sw)"
    using s2 task that assms(4) by (subst sv_dispatch.simps) (simp add: msg_getFd_def)
  ultimately show "\<exists>j. j \<noteq> i \<and> sv_clients s2 fd = Some j \<and>
      (run task j 0 (s2, w) = (Inr (), sw) \<longrightarrow> sv_dispatch run 0 (s2, w) = sv_dispatch run 1 sw)"
    by blast
qed

theorem server_fd_reuse_witness:
  "\<exists>s s1. sv_clients s 5 = Some 0 \<and> sv_clearClient False 5 s = Inr s1 \<and>
     sv_dispatch (\<lambda>f c i sw. (Inr (), sw)) 0 (s1, 7 :: nat) =
       Some (Inr (), (s1 :: nat server)\<lparr>sv_msgs := []\<rparr>, 7)"
proof -
  let ?m = "sv_newMsg 5 1"
  let ?s0 = "(sv_new [] 0 :: nat server)\<lparr>sv_msgs := [?m]\<rparr>"
  have wf0: "sv_wf ?s0"
    by (simp add: sv_wf_def sv_new_def sv_newMsg_def msg_setMessageFd_def)
  obtain s where s: "sv_acceptNewConnection 5 ?s0 = Inr s" "sv_clients s 5 = Some 0" "sv_msgs s = [?m]"
    unfolding sv_acceptNewConnection_def
    by (simp add: sv_new_def NB_CONNECTION_def FD_SET_def fd_ok_def FD_SETSIZE_def INT_MAX_def)
  have wf: "sv_wf s"
    using wf0 _ s(1) by (rule accept_wf) (simp add: sv_new_def)
  then obtain s1 where s1: "sv_clearClient False 5 s = Inr s1"
    using clearClient_ok by blast
  have "m_fd ?m = Some 5"
    by (simp add: sv_newMsg_def msg_setMessageFd_def)
  note reuse = server_fd_reuse[OF wf s(2,3) this s1, of "\<lambda>f c i sw. (Inr (), sw)" "7 :: nat"]
  show ?thesis
    by (intro exI[of _ s] exI[of _ s1] conjI) (rule s(2), rule s1, rule conjunct1[OF reuse])
qed

lemma sendToAll_cases:
  assumes "sv_wf s" and "msg_wf msg" and "set order \<subseteq> dom (sv_clients s)"
  defines "data \<equiv> frame_bytes (m_type msg, msg_view msg)"
  shows "sv_sendToAll send msg order s =
    (if \<exists>fd \<in> set order. send fd data = - 1 then ub else Inr (s, map (\<lambda>fd. (fd, data)) order))"
  using assms(3)
proof (induction order)
  case (Cons fd fds)
  then obtain i where "sv_clients s fd = Some i" by auto
  with Cons show ?case
    by (auto simp: sendTo_eq[OF assms(1,2)] data_def Let_def)
qed simp

text \<open>
  C19. \<open>sendToAll\<close> sends the serialised message once to every connected client, in the iteration
  order of the map, and changes nothing else, if every \<^verbatim>\<open>send\<close> succeeds; as soon as one fails the
  behaviour is undefined, because the erased entry is read through a reference.
\<close>

theorem server_sendToAll:
  assumes "sv_wf s" and "msg_wf msg" and "set order = dom (sv_clients s)" and "distinct order"
  defines "data \<equiv> frame_bytes (m_type msg, msg_view msg)"
  shows "((\<forall>fd \<in> dom (sv_clients s). send fd data \<noteq> - 1) \<longrightarrow>
      (\<exists>out. sv_sendToAll send msg order s = Inr (s, out) \<and> distinct out \<and>
        set out = {(fd, data) | fd. fd \<in> dom (sv_clients s)})) \<and>
    ((\<exists>fd \<in> dom (sv_clients s). send fd data = - 1) \<longrightarrow> sv_sendToAll send msg order s = ub)"
proof -
  have "distinct (map (\<lambda>fd. (fd, data)) order)"
    using assms(4) by (simp add: distinct_map inj_on_def)
  moreover have "set (map (\<lambda>fd. (fd, data)) order) = {(fd, data) | fd. fd \<in> dom (sv_clients s)}"
    using assms(3) by auto
  ultimately show ?thesis
    using sendToAll_cases[OF assms(1,2), of order send] assms(3) unfolding data_def by auto
qed

theorem server_sendToAll_witness:
  "\<exists>s. sv_clients (s :: nat server) 5 = Some 0 \<and>
     (\<exists>out. sv_sendToAll (\<lambda>_ _. 12) msg_default [5] s = Inr (s, out) \<and> distinct out \<and>
        set out = {(fd, frame_bytes (m_type msg_default, msg_view msg_default)) | fd. fd \<in> dom (sv_clients s)})"
proof -
  obtain s where s: "sv_acceptNewConnection 5 (sv_new [] 80 :: nat server) = Inr s" "sv_clients s = [5 \<mapsto> 0]"
    by (simp add: sv_acceptNewConnection_def sv_new_def NB_CONNECTION_def FD_SET_def fd_ok_def
        FD_SETSIZE_def INT_MAX_def)
  have wf: "sv_wf s"
    using sv_wf_new _ s(1) by (rule accept_wf) (simp add: sv_new_def)
  have "set [5] = dom (sv_clients s)" "distinct [5 :: int]"
    using s(2) by simp_all
  from server_sendToAll[OF wf default_empty(1) this, of "\<lambda>_ _. 12"] s(2) show ?thesis
    by (intro exI[of _ s]) simp
qed

text \<open>
  \<open>stop\<close> closes the listening socket and every client's descriptor, each exactly once, and
  forgets every client, every message and every watched descriptor; stopping again closes nothing.
\<close>

theorem server_stop:
  assumes "sv_wf s" and "set order = dom (sv_clients s)" and "distinct order"
    and "\<forall>fd \<in> dom (sv_clients s). fd > 2 \<and> fd \<noteq> sv_socket s"
  shows "\<exists>s' closed. sv_stop order s = Inr s' \<and> sv_closed s' = closed @ sv_closed s \<and> distinct closed \<and>
    set closed = dom (sv_clients s) \<union> (if sv_socket s \<ge> 0 then {sv_socket s} else {}) \<and>
    sv_clients s' = (\<lambda>_. None) \<and> sv_clientsToFd s' = (\<lambda>_. None) \<and> sv_msgs s' = [] \<and> sv_active s' = {} \<and>
    \<not> sv_running s' \<and> sv_stop [] s' = Inr s'"
proof -
  have ok: "\<forall>fd \<in> set order. fd_ok fd"
    using assms(2) sv_wfD(3)[OF assms(1)] by (auto simp: sv_watched_def)
  have all: "filter (\<lambda>fd. fd > 2) order = order"
    using assms(2,4) by (simp add: filter_id_conv)
  let ?closed = "rev order @ (if sv_socket s \<ge> 0 then [sv_socket s] else [])"
  have "distinct ?closed"
    using assms(2,3,4) by auto
  moreover have "set ?closed = dom (sv_clients s) \<union> (if sv_socket s \<ge> 0 then {sv_socket s} else {})"
    using assms(2) by simp
  moreover obtain s' where s': "sv_stop order s = Inr s'" "sv_closed s' = ?closed @ sv_closed s"
      "sv_clients s' = (\<lambda>_. None)" "sv_clientsToFd s' = (\<lambda>_. None)" "sv_msgs s' = []" "sv_active s' = {}"
      "\<not> sv_running s'" "\<not> 0 \<le> sv_socket s'" "sv_partialMsgs s' = (\<lambda>_. None)"
    by (simp add: stop_eq[OF ok] all)
  moreover have "sv_stop [] s' = Inr s'"
    using s' by (simp add: stop_eq)
  ultimately show ?thesis by blast
qed

theorem server_stop_witness:
  "\<exists>s' closed. sv_stop [] ((sv_new [] 0 :: nat server)\<lparr>sv_socket := 3\<rparr>) = Inr s' \<and>
    sv_closed s' = closed @ sv_closed ((sv_new [] 0 :: nat server)\<lparr>sv_socket := 3\<rparr>) \<and> distinct closed \<and>
    set closed = dom (sv_clients ((sv_new [] 0 :: nat server)\<lparr>sv_socket := 3\<rparr>)) \<union>
      (if sv_socket ((sv_new [] 0 :: nat server)\<lparr>sv_socket := 3\<rparr>) \<ge> 0
       then {sv_socket ((sv_new [] 0 :: nat server)\<lparr>sv_socket := 3\<rparr>)} else {}) \<and>
    sv_clients s' = (\<lambda>_. None) \<and> sv_clientsToFd s' = (\<lambda>_. None) \<and> sv_msgs s' = [] \<and> sv_active s' = {} \<and>
    \<not> sv_running s' \<and> sv_stop [] s' = Inr s'"
  by (rule server_stop) (simp_all add: sv_wf_new, simp_all add: sv_new_def)

end
