(* ===== verification/Frame_Parser.thy ===== *)
theory Frame_Parser
  imports Framing
begin

text \<open>
  The extraction loop as a parser: what a byte sequence holds, as whole frames and the bytes that are left.
  Parsing is the inverse of writing frames one after the other, and \<open>drain\<close> computes it on every byte sequence
  without a header whose size makes the test of completeness wrap.
\<close>

section \<open>The parser\<close>

function split_frames :: "byte list \<Rightarrow> frame list \<times> byte list" where
  "split_frames v =
     (if length v < 12 \<or> length v - 12 < unat (hdr_size v) then ([], v)
      else case split_frames (drop (12 + unat (hdr_size v)) v) of
        (fs, r) \<Rightarrow> ((header_of v, take (unat (hdr_size v)) (drop 12 v)) # fs, r))"
  by pat_completeness auto
termination
  by (relation "measure length") auto

declare split_frames.simps [simp del]

abbreviation whole_frames :: "byte list \<Rightarrow> frame list" where
  "whole_frames v \<equiv> fst (split_frames v)"

abbreviation left_over :: "byte list \<Rightarrow> byte list" where
  "left_over v \<equiv> snd (split_frames v)"

text \<open>Bytes that hold no whole frame, and among them those on which the test of completeness does not wrap.\<close>

definition partial_frame :: "byte list \<Rightarrow> bool" where
  "partial_frame v \<longleftrightarrow> length v < 12 \<or> length v - 12 < unat (hdr_size v)"

definition honest :: "byte list \<Rightarrow> bool" where
  "honest v \<longleftrightarrow> length (left_over v) < 12 \<or> unat (hdr_size (left_over v)) < 2 ^ 64 - 12"

lemma split_partial: "partial_frame v \<Longrightarrow> split_frames v = ([], v)"
  by (simp add: split_frames.simps[of v] partial_frame_def)

lemma split_more:
  "\<not> partial_frame v \<Longrightarrow> split_frames v =
    ((header_of v, take (unat (hdr_size v)) (drop 12 v)) # whole_frames (drop (12 + unat (hdr_size v)) v),
     left_over (drop (12 + unat (hdr_size v)) v))"
  by (auto simp: split_frames.simps[of v] partial_frame_def split: prod.split)

section \<open>Parsing and writing are inverse\<close>

lemma header_bytes: "12 \<le> length v \<Longrightarrow> enc_int (header_of v) @ enc_size (hdr_size v) = take 12 v"
proof -
  assume len: "12 \<le> length v"
  have "unat (dec_int bs) = le_val bs" if "length bs = 4" for bs
    using le_val_less[of bs] that by (simp add: dec_int_def unat_of_nat take_bit_eq_mod)
  moreover have "unat (dec_size bs) = le_val bs" if "length bs = 8" for bs
    using le_val_less[of bs] that by (simp add: dec_size_def unat_of_nat take_bit_eq_mod)
  ultimately have "enc_int (header_of v) = take 4 v" "enc_size (hdr_size v) = take 8 (drop 4 v)"
    using len by (simp_all add: enc_int_def enc_size_def header_of_def hdr_size_def le_bytes_le_val)
  then show ?thesis
    using take_add[of 4 8 v] by simp
qed

lemma frame_at_front:
  assumes "\<not> partial_frame v"
  shows "frame_bytes (header_of v, take (unat (hdr_size v)) (drop 12 v)) = take (12 + unat (hdr_size v)) v"
proof -
  have len: "12 \<le> length v" "unat (hdr_size v) \<le> length v - 12"
    using assms by (simp_all add: partial_frame_def)
  then have "vsize (take (unat (hdr_size v)) (drop 12 v)) = hdr_size v"
    by (simp add: vsize_def)
  then show ?thesis
    using header_bytes[OF len(1)] by (simp add: frame_bytes_def take_add flip: append_assoc)
qed

lemma split_joins: "stream_bytes (whole_frames v) @ left_over v = v"
proof (induction v rule: split_frames.induct)
  case (1 v)
  show ?case
  proof (cases "partial_frame v")
    case True
    then show ?thesis by (simp add: split_partial)
  next
    case False
    have "stream_bytes (whole_frames (drop (12 + unat (hdr_size v)) v)) @ left_over (drop (12 + unat (hdr_size v)) v) =
        drop (12 + unat (hdr_size v)) v"
      using 1 False by (simp add: partial_frame_def)
    then show ?thesis
      by (simp add: split_more[OF False] frame_at_front[OF False])
  qed
qed

lemma left_over_partial: "partial_frame (left_over v)"
proof (induction v rule: split_frames.induct)
  case (1 v)
  then show ?case
    by (cases "partial_frame v") (simp_all add: split_partial split_more partial_frame_def)
qed

lemma split_frame:
  assumes "vbounded (snd f)"
  shows "split_frames (frame_bytes f @ v) = (f # whole_frames v, left_over v)"
proof -
  have n: "unat (hdr_size (frame_bytes f @ v)) = length (snd f)"
    using assms by (simp add: unat_vsize vbounded_def)
  have "\<not> partial_frame (frame_bytes f @ v)"
    using n by (simp add: partial_frame_def del: hdr_size_frame)
  from split_more[OF this] show ?thesis
    using n by (simp add: header_of_def frame_bytes_def)
qed

lemma split_stream:
  assumes "\<forall>f \<in> set fs. vbounded (snd f)"
  shows "split_frames (stream_bytes fs @ v) = (fs @ whole_frames v, left_over v)"
  using assms by (induction fs) (simp_all add: split_frame)

text \<open>Parsing may stop anywhere and go on when more bytes have come.\<close>

lemma split_append:
  "split_frames (v @ w) = (whole_frames v @ whole_frames (left_over v @ w), left_over (left_over v @ w))"
proof (induction v rule: split_frames.induct)
  case (1 v)
  show ?case
  proof (cases "partial_frame v")
    case True
    then show ?thesis by (simp add: split_partial)
  next
    case False
    then have hdr: "hdr_size (v @ w) = hdr_size v" "header_of (v @ w) = header_of v"
      by (simp_all add: partial_frame_def hdr_size_def header_of_def)
    have len: "12 + unat (hdr_size v) \<le> length v"
      using False unfolding partial_frame_def by linarith
    then have "\<not> partial_frame (v @ w)"
      using hdr by (simp add: partial_frame_def)
    from split_more[OF this] show ?thesis
      using 1 False hdr len by (simp add: split_more[OF False] partial_frame_def)
  qed
qed

lemma whole_frames_bounded: "f \<in> set (whole_frames v) \<Longrightarrow> vbounded v \<Longrightarrow> vbounded (snd f)"
proof -
  assume f: "f \<in> set (whole_frames v)" and v: "vbounded v"
  have "length (stream_bytes (whole_frames v)) \<le> length v"
    using arg_cong[OF split_joins[of v], of length] by simp
  then show "vbounded (snd f)"
    using frame_in_stream[OF f] v by (simp add: vbounded_def)
qed

section \<open>The loop computes the parser\<close>

lemma partial_incomplete:
  assumes "msg_wf tmp" and "partial_frame (msg_view tmp)" and "honest (msg_view tmp)"
  shows "msg_isComplet tmp = (Inr False, tmp)"
proof -
  have "unat (hdr_size (msg_view tmp)) < 2 ^ 64 - 12" if "12 \<le> length (msg_view tmp)"
    using assms(2,3) that by (simp add: honest_def split_partial)
  then show ?thesis
    using assms(1,2) by (auto simp: isComplet_eq partial_frame_def unat_add_size)
qed

lemma honest_rest: "\<not> partial_frame v \<Longrightarrow> honest (drop (12 + unat (hdr_size v)) v) = honest v"
  by (simp add: honest_def split_more)

lemma drain_split:
  assumes "msg_wf tmp" and "fresh mk" and "honest (msg_view tmp)"
  shows "\<exists>t. drain mk tmp acc = Some (Inr (), acc @ map (frame_message mk) (whole_frames (msg_view tmp)), t) \<and>
    msg_wf t \<and> msg_view t = left_over (msg_view tmp) \<and> db_used (m_buffer t) = db_used (m_buffer tmp)"
  using assms(1,3)
proof (induction "length (msg_view tmp)" arbitrary: tmp acc rule: less_induct)
  case less
  let ?v = "msg_view tmp"
  show ?case
  proof (cases "partial_frame ?v")
    case True
    then show ?thesis
      using less.prems drain_stop[OF partial_incomplete] by (simp add: split_partial)
  next
    case False
    let ?f = "(header_of ?v, take (unat (hdr_size ?v)) (drop 12 ?v))" and ?rest = "drop (12 + unat (hdr_size ?v)) ?v"
    have view: "?v = frame_bytes ?f @ ?rest"
      by (simp add: frame_at_front[OF False])
    obtain t where t: "extract_message mk tmp = (Inr (frame_message mk ?f), t)" "msg_wf t" "msg_view t = ?rest"
        "db_used (m_buffer t) = db_used (m_buffer tmp)"
      using extract_frame[OF less.prems(1) view assms(2)] by blast
    have "length (msg_view t) < length ?v"
      using False unfolding t(3) length_drop partial_frame_def by linarith
    moreover have "honest (msg_view t)"
      using less.prems(2) by (simp add: t(3) honest_rest[OF False])
    ultimately obtain u where "drain mk t (acc @ [frame_message mk ?f]) =
        Some (Inr (), (acc @ [frame_message mk ?f]) @ map (frame_message mk) (whole_frames ?rest), u)"
        "msg_wf u" "msg_view u = left_over ?rest" "db_used (m_buffer u) = db_used (m_buffer t)"
      using less.hyps[of t "acc @ [frame_message mk ?f]"] t(2,3) by auto
    then show ?thesis
      using drain_next[OF isComplet_frame[OF less.prems(1) view] t(1)] t(4) by (simp add: split_more[OF False])
  qed
qed

end
