(* ===== verification/Sessions.thy ===== *)
theory Sessions
  imports Server Frame_Parser
begin

text \<open>
  What a server does for its clients, told without sockets, descriptor sets and buffers: who is connected under
  which identifier, which identifier is next, and which messages wait for their actions. A round of \<open>update\<close>
  visits the readable descriptors from the lowest up. The listening socket admits a client, a client's descriptor
  brings the messages that each of its chunks holds whole (\<open>Frame_Parser\<close>), and a client that has left is forgotten.
  \<open>sv_update\<close> refines this description, for clients that come, send and leave in any order.
\<close>

section \<open>Messages on the way\<close>

definition frame_of :: "message \<Rightarrow> frame" where
  "frame_of m = (m_type m, msg_view m)"

lemma arrived_view: "msg_view (frame_message mk (frame_of m)) = msg_view m"
  by (simp add: frame_message_def frame_of_def msg_view_def db_view_def)

lemma arrived_wf: "msg_wf m \<Longrightarrow> msg_wf (frame_message mk (frame_of m))"
  by (auto simp: frame_message_def frame_of_def msg_wf_def db_wf_def msg_view_def db_view_def vbounded_def)

text \<open>A message as the server queues it.\<close>

definition queued :: "int \<times> frame \<Rightarrow> message" where
  "queued p = frame_message (sv_newMsg (fst p)) (snd p)"

lemma queued_fields [simp]: "m_fd (queued p) = Some (fst p)" "m_type (queued p) = fst (snd p)"
  by (simp_all add: queued_def frame_message_def sv_newMsg_def msg_setMessageFd_def msg_fd_typed_def)

lemma frame_of_queued [simp]: "frame_of (queued p) = snd p"
  by (cases "snd p") (simp add: frame_of_def, simp add: queued_def frame_message_def msg_view_def db_view_def)

lemma queued_wf: "vbounded (snd (snd p)) \<Longrightarrow> msg_wf (queued p)"
  by (simp add: queued_def frame_message_def msg_wf_def db_wf_def)

text \<open>What a receive loop takes from its chunks.\<close>

definition frames_in :: "byte list list \<Rightarrow> frame list" where
  "frames_in chs = concat (map whole_frames chs)"

lemma recv_chunks:
  assumes "sv_wf s" and "\<forall>ch \<in> set chs. vbounded ch \<and> honest ch"
  shows "\<exists>s' P. sv_recv_loop fd chs s = Some (Inr (), s') \<and> sv_wf s' \<and>
    s' = s\<lparr>sv_msgs := sv_msgs s @ map (\<lambda>f. queued (fd, f)) (frames_in chs), sv_partialMsgs := P\<rparr>"
  using assms
proof (induction chs arbitrary: s)
  case Nil
  then show ?case by (intro exI[of _ s] exI[of _ "sv_partialMsgs s"]) (simp add: frames_in_def)
next
  case (Cons ch chs)
  have "length ch < 2 ^ 63" and ch: "honest ch"
    using Cons.prems(2) by (simp_all add: vbounded_def)
  from Cons.prems(1) this(1) obtain p where p: "msg_appendBytes
      (case sv_partialMsgs s fd of None \<Rightarrow> msg_default | Some m \<Rightarrow> m) (Some ch) (vsize ch) = Inr p"
      "msg_wf p" "msg_view p = ch"
    by (rule partial_append)
  obtain q where q: "drain (sv_newMsg fd) p (sv_msgs s) =
      Some (Inr (), sv_msgs s @ map (frame_message (sv_newMsg fd)) (whole_frames ch), q)"
    using drain_split[OF p(2) fresh_newMsg] p(3) ch by blast
  let ?s = "s\<lparr>sv_msgs := sv_msgs s @ map (frame_message (sv_newMsg fd)) (whole_frames ch),
    sv_partialMsgs := (sv_partialMsgs s)(fd \<mapsto> q\<lparr>m_buffer := db_clear (m_buffer q)\<rparr>)\<rparr>"
  have "sv_recv_loop fd (ch # chs) s = sv_recv_loop fd chs ?s"
    using p(1) q by (simp add: Let_def)
  moreover have "sv_wf ?s"
    using Cons.prems(1) cleared_empty by (rule received_wf)
  ultimately show ?case
    using Cons.IH[of ?s] Cons.prems(2) by (auto simp: frames_in_def queued_def)
qed

text \<open>A chunk that holds some messages and nothing else.\<close>

definition chunk_of :: "message list \<Rightarrow> byte list" where
  "chunk_of ms = concat (map (\<lambda>m. frame_bytes (frame_of m)) ms)"

lemma chunk_stream: "chunk_of ms = stream_bytes (map frame_of ms)"
  by (simp add: chunk_of_def stream_bytes_def comp_def)

lemma frame_of_bounded: "msg_wf m \<Longrightarrow> vbounded (snd (frame_of m))"
  by (auto simp: frame_of_def msg_wf_def db_wf_def msg_view_def db_view_def vbounded_def)

lemma split_chunk: "\<forall>m \<in> set ms. msg_wf m \<Longrightarrow> split_frames (chunk_of ms) = (map frame_of ms, [])"
  using split_stream[of "map frame_of ms" "[]"]
  by (simp add: chunk_stream frame_of_bounded split_partial partial_frame_def)

lemma frames_in_chunks:
  "\<forall>ms \<in> set mss. \<forall>m \<in> set ms. msg_wf m \<Longrightarrow> frames_in (map chunk_of mss) = map frame_of (concat mss)"
  by (induction mss) (simp_all add: frames_in_def split_chunk)

lemma chunk_honest: "\<forall>m \<in> set ms. msg_wf m \<Longrightarrow> honest (chunk_of ms)"
  by (simp add: honest_def split_chunk)

section \<open>The abstract server\<close>

record session =
  ses_clients :: "int \<Rightarrow> int option"
  ses_next :: int
  ses_queue :: "message list"

definition leaves :: "recv_end \<Rightarrow> bool" where
  "leaves e = (case e of RClosed \<Rightarrow> True | RError err \<Rightarrow> \<not> would_block err)"

definition serve_fd :: "int \<Rightarrow> sel_round \<Rightarrow> int \<Rightarrow> session \<Rightarrow> session" where
  "serve_fd sock d fd r =
     (if fd = sock
      then (if 0 \<le> sr_accept d \<and> card (dom (ses_clients r)) < NB_CONNECTION
            then r\<lparr>ses_clients := (ses_clients r)(sr_accept d \<mapsto> ses_next r), ses_next := ses_next r + 1\<rparr>
            else r)
      else case ses_clients r fd of
        None \<Rightarrow> r
      | Some _ \<Rightarrow>
          r\<lparr>ses_queue := ses_queue r @ map (\<lambda>f. queued (fd, f)) (frames_in (fst (sr_recv d fd))),
            ses_clients := (if leaves (snd (sr_recv d fd)) then (ses_clients r)(fd := None) else ses_clients r)\<rparr>)"

text \<open>
  The descriptors of a round by ascending number. A client admitted in it is visited in the same round
  if its descriptor is above that of the socket; \<open>serve_fd\<close> skips it otherwise.
\<close>

definition visits :: "sel_round \<Rightarrow> int \<Rightarrow> int list" where
  "visits d a = sorted_list_of_set {fd \<in> insert (sr_accept d) (sr_ready d). a \<le> fd}"

definition session_round :: "int \<Rightarrow> sel_round \<Rightarrow> session \<Rightarrow> session" where
  "session_round sock d r = fold (serve_fd sock d) (visits d 0) r"

text \<open>
  What is asked of a round: only connected clients and the socket are readable, \<^verbatim>\<open>accept\<close> returns a descriptor
  that no client has and that fits the descriptor sets, the counter of identifiers has not reached its end,
  and no chunk holds a header whose size makes the test of completeness wrap.
\<close>

definition round_ok :: "int \<Rightarrow> session \<Rightarrow> sel_round \<Rightarrow> bool" where
  "round_ok sock r d \<longleftrightarrow> finite (sr_ready d) \<and> sr_ready d \<subseteq> insert sock (dom (ses_clients r)) \<and>
     ses_clients r (sr_accept d) = None \<and> sr_accept d < FD_SETSIZE \<and>
     (0 \<le> sr_accept d \<longrightarrow> sr_accept d \<noteq> sock \<and> (sock \<in> sr_ready d \<longrightarrow> ses_next r < INT_MAX)) \<and>
     (\<forall>fd \<in> insert (sr_accept d) (sr_ready d). 0 \<le> fd \<longrightarrow> (\<forall>ch \<in> set (fst (sr_recv d fd)). vbounded ch \<and> honest ch))"

fun sessions_ok :: "int \<Rightarrow> sel_round list \<Rightarrow> session \<Rightarrow> bool" where
  "sessions_ok sock [] r = True"
| "sessions_ok sock (d # ds) r = (round_ok sock r d \<and> sessions_ok sock ds (session_round sock d r))"

section \<open>The order of the visits\<close>

lemma visits_step:
  assumes "finite (sr_ready d)"
  shows "visits d a = (if a \<in> insert (sr_accept d) (sr_ready d) then [a] else []) @ visits d (a + 1)"
proof -
  let ?S = "insert (sr_accept d) (sr_ready d)"
  have split: "{fd \<in> ?S. a \<le> fd} = (if a \<in> ?S then insert a {fd \<in> ?S. a + 1 \<le> fd} else {fd \<in> ?S. a + 1 \<le> fd})"
    by (auto simp: order_le_less)
  have fin: "finite {fd \<in> ?S. a + 1 \<le> fd}"
    using assms by simp
  show ?thesis
    unfolding visits_def split using fin by (subst if_distrib) (simp add: insort_is_Cons)
qed

lemma in_visits: "finite (sr_ready d) \<Longrightarrow> fd \<in> set (visits d a) \<longleftrightarrow> fd \<in> insert (sr_accept d) (sr_ready d) \<and> a \<le> fd"
  by (auto simp: visits_def)

lemma visit_stranger: "fd \<noteq> sock \<Longrightarrow> ses_clients r fd = None \<Longrightarrow> serve_fd sock d fd r = r"
  by (simp add: serve_fd_def)

lemma visit_strangers: "\<forall>fd \<in> set fds. fd \<noteq> sock \<and> ses_clients r fd = None \<Longrightarrow> fold (serve_fd sock d) fds r = r"
  by (induction fds) (simp_all add: visit_stranger)

section \<open>One scan of the server\<close>

definition session_of :: "'cb server \<Rightarrow> session" where
  "session_of s = \<lparr>ses_clients = sv_clients s, ses_next = sv_next_id s, ses_queue = sv_msgs s\<rparr>"

lemma session_of_sel [simp]:
  "ses_clients (session_of s) = sv_clients s" "ses_next (session_of s) = sv_next_id s"
  "ses_queue (session_of s) = sv_msgs s"
  by (simp_all add: session_of_def)

lemma session_of_frame [simp]:
  "session_of (s\<lparr>sv_readyRead := x\<rparr>) = session_of s" "session_of (s\<lparr>sv_running := b\<rparr>) = session_of s"
  by (simp_all add: session_of_def)

text \<open>What a scan does not touch.\<close>

definition same_setup :: "'cb server \<Rightarrow> 'cb server \<Rightarrow> bool" where
  "same_setup s t \<longleftrightarrow> sv_socket t = sv_socket s \<and> sv_tasks t = sv_tasks s \<and> sv_running t = sv_running s \<and>
     sv_max_fd s \<le> sv_max_fd t"

lemma same_setup_trans: "same_setup s t \<Longrightarrow> same_setup t u \<Longrightarrow> same_setup s u"
  by (simp add: same_setup_def)

text \<open>What holds when the scan has reached the descriptor \<open>a\<close>.\<close>

definition scanning :: "int \<Rightarrow> sel_round \<Rightarrow> int \<Rightarrow> 'cb server \<Rightarrow> bool" where
  "scanning sock d a s \<longleftrightarrow> sv_wf s \<and> sv_socket s = sock \<and> sv_max_fd s < FD_SETSIZE \<and>
     (sock \<in> sr_ready d \<longrightarrow> sock \<le> sv_max_fd s) \<and>
     (\<forall>x \<ge> a. x \<noteq> sock \<longrightarrow> (x \<in> sv_readyRead s \<longleftrightarrow> x \<in> insert (sr_accept d) (sr_ready d) \<and> x \<in> dom (sv_clients s))) \<and>
     (a \<le> sock \<longrightarrow> (sock \<in> sv_readyRead s \<longleftrightarrow> sock \<in> sr_ready d)) \<and>
     (a \<le> sock \<longrightarrow> sock \<in> sr_ready d \<longrightarrow> 0 \<le> sr_accept d \<longrightarrow>
        sv_clients s (sr_accept d) = None \<and> sv_next_id s < INT_MAX)"

lemma accept_eq:
  assumes "sv_next_id s < INT_MAX" and "k < FD_SETSIZE"
  shows "sv_acceptNewConnection k s = Inr
    (if k < 0 then s
     else if card (dom (sv_clients s)) \<ge> NB_CONNECTION then s\<lparr>sv_closed := k # sv_closed s\<rparr>
     else s\<lparr>sv_max_fd := max (sv_max_fd s) k, sv_active := insert k (sv_active s),
       sv_readyRead := insert k (sv_readyRead s), sv_clients := (sv_clients s)(k \<mapsto> sv_next_id s),
       sv_clientsToFd := (sv_clientsToFd s)(sv_next_id s \<mapsto> k), sv_next_id := sv_next_id s + 1\<rparr>)"
  using assms by (simp add: sv_acceptNewConnection_def FD_SET_def fd_ok_def max_def Let_def)

lemma accept_step:
  assumes "scanning sock d a s" and "a = sock" and "a \<in> sr_ready d" and "0 \<le> a"
    and "sr_accept d < FD_SETSIZE" and "0 \<le> sr_accept d \<longrightarrow> sr_accept d \<noteq> sock"
  shows "\<exists>t. sv_scan d a s = sv_scan d (a + 1) t \<and>
    session_of t = serve_fd sock d a (session_of s) \<and> scanning sock d (a + 1) t \<and> same_setup s t"
proof -
  let ?k = "sr_accept d"
  have s: "sv_wf s" "sv_socket s = sock" "sv_max_fd s < FD_SETSIZE" "a \<le> sv_max_fd s" "a \<in> sv_readyRead s"
      "0 \<le> ?k \<longrightarrow> sv_clients s ?k = None \<and> sv_next_id s < INT_MAX"
    and ready: "\<And>x. a \<le> x \<Longrightarrow> x \<noteq> sock \<Longrightarrow>
      x \<in> sv_readyRead s \<longleftrightarrow> x \<in> insert ?k (sr_ready d) \<and> x \<in> dom (sv_clients s)"
    using assms(1-3) by (auto simp: scanning_def)
  obtain t where t: "sv_acceptNewConnection ?k s = Inr t" "t = (if ?k < 0 then s
     else if card (dom (sv_clients s)) \<ge> NB_CONNECTION then s\<lparr>sv_closed := ?k # sv_closed s\<rparr>
     else s\<lparr>sv_max_fd := max (sv_max_fd s) ?k, sv_active := insert ?k (sv_active s),
       sv_readyRead := insert ?k (sv_readyRead s), sv_clients := (sv_clients s)(?k \<mapsto> sv_next_id s),
       sv_clientsToFd := (sv_clientsToFd s)(sv_next_id s \<mapsto> ?k), sv_next_id := sv_next_id s + 1\<rparr>)"
    using accept_eq[of s ?k] s(6) assms(5) by (cases "?k < 0") (auto simp: sv_acceptNewConnection_def)
  have "sv_wf t"
  proof (cases "?k < 0")
    case True
    then show ?thesis using s(1) t(2) by simp
  next
    case False
    then show ?thesis using accept_wf[OF s(1) _ t(1)] s(6) by simp
  qed
  moreover have "sv_scan d a s = sv_scan d (a + 1) t"
    using s(2-5) assms(2,4) t(1)
    by (subst sv_scan.simps) (simp add: FD_ISSET_def fd_ok_def)
  moreover have "session_of t = serve_fd sock d a (session_of s)"
    using assms(2) by (auto simp: t(2) serve_fd_def session_of_def)
  moreover have "scanning sock d (a + 1) t"
    using \<open>sv_wf t\<close> s assms ready by (auto simp: scanning_def t(2))
  moreover have "same_setup s t"
    by (simp add: same_setup_def t(2))
  ultimately show ?thesis
    by blast
qed

lemma drop_client:
  assumes "sv_wf s" and "sv_clients s a = Some i"
  obtains t where "sv_clearClient False a s = Inr t" and "sv_wf (t\<lparr>sv_partialMsgs := (sv_partialMsgs t)(a := None)\<rparr>)"
    and "sv_clients t = (sv_clients s)(a := None)" and "sv_msgs t = sv_msgs s" and "sv_next_id t = sv_next_id s"
    and "sv_readyRead t = sv_readyRead s" and "sv_max_fd t = sv_max_fd s" and "same_setup s t"
proof -
  obtain t where t: "sv_clearClient False a s = Inr t"
    using clearClient_ok[OF assms(1)] by blast
  have "sv_wf (t\<lparr>sv_partialMsgs := (sv_partialMsgs t)(a := None)\<rparr>)"
    using clearClient_wf[OF assms(1) t] by (rule erase_partial_wf)
  then show thesis
    using t by (intro that[OF t]) (auto simp: clearClient_eq[OF assms] same_setup_def)
qed

lemma client_step:
  assumes "scanning sock d a s" and "a \<noteq> sock" and "a \<in> sv_readyRead s" and "0 \<le> a" and "a \<le> sv_max_fd s"
    and "\<forall>ch \<in> set (fst (sr_recv d a)). vbounded ch \<and> honest ch"
  shows "\<exists>t. sv_scan d a s = sv_scan d (a + 1) t \<and>
    session_of t = serve_fd sock d a (session_of s) \<and> scanning sock d (a + 1) t \<and> same_setup s t"
proof -
  have s: "sv_wf s" "sv_socket s = sock" "sv_max_fd s < FD_SETSIZE"
    and client: "a \<in> dom (sv_clients s)"
    using assms(1-3) by (auto simp: scanning_def)
  obtain u P where u: "sv_recv_loop a (fst (sr_recv d a)) s = Some (Inr (), u)" "sv_wf u"
      "u = s\<lparr>sv_msgs := sv_msgs s @ map (\<lambda>f. queued (a, f)) (frames_in (fst (sr_recv d a))), sv_partialMsgs := P\<rparr>"
    using recv_chunks[OF s(1) assms(6), of a] by blast
  have msgs: "sv_msgs u = sv_msgs s @ map (\<lambda>f. queued (a, f)) (frames_in (fst (sr_recv d a)))"
    by (simp add: u(3))
  have got: "sv_receiveClientMsg a (sr_recv d a) s = Some (Inr (\<not> leaves (snd (sr_recv d a))), u)"
    using u(1) assms(3-5) s(3)
    by (simp add: sv_receiveClientMsg_def FD_ISSET_def fd_ok_def leaves_def split: recv_end.split)
  show ?thesis
  proof (cases "leaves (snd (sr_recv d a))")
    case False
    have "sv_scan d a s = sv_scan d (a + 1) u"
      using got assms(2-5) s(2,3) False by (subst sv_scan.simps) (simp add: FD_ISSET_def fd_ok_def)
    moreover have "session_of u = serve_fd sock d a (session_of s)"
      using client msgs False assms(2) by (auto simp: serve_fd_def session_of_def u(3))
    moreover have "scanning sock d (a + 1) u" "same_setup s u"
      using assms(1) u(2) by (auto simp: scanning_def same_setup_def u(3))
    ultimately show ?thesis by blast
  next
    case True
    obtain i where i: "sv_clients u a = Some i"
      using client by (auto simp: u(3))
    obtain t where t: "sv_clearClient False a u = Inr t" "sv_wf (t\<lparr>sv_partialMsgs := (sv_partialMsgs t)(a := None)\<rparr>)"
        "sv_clients t = (sv_clients u)(a := None)" "sv_msgs t = sv_msgs u" "sv_next_id t = sv_next_id u"
        "sv_readyRead t = sv_readyRead u" "sv_max_fd t = sv_max_fd u" "same_setup u t"
      using drop_client[OF u(2) i] .
    let ?t = "t\<lparr>sv_partialMsgs := (sv_partialMsgs t)(a := None)\<rparr>"
    have "sv_scan d a s = sv_scan d (a + 1) ?t"
      using got assms(2-5) s(2,3) True t(1) by (subst sv_scan.simps) (simp add: FD_ISSET_def fd_ok_def)
    moreover have "session_of ?t = serve_fd sock d a (session_of s)"
      using client msgs True assms(2) t(3-5) by (auto simp: serve_fd_def session_of_def u(3))
    moreover have "same_setup s ?t"
      using t(8) by (simp add: same_setup_def u(3))
    moreover have "scanning sock d (a + 1) ?t"
      using assms(1) t u(3) by (auto simp: scanning_def same_setup_def)
    ultimately show ?thesis by blast
  qed
qed

text \<open>Nobody beyond the highest descriptor is served.\<close>

lemma scan_stop:
  assumes "scanning sock d a s" and "0 \<le> a" and "\<not> a \<le> sv_max_fd s" and "finite (sr_ready d)"
    and "0 \<le> sr_accept d \<longrightarrow> sr_accept d \<noteq> sock"
  shows "fold (serve_fd sock d) (visits d a) (session_of s) = session_of s"
proof (rule visit_strangers, intro ballI conjI)
  fix x assume "x \<in> set (visits d a)"
  then have x: "x \<in> insert (sr_accept d) (sr_ready d)" "a \<le> x"
    using assms(4) by (auto simp: in_visits)
  have s: "sv_wf s" "sock \<in> sr_ready d \<longrightarrow> sock \<le> sv_max_fd s"
    using assms(1) by (auto simp: scanning_def)
  then show "x \<noteq> sock"
    using x assms(2,3,5) by auto
  show "ses_clients (session_of s) x = None"
  proof (rule ccontr)
    assume "ses_clients (session_of s) x \<noteq> None"
    then have "x \<le> sv_max_fd s"
      using sv_wfD(3)[OF s(1)] by (auto simp: sv_watched_def)
    with assms(3) x(2) show False by simp
  qed
qed

text \<open>One step of the scan, whatever the descriptor is.\<close>

lemma scan_one:
  assumes "scanning sock d a s" and "0 \<le> a" and "a \<le> sv_max_fd s" and "sr_accept d < FD_SETSIZE"
    and "0 \<le> sr_accept d \<longrightarrow> sr_accept d \<noteq> sock"
    and "\<forall>fd \<in> insert (sr_accept d) (sr_ready d). 0 \<le> fd \<longrightarrow> (\<forall>ch \<in> set (fst (sr_recv d fd)). vbounded ch \<and> honest ch)"
  shows "\<exists>t. sv_scan d a s = sv_scan d (a + 1) t \<and> session_of t =
      (if a \<in> insert (sr_accept d) (sr_ready d) then serve_fd sock d a (session_of s) else session_of s) \<and>
    scanning sock d (a + 1) t \<and> same_setup s t"
proof -
  let ?S = "insert (sr_accept d) (sr_ready d)"
  have s: "sv_max_fd s < FD_SETSIZE"
    and ready: "a \<noteq> sock \<Longrightarrow> a \<in> sv_readyRead s \<longleftrightarrow> a \<in> ?S \<and> a \<in> dom (sv_clients s)"
    and sock: "a \<le> sock \<longrightarrow> (sock \<in> sv_readyRead s \<longleftrightarrow> sock \<in> sr_ready d)"
    using assms(1) by (auto simp: scanning_def)
  consider "a \<notin> sv_readyRead s" | "a = sock" "a \<in> sv_readyRead s" | "a \<noteq> sock" "a \<in> sv_readyRead s"
    by blast
  then show ?thesis
  proof cases
    case 1
    have "sv_scan d a s = sv_scan d (a + 1) s"
      using 1 assms(2,3) s by (subst sv_scan.simps) (simp add: FD_ISSET_def fd_ok_def)
    moreover have "serve_fd sock d a (session_of s) = session_of s" if "a \<in> ?S"
      using that 1 ready sock assms(2,5) by (intro visit_stranger) auto
    moreover have "scanning sock d (a + 1) s" "same_setup s s"
      using assms(1) by (auto simp: scanning_def same_setup_def)
    ultimately show ?thesis by (intro exI[of _ s]) simp
  next
    case 2
    then have "a \<in> sr_ready d" using sock by simp
    then show ?thesis
      using accept_step[OF assms(1) 2(1) _ assms(2,4,5)] by simp
  next
    case 3
    then have S: "a \<in> ?S" using ready by simp
    from client_step[OF assms(1) 3 assms(2,3) mp[OF bspec[OF assms(6) S] assms(2)]] S show ?thesis by simp
  qed
qed

lemma scan_visits:
  assumes "scanning sock d a s" and "0 \<le> a" and "finite (sr_ready d)" and "sr_accept d < FD_SETSIZE"
    and "0 \<le> sr_accept d \<longrightarrow> sr_accept d \<noteq> sock"
    and "\<forall>fd \<in> insert (sr_accept d) (sr_ready d). 0 \<le> fd \<longrightarrow> (\<forall>ch \<in> set (fst (sr_recv d fd)). vbounded ch \<and> honest ch)"
  shows "\<exists>t. sv_scan d a s = Some (Inr (), t) \<and>
    session_of t = fold (serve_fd sock d) (visits d a) (session_of s) \<and> sv_wf t \<and> sv_max_fd t < FD_SETSIZE \<and>
    same_setup s t"
  using assms(1,2)
proof (induction "nat (FD_SETSIZE - a)" arbitrary: a s rule: less_induct)
  case less
  have s: "sv_wf s" "sv_max_fd s < FD_SETSIZE"
    using less.prems(1) by (auto simp: scanning_def)
  show ?case
  proof (cases "a \<le> sv_max_fd s")
    case False
    with s scan_stop[OF less.prems False assms(3,5)] show ?thesis
      by (simp add: sv_scan.simps same_setup_def)
  next
    case True
    obtain t where t: "sv_scan d a s = sv_scan d (a + 1) t" "session_of t =
          (if a \<in> insert (sr_accept d) (sr_ready d) then serve_fd sock d a (session_of s) else session_of s)"
        "scanning sock d (a + 1) t" "same_setup s t"
      using scan_one[OF less.prems True assms(4-6)] by blast
    have "nat (FD_SETSIZE - (a + 1)) < nat (FD_SETSIZE - a)"
      using True s(2) by simp
    from less.hyps[OF this t(3)] less.prems(2) obtain u where
      u: "sv_scan d (a + 1) t = Some (Inr (), u)"
        "session_of u = fold (serve_fd sock d) (visits d (a + 1)) (session_of t)" "sv_wf u" "sv_max_fd u < FD_SETSIZE"
        "same_setup t u" by auto
    have "session_of u = fold (serve_fd sock d) (visits d a) (session_of s)"
      using u(2) t(2) by (subst visits_step[OF assms(3)]) simp
    with t(1) u same_setup_trans[OF t(4) u(5)] show ?thesis by auto
  qed
qed

section \<open>Rounds\<close>

lemma round_scanning:
  assumes "sv_wf s" and "sv_max_fd s < FD_SETSIZE" and "sv_socket s \<in> sr_ready d \<longrightarrow> sv_socket s \<le> sv_max_fd s"
    and "round_ok (sv_socket s) (session_of s) d"
  shows "scanning (sv_socket s) d 0 (s\<lparr>sv_readyRead := sr_ready d\<rparr>)"
  using assms by (auto simp: scanning_def round_ok_def dest: sv_wfD(3))

lemma round_refines:
  assumes "sv_wf s" and "sv_max_fd s < FD_SETSIZE" and "sv_socket s \<in> sr_ready d \<longrightarrow> sv_socket s \<le> sv_max_fd s"
    and "round_ok (sv_socket s) (session_of s) d"
  shows "\<exists>t. sv_scan d 0 (s\<lparr>sv_readyRead := sr_ready d\<rparr>) = Some (Inr (), t) \<and>
    session_of t = session_round (sv_socket s) d (session_of s) \<and> sv_wf t \<and> sv_max_fd t < FD_SETSIZE \<and> same_setup s t"
  using scan_visits[OF round_scanning[OF assms]] assms(4)
  by (auto simp: round_ok_def session_round_def same_setup_def)

lemma poll_refines:
  assumes "sv_wf s" and "sv_max_fd s < FD_SETSIZE"
    and "\<forall>d \<in> set ds. sv_socket s \<in> sr_ready d \<longrightarrow> sv_socket s \<le> sv_max_fd s"
    and "sessions_ok (sv_socket s) ds (session_of s)"
  shows "\<exists>t. sv_poll ds lst s = sv_poll [] lst t \<and>
    session_of t = fold (session_round (sv_socket s)) ds (session_of s) \<and> sv_wf t \<and> sv_max_fd t < FD_SETSIZE \<and>
    same_setup s t"
  using assms
proof (induction ds arbitrary: s)
  case Nil
  then show ?case
    by (intro exI[of _ s]) (simp add: same_setup_def del: sv_poll.simps)
next
  case (Cons d ds)
  obtain t where t: "sv_scan d 0 (s\<lparr>sv_readyRead := sr_ready d\<rparr>) = Some (Inr (), t)"
      "session_of t = session_round (sv_socket s) d (session_of s)" "sv_wf t" "sv_max_fd t < FD_SETSIZE" "same_setup s t"
    using round_refines[OF Cons.prems(1,2), of d] Cons.prems(3,4) by auto
  have fixed: "sv_socket t = sv_socket s" "sv_max_fd s \<le> sv_max_fd t"
    using t(5) by (simp_all add: same_setup_def)
  have "\<exists>u. sv_poll ds lst t = sv_poll [] lst u \<and>
      session_of u = fold (session_round (sv_socket t)) ds (session_of t) \<and> sv_wf u \<and> sv_max_fd u < FD_SETSIZE \<and>
      same_setup t u"
    using t(2-4) fixed Cons.prems(3,4) by (intro Cons.IH) auto
  moreover have "sv_poll (d # ds) lst s = sv_poll ds lst t"
    using t(1) by simp
  ultimately show ?case
    using t(2,5) fixed(1) same_setup_trans[OF t(5)] by fastforce
qed

section \<open>Actions\<close>

text \<open>Actions that do not throw and only use the message and the identifier of the client.\<close>

definition passive_run ::
  "('cb \<Rightarrow> int \<Rightarrow> message \<Rightarrow> 'w \<Rightarrow> 'w) \<Rightarrow> 'cb \<Rightarrow> int \<Rightarrow> nat \<Rightarrow> 'cb server \<times> 'w \<Rightarrow> unit res \<times> 'cb server \<times> 'w" where
  "passive_run eff f i k sw = (Inr (), fst sw, eff f i (sv_msgs (fst sw) ! k) (snd sw))"

text \<open>The effect a queued message owes: its task, with the identifier of the client that has its descriptor.\<close>

definition owed ::
  "('cb \<Rightarrow> int \<Rightarrow> message \<Rightarrow> 'w \<Rightarrow> 'w) \<Rightarrow> (cint \<Rightarrow> 'cb option) \<Rightarrow> (int \<Rightarrow> int option) \<Rightarrow> message \<Rightarrow> 'w \<Rightarrow> 'w" where
  "owed eff tasks clients m w =
     (case (tasks (m_type m), Option.bind (m_fd m) clients) of
        (Some task, Some i) \<Rightarrow> eff task i m w
      | _ \<Rightarrow> w)"

lemma dispatch_quiet:
  assumes "\<forall>m \<in> set (sv_msgs s). m_fd m \<noteq> None"
    and "\<And>task i k w. k < length (sv_msgs s) \<Longrightarrow> run task i k (s, w) = (Inr (), s, eff task i (sv_msgs s ! k) w)"
  shows "sv_dispatch run k (s, w) =
    Some (Inr (), s\<lparr>sv_msgs := []\<rparr>, fold (owed eff (sv_tasks s) (sv_clients s)) (drop k (sv_msgs s)) w)"
proof (induction "length (sv_msgs s) - k" arbitrary: k w)
  case 0
  then show ?case by (simp add: dispatch_end)
next
  case (Suc n)
  let ?m = "sv_msgs s ! k"
  have k: "k < length (sv_msgs s)" using Suc.hyps(2) by simp
  then obtain fd where fd: "m_fd ?m = Some fd"
    using assms(1) nth_mem by fastforce
  have "sv_dispatch run (Suc k) (s, v) =
      Some (Inr (), s\<lparr>sv_msgs := []\<rparr>, fold (owed eff (sv_tasks s) (sv_clients s)) (drop (Suc k) (sv_msgs s)) v)" for v
    using Suc.hyps by simp
  then show ?case
    using k fd assms(2)[OF k] by (subst sv_dispatch.simps)
      (auto simp: owed_def msg_getFd_def Cons_nth_drop_Suc[symmetric] split: option.split)
qed

lemma dispatch_passive:
  assumes "\<forall>m \<in> set (sv_msgs s). m_fd m \<noteq> None"
  shows "sv_dispatch (passive_run eff) k (s, w) =
    Some (Inr (), s\<lparr>sv_msgs := []\<rparr>, fold (owed eff (sv_tasks s) (sv_clients s)) (drop k (sv_msgs s)) w)"
  using assms by (rule dispatch_quiet) (simp add: passive_run_def)

lemma queue_emptied_wf: "sv_wf s \<Longrightarrow> sv_wf (s\<lparr>sv_msgs := []\<rparr>)"
  by (simp add: sv_wf_def sv_watched_def)

text \<open>One \<open>update\<close>: its rounds, and then the actions for what they have queued.\<close>

definition session_update ::
  "int \<Rightarrow> ('cb \<Rightarrow> int \<Rightarrow> message \<Rightarrow> 'w \<Rightarrow> 'w) \<Rightarrow> (cint \<Rightarrow> 'cb option) \<Rightarrow> sel_round list \<Rightarrow> session \<times> 'w \<Rightarrow> session \<times> 'w"
where
  "session_update sock eff tasks ds rw =
     (let r = fold (session_round sock) ds (fst rw)
      in (r\<lparr>ses_queue := []\<rparr>, fold (owed eff tasks (ses_clients r)) (ses_queue r) (snd rw)))"

lemma update_rounds:
  assumes "sv_wf s" and "sv_max_fd s < FD_SETSIZE"
    and "\<forall>d \<in> set ds. sv_socket s \<in> sr_ready d \<longrightarrow> sv_socket s \<le> sv_max_fd s"
    and "sessions_ok (sv_socket s) ds (session_of s)" and "sl_errno lst \<notin> {Some EBADF, Some EINTR}"
  obtains u where "sv_update run ds lst (s, w) = sv_dispatch run 0 (u, w)"
    and "session_of u = fold (session_round (sv_socket s)) ds (session_of s)" and "sv_wf u" and "sv_max_fd u < FD_SETSIZE"
    and "sv_socket u = sv_socket s" and "sv_tasks u = sv_tasks s" and "sv_max_fd s \<le> sv_max_fd u"
proof -
  let ?s = "s\<lparr>sv_running := True\<rparr>"
  obtain t where t: "sv_poll ds lst ?s = sv_poll [] lst t"
      "session_of t = fold (session_round (sv_socket s)) ds (session_of s)" "sv_wf t" "sv_max_fd t < FD_SETSIZE"
      "same_setup ?s t"
    using poll_refines[of ?s ds lst] assms(1-4) by (auto simp del: sv_poll.simps)
  show thesis
    using t assms(5)
    by (intro that[of "t\<lparr>sv_readyRead := sl_ready lst, sv_running := False\<rparr>"]) (simp_all add: sv_update_def same_setup_def)
qed

lemma update_refines:
  assumes "sv_wf s" and "sv_max_fd s < FD_SETSIZE"
    and "\<forall>d \<in> set ds. sv_socket s \<in> sr_ready d \<longrightarrow> sv_socket s \<le> sv_max_fd s"
    and "sessions_ok (sv_socket s) ds (session_of s)" and "sl_errno lst \<notin> {Some EBADF, Some EINTR}"
  shows "\<exists>t. sv_update (passive_run eff) ds lst (s, w) =
      Some (Inr (), t, snd (session_update (sv_socket s) eff (sv_tasks s) ds (session_of s, w))) \<and>
    session_of t = fst (session_update (sv_socket s) eff (sv_tasks s) ds (session_of s, w)) \<and>
    sv_wf t \<and> sv_max_fd t < FD_SETSIZE \<and> sv_socket t = sv_socket s \<and> sv_tasks t = sv_tasks s \<and>
    sv_max_fd s \<le> sv_max_fd t"
proof -
  let ?r = "fold (session_round (sv_socket s)) ds (session_of s)"
  obtain u where u: "sv_update (passive_run eff) ds lst (s, w) = sv_dispatch (passive_run eff) 0 (u, w)"
      "session_of u = ?r" "sv_wf u" "sv_max_fd u < FD_SETSIZE" "sv_socket u = sv_socket s" "sv_tasks u = sv_tasks s"
      "sv_max_fd s \<le> sv_max_fd u"
    using update_rounds[OF assms] .
  have sel: "sv_clients u = ses_clients ?r" "sv_msgs u = ses_queue ?r"
    by (simp_all flip: u(2))
  have "sv_dispatch (passive_run eff) 0 (u, w) = Some (Inr (), u\<lparr>sv_msgs := []\<rparr>,
      snd (session_update (sv_socket s) eff (sv_tasks s) ds (session_of s, w)))"
    using dispatch_passive[of u eff 0 w] sv_wfD(5)[OF u(3)] sel u(6) by (simp add: session_update_def Let_def)
  moreover have "session_of (u\<lparr>sv_msgs := []\<rparr>) = (session_of u)\<lparr>ses_queue := []\<rparr>"
    by (simp add: session_of_def)
  then have "session_of (u\<lparr>sv_msgs := []\<rparr>) = fst (session_update (sv_socket s) eff (sv_tasks s) ds (session_of s, w))"
    by (simp add: session_update_def Let_def u(2))
  ultimately show ?thesis
    using u queue_emptied_wf[OF u(3)] by (intro exI[of _ "u\<lparr>sv_msgs := []\<rparr>"]) simp
qed

text \<open>A program that calls \<open>update\<close> again and again.\<close>

fun sv_updates ::
  "('cb \<Rightarrow> int \<Rightarrow> nat \<Rightarrow> 'cb server \<times> 'w \<Rightarrow> unit res \<times> 'cb server \<times> 'w) \<Rightarrow> (sel_round list \<times> sel_last) list
     \<Rightarrow> 'cb server \<times> 'w \<Rightarrow> (unit res \<times> 'cb server \<times> 'w) option" where
  "sv_updates run [] sw = Some (Inr (), sw)"
| "sv_updates run (u # us) sw =
     (case sv_update run (fst u) (snd u) sw of
        Some (Inr _, sw') \<Rightarrow> sv_updates run us sw'
      | r \<Rightarrow> r)"

fun updates_ok :: "int \<Rightarrow> sel_round list list \<Rightarrow> session \<Rightarrow> bool" where
  "updates_ok sock [] r = True"
| "updates_ok sock (ds # dss) r =
     (sessions_ok sock ds r \<and> updates_ok sock dss ((fold (session_round sock) ds r)\<lparr>ses_queue := []\<rparr>))"

text \<open>
  C13. The server refines its session. Let clients connect, send any bytes and leave, in any order over any number of
  calls of \<open>update\<close> with any number of rounds each; only a header whose size is within 12 of \<open>2 ^ 64\<close> is excluded. The
  calls return, and they change who is connected, the identifiers and the queue, and run the actions, exactly as the
  abstract server does: in a round the descriptors are served from the lowest up, a client is admitted under the next
  identifier unless \<open>NB_CONNECTION\<close> are connected and may be served in the same round; of each chunk the whole messages
  at its front are queued and the rest is forgotten, also when the client then leaves; and after the rounds each
  message goes to the task of its type with the identifier of the client that has its descriptor then, if there is
  one. The invariant of the server holds afterwards.
\<close>

theorem server_refines_session:
  assumes "sv_wf s" and "sv_max_fd s < FD_SETSIZE" and "sv_socket s \<le> sv_max_fd s"
    and "updates_ok (sv_socket s) (map fst us) (session_of s)"
    and "\<forall>u \<in> set us. sl_errno (snd u) \<notin> {Some EBADF, Some EINTR}"
  shows "\<exists>t. sv_updates (passive_run eff) us (s, w) =
      Some (Inr (), t, snd (fold (session_update (sv_socket s) eff (sv_tasks s)) (map fst us) (session_of s, w))) \<and>
    session_of t = fst (fold (session_update (sv_socket s) eff (sv_tasks s)) (map fst us) (session_of s, w)) \<and>
    sv_wf t \<and> sv_socket t = sv_socket s \<and> sv_tasks t = sv_tasks s"
  using assms
proof (induction us arbitrary: s w)
  case Nil
  then show ?case by simp
next
  case (Cons u us)
  let ?rw = "session_update (sv_socket s) eff (sv_tasks s) (fst u) (session_of s, w)"
  obtain t where t: "sv_update (passive_run eff) (fst u) (snd u) (s, w) = Some (Inr (), t, snd ?rw)"
      "session_of t = fst ?rw" "sv_wf t" "sv_max_fd t < FD_SETSIZE" "sv_socket t = sv_socket s" "sv_tasks t = sv_tasks s"
      "sv_max_fd s \<le> sv_max_fd t"
    using update_refines[OF Cons.prems(1,2), of "fst u" "snd u" eff w] Cons.prems(3-5) by auto
  have "updates_ok (sv_socket t) (map fst us) (session_of t)"
    using Cons.prems(4) t(2,5) by (simp add: session_update_def Let_def)
  then have "\<exists>t'. sv_updates (passive_run eff) us (t, snd ?rw) =
      Some (Inr (), t', snd (fold (session_update (sv_socket t) eff (sv_tasks t)) (map fst us) (session_of t, snd ?rw))) \<and>
    session_of t' = fst (fold (session_update (sv_socket t) eff (sv_tasks t)) (map fst us) (session_of t, snd ?rw)) \<and>
    sv_wf t' \<and> sv_socket t' = sv_socket t \<and> sv_tasks t' = sv_tasks t"
    using t(3-5,7) Cons.prems(3,5) by (intro Cons.IH) auto
  then show ?case
    using t(1,2,5,6) by simp
qed

text \<open>A listening server with a task for messages of type 3.\<close>

definition listening_server :: "nat server" where
  "listening_server = sv_defineAction 3 9 ((sv_new [] 80)\<lparr>sv_socket := 3, sv_max_fd := 3, sv_active := {3}\<rparr>)"

lemma listening_server:
  "sv_wf listening_server" "sv_max_fd listening_server = 3" "sv_socket listening_server = 3"
  "sv_clients listening_server = (\<lambda>_. None)" "sv_msgs listening_server = []" "sv_next_id listening_server = 0"
  "sv_tasks listening_server = [3 \<mapsto> 9]"
  by (simp_all add: listening_server_def sv_defineAction_def sv_new_def sv_wf_def)

lemma one_client_server:
  obtains s :: "nat server" where "sv_wf s" and "sv_clients s = [5 \<mapsto> 0]" and "sv_max_fd s = 5" and "sv_socket s = 3"
    and "sv_msgs s = []" and "sv_next_id s = 1" and "sv_tasks s = [3 \<mapsto> 9]"
proof -
  obtain s :: "nat server" where s: "sv_acceptNewConnection 5 listening_server = Inr s" "sv_clients s = [5 \<mapsto> 0]"
      "sv_max_fd s = 5" "sv_socket s = 3" "sv_msgs s = []" "sv_next_id s = 1" "sv_tasks s = [3 \<mapsto> 9]"
    by (simp add: sv_acceptNewConnection_def listening_server NB_CONNECTION_def FD_SET_def fd_ok_def
        FD_SETSIZE_def INT_MAX_def Let_def)
  have "sv_wf s"
    using listening_server(1) _ s(1) by (rule accept_wf) (simp add: listening_server)
  with s that show thesis by simp
qed

lemma example_chunks:
  "split_frames (frame_bytes (3, [])) = ([(3, [])], [])"
  "split_frames (frame_bytes (3, []) @ [1, 2]) = ([(3, [])], [1, 2])"
  "honest (frame_bytes (3, []))" "honest (frame_bytes (3, []) @ [1, 2])"
  "vbounded (frame_bytes (3, []))" "vbounded (frame_bytes (3, []) @ [1, 2])"
  using split_frame[of "(3, [])" "[]"] split_frame[of "(3, [])" "[1, 2]"]
  by (simp_all add: vbounded_def split_partial partial_frame_def honest_def)

theorem server_refines_session_witness:
  "\<exists>t. sv_updates (passive_run (\<lambda>task i m w. w @ [(task, i, m_fd m)]))
      [([\<lparr>sr_ready = {3}, sr_accept = 5, sr_recv = (\<lambda>_. ([frame_bytes (3, [])], RError EAGAIN))\<rparr>],
          \<lparr>sl_ready = {}, sl_errno = None\<rparr>),
       ([\<lparr>sr_ready = {3, 5}, sr_accept = 6, sr_recv = (\<lambda>fd. if fd = 5 then ([frame_bytes (3, [])], RClosed)
            else ([frame_bytes (3, []) @ [1, 2], frame_bytes (3, [])], RError EAGAIN))\<rparr>],
          \<lparr>sl_ready = {}, sl_errno = None\<rparr>)] (listening_server, []) =
    Some (Inr (), t, [(9, 0, Some 5), (9, 1, Some 6), (9, 1, Some 6)]) \<and>
    session_of t = \<lparr>ses_clients = [6 \<mapsto> 1], ses_next = 2, ses_queue = []\<rparr>"
proof -
  let ?lst = "\<lparr>sl_ready = {}, sl_errno = None :: errno option\<rparr>" 
  let ?d = "\<lparr>sr_ready = {3}, sr_accept = 5, sr_recv = (\<lambda>_. ([frame_bytes (3, [])], RError EAGAIN))\<rparr>"
  let ?e = "\<lparr>sr_ready = {3, 5}, sr_accept = 6, sr_recv = (\<lambda>fd. if fd = 5 then ([frame_bytes (3, [])], RClosed)
    else ([frame_bytes (3, []) @ [1, 2], frame_bytes (3, [])], RError EAGAIN))\<rparr>"
  let ?us = "[([?d], ?lst), ([?e], ?lst)]" and ?note = "\<lambda>task i m w. w @ [(task, i, m_fd m)]"
  have v: "visits ?d 0 = [3, 5]" "visits ?e 0 = [3, 5, 6]"
  proof -
    have "{fd \<in> insert (sr_accept ?d) (sr_ready ?d). 0 \<le> fd} = {3, 5}"
      and "{fd \<in> insert (sr_accept ?e) (sr_ready ?e). 0 \<le> fd} = {3, 5, 6}" by auto
    then show "visits ?d 0 = [3, 5]" "visits ?e 0 = [3, 5, 6]"
      unfolding visits_def by simp_all
  qed
  have r1: "session_round 3 ?d (session_of listening_server) =
      \<lparr>ses_clients = [5 \<mapsto> 0], ses_next = 1, ses_queue = [queued (5, (3, []))]\<rparr>"
    unfolding session_round_def v
    by (simp add: serve_fd_def session_of_def listening_server NB_CONNECTION_def leaves_def would_block_def frames_in_def example_chunks)
  have r2: "session_round 3 ?e \<lparr>ses_clients = [5 \<mapsto> 0], ses_next = 1, ses_queue = []\<rparr> =
      \<lparr>ses_clients = [6 \<mapsto> 1], ses_next = 2,
       ses_queue = [queued (5, (3, [])), queued (6, (3, [])), queued (6, (3, []))]\<rparr>"
    unfolding session_round_def v
    by (auto simp: serve_fd_def NB_CONNECTION_def leaves_def would_block_def frames_in_def example_chunks)
  have ok: "updates_ok (sv_socket listening_server) (map fst ?us) (session_of listening_server)"
    using example_chunks
    by (simp add: listening_server r1 r2) (simp add: round_ok_def listening_server FD_SETSIZE_def INT_MAX_def)
  have pre: "sv_max_fd listening_server < FD_SETSIZE" "sv_socket listening_server \<le> sv_max_fd listening_server"
      "\<forall>u \<in> set ?us. sl_errno (snd u) \<notin> {Some EBADF, Some EINTR}"
    by (simp_all add: listening_server FD_SETSIZE_def)
  have run: "fold (session_update 3 ?note [3 \<mapsto> 9]) (map fst ?us) (session_of listening_server, []) =
      (\<lparr>ses_clients = [6 \<mapsto> 1], ses_next = 2, ses_queue = []\<rparr>, [(9, 0, Some 5), (9, 1, Some 6), (9, 1, Some 6)])"
    by (simp add: session_update_def r1 r2 owed_def)
  show ?thesis
    using server_refines_session[OF listening_server(1) pre(1,2) ok pre(3), of ?note "[]"]
    unfolding listening_server(3,7) run by auto
qed

section \<open>Whose messages are they?\<close>

text \<open>An identifier that its client has lost is never given out again.\<close>

definition gone :: "int \<Rightarrow> int \<Rightarrow> session \<Rightarrow> bool" where
  "gone fd i r \<longleftrightarrow> ses_clients r fd \<noteq> Some i \<and> i < ses_next r"

lemma visit_gone: "gone fd i r \<Longrightarrow> gone fd i (serve_fd sock d x r)"
  by (auto simp: gone_def serve_fd_def split: option.split)

lemma visits_gone: "gone fd i r \<Longrightarrow> gone fd i (fold (serve_fd sock d) xs r)"
  by (induction xs arbitrary: r) (simp_all add: visit_gone)

lemma rounds_gone: "gone fd i r \<Longrightarrow> gone fd i (fold (session_round sock) ds r)"
  by (induction ds arbitrary: r) (simp_all add: session_round_def visits_gone)

lemma visit_nxt: "ses_next r \<le> ses_next (serve_fd sock d x r)"
  by (simp add: serve_fd_def split: option.split)

lemma visits_nxt: "ses_next r \<le> ses_next (fold (serve_fd sock d) xs r)"
  by (induction xs arbitrary: r) (auto intro: order_trans[OF visit_nxt])

abbreviation from_fd :: "int \<Rightarrow> message list \<Rightarrow> message list" where
  "from_fd fd ms \<equiv> filter (\<lambda>m. m_fd m = Some fd) ms"

lemma from_fd_queued:
  "from_fd fd (map (\<lambda>f. queued (x, f)) fs) = (if x = fd then map (\<lambda>f. queued (fd, f)) fs else [])"
  by (induction fs) auto

lemma visit_from:
  assumes "fd \<noteq> sock" and "ses_clients r fd = Some i"
  shows "from_fd fd (ses_queue (serve_fd sock d x r)) =
    from_fd fd (ses_queue r) @ (if x = fd then map (\<lambda>f. queued (fd, f)) (frames_in (fst (sr_recv d fd))) else [])"
  using assms by (auto simp: serve_fd_def from_fd_queued split: option.split)

lemma visits_from:
  assumes "fd \<noteq> sock" and "distinct xs" and "ses_clients r fd = Some i" and "i < ses_next r"
    and "ses_clients (fold (serve_fd sock d) xs r) fd = Some i"
  shows "from_fd fd (ses_queue (fold (serve_fd sock d) xs r)) = from_fd fd (ses_queue r) @
    (if fd \<in> set xs then map (\<lambda>f. queued (fd, f)) (frames_in (fst (sr_recv d fd))) else [])"
  using assms(2-5)
proof (induction xs arbitrary: r)
  case (Cons x xs)
  let ?r = "serve_fd sock d x r"
  have nxt: "i < ses_next ?r"
    using Cons.prems(3) visit_nxt[of r sock d x] by simp
  then have "ses_clients ?r fd = Some i"
    using visits_gone[of fd i ?r sock d xs] Cons.prems(4) by (auto simp: gone_def)
  then have "from_fd fd (ses_queue (fold (serve_fd sock d) xs ?r)) = from_fd fd (ses_queue ?r) @
      (if fd \<in> set xs then map (\<lambda>f. queued (fd, f)) (frames_in (fst (sr_recv d fd))) else [])"
    using nxt Cons.prems(1,4) by (intro Cons.IH) simp_all
  then show ?case
    using Cons.prems(1) visit_from[OF assms(1) Cons.prems(2), of d x] by auto
qed simp

text \<open>What the server gets from a client in a sequence of rounds.\<close>

definition sent_by :: "int \<Rightarrow> sel_round list \<Rightarrow> frame list" where
  "sent_by fd ds = concat (map (\<lambda>d. if fd \<in> sr_ready d then frames_in (fst (sr_recv d fd)) else []) ds)"

lemma rounds_from:
  assumes "fd \<noteq> sock" and "0 \<le> fd" and "sessions_ok sock ds r" and "ses_clients r fd = Some i" and "i < ses_next r"
    and "ses_clients (fold (session_round sock) ds r) fd = Some i"
  shows "from_fd fd (ses_queue (fold (session_round sock) ds r)) =
    from_fd fd (ses_queue r) @ map (\<lambda>f. queued (fd, f)) (sent_by fd ds)"
  using assms(3-6)
proof (induction ds arbitrary: r)
  case (Cons d ds)
  let ?r = "session_round sock d r"
  have nxt: "i < ses_next ?r"
    using Cons.prems(3) visits_nxt[of r sock d "visits d 0"] by (simp add: session_round_def)
  then have clt: "ses_clients ?r fd = Some i"
    using rounds_gone[of fd i ?r sock ds] Cons.prems(4) by (auto simp: gone_def)
  have d: "finite (sr_ready d)" "sr_accept d \<noteq> fd"
    using Cons.prems(1,2) by (auto simp: round_ok_def)
  have "from_fd fd (ses_queue ?r) = from_fd fd (ses_queue r) @
      (if fd \<in> set (visits d 0) then map (\<lambda>f. queued (fd, f)) (frames_in (fst (sr_recv d fd))) else [])"
    unfolding session_round_def using Cons.prems(2,3) clt
    by (intro visits_from[OF assms(1)]) (simp_all add: session_round_def visits_def)
  then have "from_fd fd (ses_queue ?r) = from_fd fd (ses_queue r) @
      (if fd \<in> sr_ready d then map (\<lambda>f. queued (fd, f)) (frames_in (fst (sr_recv d fd))) else [])"
    using d assms(2) by (simp add: in_visits)
  moreover have "from_fd fd (ses_queue (fold (session_round sock) ds ?r)) =
      from_fd fd (ses_queue ?r) @ map (\<lambda>f. queued (fd, f)) (sent_by fd ds)"
    using Cons.prems(1,4) nxt clt by (intro Cons.IH) simp_all
  ultimately show ?case
    by (auto simp: sent_by_def)
qed (simp add: sent_by_def)

lemma queue_from:
  assumes "sv_wf s" and "sv_msgs s = []" and "sessions_ok (sv_socket s) ds (session_of s)"
    and "fd \<noteq> sv_socket s" and "sv_clients s fd = Some i"
    and "ses_clients (fold (session_round (sv_socket s)) ds (session_of s)) fd = Some i"
  shows "from_fd fd (ses_queue (fold (session_round (sv_socket s)) ds (session_of s))) =
    map (\<lambda>f. queued (fd, f)) (sent_by fd ds)"
proof -
  have "0 \<le> fd" "i < ses_next (session_of s)"
    using sv_wfD(2,3)[OF assms(1,5)] by (simp_all add: sv_watched_def fd_ok_def)
  then show ?thesis
    using rounds_from[OF assms(4) _ assms(3) _ _ assms(6)] assms(2,5) by simp
qed

text \<open>Actions that note which task ran for which client on which message.\<close>

abbreviation note_call :: "'cb \<Rightarrow> int \<Rightarrow> message \<Rightarrow> ('cb \<times> int \<times> message) list \<Rightarrow> ('cb \<times> int \<times> message) list" where
  "note_call task i m w \<equiv> w @ [(task, i, m)]"

definition calls_of :: "(cint \<Rightarrow> 'cb option) \<Rightarrow> int \<Rightarrow> message list \<Rightarrow> ('cb \<times> int \<times> message) list" where
  "calls_of tasks i ms = concat (map (\<lambda>m. case tasks (m_type m) of None \<Rightarrow> [] | Some t \<Rightarrow> [(t, i, m)]) ms)"

lemma noted_calls:
  assumes "\<And>g. clients g = Some i \<longleftrightarrow> g = fd \<and> here"
  shows "filter (\<lambda>c. fst (snd c) = i) (fold (owed note_call tasks clients) ms w) =
    filter (\<lambda>c. fst (snd c) = i) w @ (if here then calls_of tasks i (from_fd fd ms) else [])"
proof (induction ms arbitrary: w)
  case (Cons m ms)
  have at: "here \<longrightarrow> clients fd = Some i" and other: "clients g = Some i \<longrightarrow> g = fd \<and> here" for g
    using assms by simp_all
  have "filter (\<lambda>c. fst (snd c) = i) (owed note_call tasks clients m w) = filter (\<lambda>c. fst (snd c) = i) w @
      (if here \<and> m_fd m = Some fd then calls_of tasks i [m] else [])"
    using at other by (cases "m_fd m"; cases "tasks (m_type m)") (auto simp: owed_def calls_of_def split: option.split)
  then show ?case
    by (simp add: Cons.IH calls_of_def)
qed (simp add: calls_of_def)



end
