(* ===== verification/Relay.thy ===== *)
theory Relay
  imports Client Sessions
begin

text \<open>
  A server whose actions pass every message on to all clients, between clients that send and a client that
  receives: the way of a message from one client's \<open>send\<close> to another client's actions, through every part of the
  network classes.
\<close>

section \<open>The relaying server\<close>

text \<open>The action of every task: \<open>sendToAll\<close>. The rest of the world is what has been sent.\<close>

definition relay_run ::
  "(int \<Rightarrow> byte list \<Rightarrow> int) \<Rightarrow> int list \<Rightarrow> 'cb \<Rightarrow> int \<Rightarrow> nat \<Rightarrow> 'cb server \<times> (int \<times> byte list) list
     \<Rightarrow> unit res \<times> 'cb server \<times> (int \<times> byte list) list" where
  "relay_run send order task i k so =
     (case sv_sendToAll send (sv_msgs (fst so) ! k) order (fst so) of
        Inl e \<Rightarrow> (Inl e, so)
      | Inr (s', out) \<Rightarrow> (Inr (), s', snd so @ out))"

text \<open>The messages of a queue that are passed on: those with a task and a connected client.\<close>

definition relayed :: "(cint \<Rightarrow> 'cb option) \<Rightarrow> session \<Rightarrow> message list" where
  "relayed tasks r = filter (\<lambda>m. tasks (m_type m) \<noteq> None \<and> Option.bind (m_fd m) (ses_clients r) \<noteq> None) (ses_queue r)"

definition copies :: "int list \<Rightarrow> message \<Rightarrow> (int \<times> byte list) list" where
  "copies order m = map (\<lambda>fd. (fd, frame_bytes (frame_of m))) order"

definition bytes_to :: "int \<Rightarrow> (int \<times> byte list) list \<Rightarrow> byte list" where
  "bytes_to fd out = concat (map snd (filter (\<lambda>p. fst p = fd) out))"

lemma owed_copies:
  "fold (owed (\<lambda>task i m out. out @ copies order m) tasks (ses_clients r)) ms out =
     out @ concat (map (copies order)
       (filter (\<lambda>m. tasks (m_type m) \<noteq> None \<and> Option.bind (m_fd m) (ses_clients r) \<noteq> None) ms))"
  by (induction ms arbitrary: out) (auto simp: owed_def split: option.split)

lemma bytes_to_copies:
  assumes "distinct order" and "fd \<in> set order"
  shows "bytes_to fd (concat (map (copies order) ms)) = stream_bytes (map frame_of ms)"
proof -
  have "bytes_to fd (copies order m) = frame_bytes (frame_of m)" for m
    using assms by (induction order) (auto simp: bytes_to_def copies_def filter_empty_conv)
  then show ?thesis
    by (induction ms) (auto simp: bytes_to_def)
qed

text \<open>Everything in the queue has been received, and is well formed.\<close>

definition queue_ok :: "session \<Rightarrow> bool" where
  "queue_ok r \<longleftrightarrow> (\<forall>m \<in> set (ses_queue r). msg_wf m)"

lemma frames_in_bounded: "f \<in> set (frames_in chs) \<Longrightarrow> \<forall>ch \<in> set chs. vbounded ch \<Longrightarrow> vbounded (snd f)"
  by (auto simp: frames_in_def dest: whole_frames_bounded)

lemma received_queue_wf:
  assumes "f \<in> set (frames_in chs)" and "\<forall>ch \<in> set chs. vbounded ch"
  shows "msg_wf (queued (fd, f))"
  by (rule queued_wf) (use frames_in_bounded[OF assms] in simp)

lemma serve_queue_ok:
  "queue_ok r \<Longrightarrow> \<forall>ch \<in> set (fst (sr_recv d fd)). vbounded ch \<Longrightarrow> queue_ok (serve_fd sock d fd r)"
  by (auto simp: queue_ok_def serve_fd_def intro: received_queue_wf split: option.split)

lemma serves_queue_ok:
  "queue_ok r \<Longrightarrow> \<forall>fd \<in> set fds. \<forall>ch \<in> set (fst (sr_recv d fd)). vbounded ch \<Longrightarrow>
    queue_ok (fold (serve_fd sock d) fds r)"
  by (induction fds arbitrary: r) (simp_all add: serve_queue_ok)

lemma round_queue_ok: "queue_ok r \<Longrightarrow> round_ok sock r d \<Longrightarrow> queue_ok (session_round sock d r)"
  unfolding session_round_def by (rule serves_queue_ok) (auto simp: round_ok_def in_visits)

lemma rounds_queue_ok: "queue_ok r \<Longrightarrow> sessions_ok sock ds r \<Longrightarrow> queue_ok (fold (session_round sock) ds r)"
  by (induction ds arbitrary: r) (simp_all add: round_queue_ok)

lemma relay_dispatch:
  assumes "sv_wf s" and "queue_ok (session_of s)" and "set order = dom (sv_clients s)" and "\<forall>fd b. send fd b \<noteq> - 1"
  shows "sv_dispatch (relay_run send order) 0 (s, []) =
    Some (Inr (), s\<lparr>sv_msgs := []\<rparr>, concat (map (copies order) (relayed (sv_tasks s) (session_of s))))"
proof -
  have "sv_dispatch (relay_run send order) 0 (s, []) = Some (Inr (), s\<lparr>sv_msgs := []\<rparr>,
      fold (owed (\<lambda>task i m out. out @ copies order m) (sv_tasks s) (sv_clients s)) (drop 0 (sv_msgs s)) [])"
  proof (rule dispatch_quiet)
    show "\<forall>m \<in> set (sv_msgs s). m_fd m \<noteq> None"
      using sv_wfD(5)[OF assms(1)] by blast
    show "relay_run send order task i k (s, out) = (Inr (), s, out @ copies order (sv_msgs s ! k))"
      if "k < length (sv_msgs s)" for task i k out
    proof -
      have "msg_wf (sv_msgs s ! k)"
        using assms(2) that by (simp add: queue_ok_def)
      then show ?thesis
        using sendToAll_cases[OF assms(1), of "sv_msgs s ! k" order send] assms(3,4)
        by (simp add: relay_run_def copies_def frame_of_def)
    qed
  qed
  then show ?thesis
    using owed_copies[of order "sv_tasks s" "session_of s" "sv_msgs s" "[]"] by (simp add: relayed_def)
qed

section \<open>From client to client\<close>

lemma relayed_from:
  "from_fd fd (relayed tasks r) = filter (\<lambda>m. tasks (m_type m) \<noteq> None \<and> ses_clients r fd \<noteq> None) (from_fd fd (ses_queue r))"
  by (auto simp: relayed_def intro: filter_cong)

text \<open>
  C1. From client to client. Let the actions of the server be \<open>sendToAll\<close>, and let an \<open>update\<close> run while clients
  connect, send and leave. Then every client that is connected at the end, newcomers and senders included, is sent the bytes of
  the same messages, those relayed, in the same order, and the messages relayed for a client that was connected before
  and after are exactly those that its chunks held whole and for which there is a task, in the order of sending. A client that receives what it was sent,
  cut into chunks, rounds and calls of \<open>update\<close> at any places, runs its actions for exactly these messages, with
  their types and bytes, once and in this order, and keeps nothing back.
\<close>

theorem relay_delivers:
  assumes "sv_wf s" and "sv_max_fd s < FD_SETSIZE" and "sv_socket s \<le> sv_max_fd s" and "sv_msgs s = []"
    and "sessions_ok (sv_socket s) ds (session_of s)" and "sl_errno lst \<notin> {Some EBADF, Some EINTR}"
    and "distinct order" and "set order = dom (ses_clients (fold (session_round (sv_socket s)) ds (session_of s)))"
    and "\<forall>fd b. send fd b \<noteq> - 1" and "fd \<in> set order"
    and "msg_wf (c_tmpMsg c)" and "msg_view (c_tmpMsg c) = []" and "c_msgs c = []"
    and "cl_isConnected gs c \<and> fd_ok (c_fd c)"
    and "\<forall>b \<in> set (concat bss). \<exists>err. snd b = RError err \<and> would_block err"
    and "db_used (m_buffer (c_tmpMsg c)) + length (concat (concat (map fst (concat bss)))) < 2 ^ 63"
  defines "ms \<equiv> relayed (sv_tasks s) (fold (session_round (sv_socket s)) ds (session_of s))"
  shows "\<exists>t out. sv_update (relay_run send order) ds lst (s, []) = Some (Inr (), t, out) \<and>
    sv_wf t \<and> set order = dom (sv_clients t) \<and> bytes_to fd out = stream_bytes (map frame_of ms) \<and>
    (\<forall>g i. g \<noteq> sv_socket s \<longrightarrow> sv_clients s g = Some i \<longrightarrow> sv_clients t g = Some i \<longrightarrow>
      from_fd g ms = map (\<lambda>f. queued (g, f)) (filter (\<lambda>f. sv_tasks s (fst f) \<noteq> None) (sent_by g ds))) \<and>
    (concat (concat (map fst (concat bss))) = bytes_to fd out \<longrightarrow>
      (\<exists>u. msg_view u = [] \<and> cl_updates (pure_run eff) gs se bss c w = Some (Inr (), c\<lparr>c_msgs := [], c_tmpMsg := u\<rparr>,
        fold (\<lambda>(f, m). eff f m) (calls_for (c_triggers c) (map (\<lambda>m. frame_message msg_typed (frame_of m)) ms)) w)))"
proof -
  let ?r = "fold (session_round (sv_socket s)) ds (session_of s)"
  obtain u where u: "sv_update (relay_run send order) ds lst (s, []) = sv_dispatch (relay_run send order) 0 (u, [])"
      "session_of u = ?r" "sv_wf u" "sv_tasks u = sv_tasks s"
    using update_rounds[OF assms(1,2) _ assms(5,6), of "relay_run send order" "[]"] assms(3) by auto
  let ?out = "concat (map (copies order) ms)"
  have ok: "queue_ok ?r"
    using assms(4,5) by (intro rounds_queue_ok) (simp_all add: queue_ok_def)
  have clients: "sv_clients u = ses_clients ?r"
    by (simp flip: u(2))
  have "sv_dispatch (relay_run send order) 0 (u, []) = Some (Inr (), u\<lparr>sv_msgs := []\<rparr>, ?out)"
    using relay_dispatch[OF u(3) _ _ assms(9), of order] ok assms(8) clients by (simp add: u(2,4) ms_def)
  then have run: "sv_update (relay_run send order) ds lst (s, []) = Some (Inr (), u\<lparr>sv_msgs := []\<rparr>, ?out)"
    using u(1) by simp
  have bytes: "bytes_to fd ?out = stream_bytes (map frame_of ms)"
    using assms(7,10) by (rule bytes_to_copies)
  have senders: "from_fd g ms = map (\<lambda>f. queued (g, f)) (filter (\<lambda>f. sv_tasks s (fst f) \<noteq> None) (sent_by g ds))"
    if "g \<noteq> sv_socket s" "sv_clients s g = Some i" "ses_clients ?r g = Some i" for g i
    using queue_from[OF assms(1,4,5) that] that(3) by (simp add: ms_def relayed_from filter_map comp_def)
  have small: "\<forall>f \<in> set (map frame_of ms). vbounded (snd f)"
    using ok by (auto simp: ms_def queue_ok_def relayed_def intro: frame_of_bounded)
  have recv: "\<exists>v. msg_view v = [] \<and> cl_updates (pure_run eff) gs se bss c w = Some (Inr (), c\<lparr>c_msgs := [], c_tmpMsg := v\<rparr>,
      fold (\<lambda>(f, m). eff f m) (calls_for (c_triggers c) (map (\<lambda>m. frame_message msg_typed (frame_of m)) ms)) w)"
    if "concat (concat (map fst (concat bss))) = bytes_to fd ?out"
    using updates_stream[OF assms(11-16) small, of eff se w] that bytes by (simp add: comp_def)
  let ?t = "u\<lparr>sv_msgs := []\<rparr>"
  have "sv_wf ?t" "set order = dom (sv_clients ?t)"
    using queue_emptied_wf[OF u(3)] assms(8) clients by simp_all
  moreover have "\<forall>g i. g \<noteq> sv_socket s \<longrightarrow> sv_clients s g = Some i \<longrightarrow> sv_clients ?t g = Some i \<longrightarrow>
      from_fd g ms = map (\<lambda>f. queued (g, f)) (filter (\<lambda>f. sv_tasks s (fst f) \<noteq> None) (sent_by g ds))"
    using senders clients by simp
  ultimately show ?thesis
    using run bytes recv by (intro exI[of _ ?t] exI[of _ ?out]) blast
qed

text \<open>A round in which a client is admitted and, like the one that is there already, sends a message.\<close>

abbreviation newcomer :: sel_round where
  "newcomer \<equiv> \<lparr>sr_ready = {3, 5}, sr_accept = 6, sr_recv = (\<lambda>_. ([frame_bytes (3, [])], RError EAGAIN))\<rparr>"

lemma newcomer_round:
  assumes "sv_clients s = [5 \<mapsto> 0]" and "sv_socket s = 3" and "sv_msgs s = []" and "sv_next_id s = 1"
  shows "fold (session_round (sv_socket s)) [newcomer] (session_of s) = \<lparr>ses_clients = [5 \<mapsto> 0, 6 \<mapsto> 1], ses_next = 2,
    ses_queue = [queued (5, (3, [])), queued (6, (3, []))]\<rparr>"
proof -
  have "{fd \<in> insert (sr_accept newcomer) (sr_ready newcomer). 0 \<le> fd} = {3, 5, 6}" by auto
  then have v: "visits newcomer 0 = [3, 5, 6]"
    unfolding visits_def by simp
  show ?thesis
    by (simp add: session_round_def v)
      (simp add: serve_fd_def session_of_def assms NB_CONNECTION_def leaves_def would_block_def frames_in_def example_chunks)
qed

theorem relay_delivers_witness:
  "\<exists>s t out u. sv_clients s = [5 \<mapsto> 0] \<and> sv_update (relay_run (\<lambda>_ b. int (length b)) [5, 6])
      [newcomer]
      \<lparr>sl_ready = {}, sl_errno = None\<rparr> (s :: nat server, []) = Some (Inr (), t, out) \<and>
    bytes_to 6 out = stream_bytes [(3, []), (3, [])] \<and>
    cl_updates (pure_run (\<lambda>f m w. w @ [(f, m_type m)])) (\<lambda>_. True) (\<lambda>_. [])
      (cut_in_two 5 (stream_bytes [(3, []), (3, [])]))
      ((cl_defineAction 3 ''a'' cl_new)\<lparr>c_fd := 4\<rparr>) [] =
    Some (Inr (), (cl_defineAction 3 ''a'' cl_new)\<lparr>c_fd := 4, c_msgs := [], c_tmpMsg := u\<rparr>, [(''a'', 3), (''a'', 3)])"
proof -
  let ?lst = "\<lparr>sl_ready = {}, sl_errno = None :: errno option\<rparr>"
  obtain s :: "nat server" where wf: "sv_wf s" and s: "sv_clients s = [5 \<mapsto> 0]" "sv_max_fd s = 5" "sv_socket s = 3"
      "sv_msgs s = []" "sv_next_id s = 1" "sv_tasks s = [3 \<mapsto> 9]"
    by (rule one_client_server)
  note r = newcomer_round[OF s(1,3-5)]
  have ms: "map frame_of (relayed (sv_tasks s) (fold (session_round (sv_socket s)) [newcomer] (session_of s))) = [(3, []), (3, [])]"
    unfolding r by (simp add: relayed_def s)
  have ok: "sessions_ok (sv_socket s) [newcomer] (session_of s)"
    using example_chunks by (simp add: round_ok_def s FD_SETSIZE_def INT_MAX_def)
  have pre: "sv_max_fd s < FD_SETSIZE" "sv_socket s \<le> sv_max_fd s" "sl_errno ?lst \<notin> {Some EBADF, Some EINTR}"
      "distinct [5 :: int, 6]" "set [5, 6] = dom (ses_clients (fold (session_round (sv_socket s)) [newcomer] (session_of s)))"
      "\<forall>fd b. (\<lambda>_ b. int (length b)) fd b \<noteq> - 1" "6 \<in> set [5 :: int, 6]"
    unfolding r by (auto simp: s FD_SETSIZE_def)
  let ?c = "(cl_defineAction 3 ''a'' cl_new)\<lparr>c_fd := 4\<rparr>"
  let ?bss = "cut_in_two 5 (stream_bytes [(3, []), (3, [])])"
  note c = example_client(1-5)[of 3 "''a''"]
  note bytes = cut_in_two(1)[of 5 "stream_bytes [(3, []), (3, [])]"] and blk = cut_in_two(2)[of 5 "stream_bytes [(3, []), (3, [])]"]
  have room: "db_used (m_buffer (c_tmpMsg ?c)) + length (concat (concat (map fst (concat ?bss)))) < 2 ^ 63"
    unfolding bytes c(5) by simp
  obtain t out where t: "sv_update (relay_run (\<lambda>_ b. int (length b)) [5, 6]) [newcomer] ?lst (s, []) = Some (Inr (), t, out)"
      "bytes_to 6 out = stream_bytes [(3, []), (3, [])]"
      "concat (concat (map fst (concat ?bss))) = bytes_to 6 out \<longrightarrow>
        (\<exists>u. msg_view u = [] \<and> cl_updates (pure_run (\<lambda>f m w. w @ [(f, m_type m)])) (\<lambda>_. True) (\<lambda>_. []) ?bss ?c [] =
          Some (Inr (), ?c\<lparr>c_msgs := [], c_tmpMsg := u\<rparr>,
            fold (\<lambda>(f, m) w. w @ [(f, m_type m)]) (calls_for (c_triggers ?c) (map (\<lambda>m. frame_message msg_typed (frame_of m))
              (relayed (sv_tasks s) (fold (session_round (sv_socket s)) [newcomer] (session_of s))))) []))"
    using relay_delivers[OF wf pre(1,2) s(4) ok pre(3-7) c(1-4) blk room, of "\<lambda>f m w. w @ [(f, m_type m)]" "\<lambda>_. []" "[]"]
    unfolding ms by blast
  have arrived: "map (\<lambda>m. frame_message msg_typed (frame_of m))
      (relayed (sv_tasks s) (fold (session_round (sv_socket s)) [newcomer] (session_of s))) =
    map (frame_message msg_typed) [(3, []), (3, [])]"
    unfolding ms[symmetric] by simp
  obtain u where u: "cl_updates (pure_run (\<lambda>f m w. w @ [(f, m_type m)])) (\<lambda>_. True) (\<lambda>_. []) ?bss ?c [] =
      Some (Inr (), ?c\<lparr>c_msgs := [], c_tmpMsg := u\<rparr>, fold (\<lambda>(f, m) w. w @ [(f, m_type m)])
        (calls_for (c_triggers ?c) (map (frame_message msg_typed) [(3, []), (3, [])])) [])"
    using t(3) bytes unfolding arrived t(2) by blast
  have "fold (\<lambda>(f, m) w. w @ [(f, m_type m)])
      (calls_for (c_triggers ?c) (map (frame_message msg_typed) [(3, []), (3, [])])) [] = [(''a'', 3), (''a'', 3)]"
    by (simp add: calls_for_def cl_defineAction_def cl_new_def frame_message_def msg_typed_def)
  with u have "cl_updates (pure_run (\<lambda>f m w. w @ [(f, m_type m)])) (\<lambda>_. True) (\<lambda>_. []) ?bss ?c [] =
      Some (Inr (), ?c\<lparr>c_msgs := [], c_tmpMsg := u\<rparr>, [(''a'', 3), (''a'', 3)])"
    by (simp only:)
  moreover have "?c\<lparr>c_msgs := [], c_tmpMsg := u\<rparr> =
      (cl_defineAction 3 ''a'' cl_new)\<lparr>c_fd := 4, c_msgs := [], c_tmpMsg := u\<rparr>" by simp
  ultimately show ?thesis
    using t(1,2) s(1) by (intro exI[of _ s] exI[of _ t] exI[of _ out] exI[of _ u] conjI) (simp_all only:)
qed

end
