(* ===== verification/Replies.thy ===== *)
theory Replies
  imports Relay
begin

text \<open>
  A server whose actions answer: each call of an action may send any messages to any clients with \<open>sendTo\<close>. What
  every client is sent, and the round trip of requests and answers between a client and the server.
\<close>

section \<open>Actions that send\<close>

text \<open>What an action does is given by \<open>ans\<close>: the messages it sends and the clients it sends them to, in order.\<close>

fun send_answers ::
  "(int \<Rightarrow> byte list \<Rightarrow> int) \<Rightarrow> (message \<times> int) list \<Rightarrow> 'cb server \<Rightarrow> ('cb server \<times> (int \<times> byte list) list) res" where
  "send_answers send [] s = Inr (s, [])"
| "send_answers send (a # as) s =
     (case sv_sendTo send (fst a) (snd a) s of
        Inl e \<Rightarrow> Inl e
      | Inr (s', out) \<Rightarrow>
          (case send_answers send as s' of Inl e \<Rightarrow> Inl e | Inr (s'', out') \<Rightarrow> Inr (s'', out @ out')))"

definition answer_run ::
  "(int \<Rightarrow> byte list \<Rightarrow> int) \<Rightarrow> ('cb \<Rightarrow> int \<Rightarrow> message \<Rightarrow> (message \<times> int) list) \<Rightarrow> 'cb \<Rightarrow> int \<Rightarrow> nat
     \<Rightarrow> 'cb server \<times> (int \<times> byte list) list \<Rightarrow> unit res \<times> 'cb server \<times> (int \<times> byte list) list" where
  "answer_run send ans task i k so =
     (case send_answers send (ans task i (sv_msgs (fst so) ! k)) (fst so) of
        Inl e \<Rightarrow> (Inl e, so)
      | Inr (s', out) \<Rightarrow> (Inr (), s', snd so @ out))"

text \<open>The bytes of answers, addressed: an identifier that no client has is passed over.\<close>

definition addressed :: "(int \<Rightarrow> int option) \<Rightarrow> (message \<times> int) list \<Rightarrow> (int \<times> byte list) list" where
  "addressed to_fd as =
     concat (map (\<lambda>a. case to_fd (snd a) of None \<Rightarrow> [] | Some fd \<Rightarrow> [(fd, frame_bytes (frame_of (fst a)))]) as)"

lemma send_answers_eq:
  assumes "sv_wf s" and "\<forall>fd b. send fd b \<noteq> - 1" and "\<forall>a \<in> set as. msg_wf (fst a)"
  shows "send_answers send as s = Inr (s, addressed (sv_clientsToFd s) as)"
  using assms(3)
proof (induction as)
  case (Cons a as)
  have "sv_sendTo send (fst a) (snd a) s =
      Inr (s, case sv_clientsToFd s (snd a) of None \<Rightarrow> [] | Some fd \<Rightarrow> [(fd, frame_bytes (frame_of (fst a)))])"
  proof (cases "sv_clientsToFd s (snd a)")
    case None
    then show ?thesis by (simp add: sendTo_unknown)
  next
    case (Some fd)
    then have "sv_clients s fd = Some (snd a)"
      using inverse_mapsD[OF sv_wfD(1)[OF assms(1)]] by blast
    then show ?thesis
      using sendTo_eq[OF assms(1), of "fst a" fd "snd a" send] Cons.prems assms(2) Some
      by (simp add: frame_of_def Let_def)
  qed
  then show ?case
    using Cons by (simp add: addressed_def)
qed (simp add: addressed_def)

text \<open>All answers to the messages of a queue.\<close>

definition answers ::
  "('cb \<Rightarrow> int \<Rightarrow> message \<Rightarrow> (message \<times> int) list) \<Rightarrow> (cint \<Rightarrow> 'cb option) \<Rightarrow> session \<Rightarrow> message list \<Rightarrow> (message \<times> int) list"
where
  "answers ans tasks r ms = concat (map (\<lambda>m.
     case (tasks (m_type m), Option.bind (m_fd m) (ses_clients r)) of (Some task, Some i) \<Rightarrow> ans task i m | _ \<Rightarrow> []) ms)"

lemma addressed_append: "addressed to_fd (as @ bs) = addressed to_fd as @ addressed to_fd bs"
  by (simp add: addressed_def)

lemma owed_answers:
  "fold (owed (\<lambda>task i m out. out @ addressed to_fd (ans task i m)) tasks (ses_clients r)) ms out =
     out @ addressed to_fd (answers ans tasks r ms)"
proof (induction ms arbitrary: out)
  case (Cons m ms)
  then show ?case
    by (cases "tasks (m_type m)"; cases "Option.bind (m_fd m) (ses_clients r)")
      (simp_all add: owed_def answers_def addressed_append)
qed (simp add: answers_def addressed_def)

lemma answer_dispatch:
  assumes "sv_wf s" and "\<forall>fd b. send fd b \<noteq> - 1"
    and "\<And>task i m. m \<in> set (sv_msgs s) \<Longrightarrow> \<forall>a \<in> set (ans task i m). msg_wf (fst a)"
  shows "sv_dispatch (answer_run send ans) 0 (s, []) = Some (Inr (), s\<lparr>sv_msgs := []\<rparr>,
    addressed (sv_clientsToFd s) (answers ans (sv_tasks s) (session_of s) (sv_msgs s)))"
proof -
  have "sv_dispatch (answer_run send ans) 0 (s, []) = Some (Inr (), s\<lparr>sv_msgs := []\<rparr>,
      fold (owed (\<lambda>task i m out. out @ addressed (sv_clientsToFd s) (ans task i m)) (sv_tasks s) (sv_clients s))
        (drop 0 (sv_msgs s)) [])"
  proof (rule dispatch_quiet)
    show "\<forall>m \<in> set (sv_msgs s). m_fd m \<noteq> None"
      using sv_wfD(5)[OF assms(1)] by blast
    show "answer_run send ans task i k (s, out) =
        (Inr (), s, out @ addressed (sv_clientsToFd s) (ans task i (sv_msgs s ! k)))"
      if "k < length (sv_msgs s)" for task i k out
      using send_answers_eq[OF assms(1,2) assms(3)[OF nth_mem[OF that]]] by (simp add: answer_run_def)
  qed
  then show ?thesis
    using owed_answers[of "sv_clientsToFd s" ans "sv_tasks s" "session_of s" "sv_msgs s" "[]"] by simp
qed

text \<open>What reaches one client: the answers with its identifier.\<close>

lemma bytes_to_addressed:
  assumes "\<And>j. to_fd j = Some fd \<longleftrightarrow> j = i"
  shows "bytes_to fd (addressed to_fd as) = stream_bytes (map (\<lambda>a. frame_of (fst a)) (filter (\<lambda>a. snd a = i) as))"
proof (induction as)
  case (Cons a as)
  have "to_fd i = Some fd" using assms by simp
  with Cons show ?case
    using assms[of "snd a"] by (cases "to_fd (snd a)") (auto simp: addressed_def bytes_to_def)
qed (simp add: addressed_def bytes_to_def)

lemma answers_from:
  assumes "\<And>g. ses_clients r g = Some i \<longleftrightarrow> g = fd" and "\<And>task j m a. a \<in> set (ans task j m) \<Longrightarrow> snd a = j"
  shows "filter (\<lambda>a. snd a = i) (answers ans tasks r ms) =
    concat (map (\<lambda>m. case tasks (m_type m) of None \<Rightarrow> [] | Some task \<Rightarrow> ans task i m) (from_fd fd ms))"
proof (induction ms)
  case (Cons m ms)
  have all: "filter (\<lambda>a. snd a = i) (ans task i m) = ans task i m" for task
    using assms(2) by (auto simp: filter_id_conv)
  have none: "filter (\<lambda>a. snd a = i) (ans task j m) = []" if "j \<noteq> i" for task j
    using assms(2) that by (auto simp: filter_empty_conv)
  have "filter (\<lambda>a. snd a = i) (answers ans tasks r [m]) =
      (if m_fd m = Some fd then case tasks (m_type m) of None \<Rightarrow> [] | Some task \<Rightarrow> ans task i m else [])"
  proof (cases "Option.bind (m_fd m) (ses_clients r)")
    case None
    then have "m_fd m \<noteq> Some fd"
      using assms(1)[of fd] by auto
    with None show ?thesis
      by (simp add: answers_def split: option.split)
  next
    case (Some j)
    then obtain g where g: "m_fd m = Some g" "ses_clients r g = Some j"
      by (cases "m_fd m") simp_all
    then have "g = fd \<longleftrightarrow> j = i"
      using assms(1)[of g] by auto
    then show ?thesis
      using g all none by (cases "tasks (m_type m)"; cases "j = i") (simp_all add: answers_def)
  qed
  with Cons show ?case
    by (simp add: answers_def)
qed (simp add: answers_def)

section \<open>Requests and answers\<close>

text \<open>The answers a client is owed for the messages it has sent, when every action answers its sender only.\<close>

definition owed_answers_to ::
  "('cb \<Rightarrow> int \<Rightarrow> message \<Rightarrow> (message \<times> int) list) \<Rightarrow> (cint \<Rightarrow> 'cb option) \<Rightarrow> int \<Rightarrow> int \<Rightarrow> frame list \<Rightarrow> message list" where
  "owed_answers_to ans tasks fd i fs = concat (map (\<lambda>f.
     case tasks (fst f) of None \<Rightarrow> [] | Some task \<Rightarrow> map fst (ans task i (queued (fd, f)))) fs)"

lemma own_answers:
  assumes "\<And>g. ses_clients r g = Some i \<longleftrightarrow> g = fd" and "\<forall>task j m. \<forall>a \<in> set (ans task j m). snd a = j"
    and "from_fd fd (ses_queue r) = map (\<lambda>f. queued (fd, f)) fs"
  shows "map fst (filter (\<lambda>a. snd a = i) (answers ans tasks r (ses_queue r))) = owed_answers_to ans tasks fd i fs"
proof -
  have "filter (\<lambda>a. snd a = i) (answers ans tasks r (ses_queue r)) =
      concat (map (\<lambda>m. case tasks (m_type m) of None \<Rightarrow> [] | Some task \<Rightarrow> ans task i m) (from_fd fd (ses_queue r)))"
    using assms(1,2) by (intro answers_from) auto
  then show ?thesis
    by (simp add: assms(3) owed_answers_to_def map_concat comp_def option.case_distrib[of "map fst"] cong: option.case_cong)
qed

lemma answers_wf:
  assumes "\<And>task j m. m \<in> set ms \<Longrightarrow> \<forall>a \<in> set (ans task j m). msg_wf (fst a)" and "a \<in> set (answers ans tasks r ms)"
  shows "msg_wf (fst a)"
proof -
  obtain m task j where "m \<in> set ms" "a \<in> set (ans task j m)"
    using assms(2) by (auto simp: answers_def split: option.splits)
  then show ?thesis using assms(1) by blast
qed



end
