(* ===== verification/Client_Streams.thy ===== *)
theory Client_Streams
  imports Client Frame_Parser
begin

text \<open>
  What the client makes of any bytes: it parses the concatenation of all chunks it has received, whatever calls
  of \<open>update\<close>, rounds and chunks they came in.
\<close>

section \<open>One round and one update\<close>

lemma receive_parses:
  assumes "msg_wf (c_tmpMsg c)" and "db_used (m_buffer (c_tmpMsg c)) + length (concat chs) < 2 ^ 63"
    and "would_block err" and "honest (msg_view (c_tmpMsg c) @ concat chs)"
  shows "\<exists>t. cl_receiveMessage se (chs, RError err) c = Some (Inr (), c\<lparr>c_msgs := c_msgs c @
      map (frame_message msg_typed) (whole_frames (msg_view (c_tmpMsg c) @ concat chs)), c_tmpMsg := t\<rparr>) \<and>
    msg_wf t \<and> msg_view t = left_over (msg_view (c_tmpMsg c) @ concat chs) \<and>
    db_used (m_buffer t) = db_used (m_buffer (c_tmpMsg c)) + length (concat chs)"
proof -
  obtain m where m: "append_chunks chs (c_tmpMsg c) = Inr m" "msg_wf m"
      "msg_view m = msg_view (c_tmpMsg c) @ concat chs"
      "db_used (m_buffer m) = db_used (m_buffer (c_tmpMsg c)) + length (concat chs)"
    using append_chunks_view[OF assms(1,2)] by blast
  then obtain t where "drain msg_typed m (c_msgs c) = Some (Inr (), c_msgs c @
      map (frame_message msg_typed) (whole_frames (msg_view m)), t)" "msg_wf t" "msg_view t = left_over (msg_view m)"
      "db_used (m_buffer t) = db_used (m_buffer m)"
    using drain_split[OF m(2) fresh_typed, of "c_msgs c"] assms(4) by auto
  with m assms(3) show ?thesis
    by (intro exI[of _ t]) (simp add: cl_receiveMessage_def Let_def)
qed

text \<open>No round leaves a header whose size makes the test of completeness wrap.\<close>

fun honest_rounds :: "byte list \<Rightarrow> recv_batch list \<Rightarrow> bool" where
  "honest_rounds v [] = True"
| "honest_rounds v (b # bs) = (honest (v @ concat (fst b)) \<and> honest_rounds (left_over (v @ concat (fst b))) bs)"

lemma poll_parses:
  assumes "msg_wf (c_tmpMsg c)" and "partial_frame (msg_view (c_tmpMsg c))" and "c_fd c > 0 \<and> fd_ok (c_fd c)"
    and "\<forall>b \<in> set bs. \<exists>err. snd b = RError err \<and> would_block err"
    and "honest_rounds (msg_view (c_tmpMsg c)) bs"
    and "db_used (m_buffer (c_tmpMsg c)) + length (received bs) < 2 ^ 63"
  shows "\<exists>t. cl_poll se bs c = Some (Inr (), c\<lparr>c_msgs := c_msgs c @
      map (frame_message msg_typed) (whole_frames (msg_view (c_tmpMsg c) @ received bs)), c_tmpMsg := t\<rparr>) \<and>
    msg_wf t \<and> msg_view t = left_over (msg_view (c_tmpMsg c) @ received bs) \<and>
    db_used (m_buffer t) = db_used (m_buffer (c_tmpMsg c)) + length (received bs)"
  using assms
proof (induction bs arbitrary: c)
  case Nil
  then show ?case
    by (intro exI[of _ "c_tmpMsg c"]) (simp add: split_partial)
next
  case (Cons b bs)
  obtain chs err where b: "b = (chs, RError err)" "would_block err"
    using Cons.prems(4) by (cases b) auto
  let ?v = "msg_view (c_tmpMsg c)"
  obtain u where u: "cl_receiveMessage se b c = Some (Inr (), c\<lparr>c_msgs := c_msgs c @
        map (frame_message msg_typed) (whole_frames (?v @ concat chs)), c_tmpMsg := u\<rparr>)" "msg_wf u"
      "msg_view u = left_over (?v @ concat chs)"
      "db_used (m_buffer u) = db_used (m_buffer (c_tmpMsg c)) + length (concat chs)"
    using receive_parses[OF Cons.prems(1) _ b(2), of chs se] Cons.prems(5,6) b(1) by auto
  let ?c = "c\<lparr>c_msgs := c_msgs c @ map (frame_message msg_typed) (whole_frames (?v @ concat chs)), c_tmpMsg := u\<rparr>"
  have "partial_frame (msg_view (c_tmpMsg ?c))"
    by (simp add: u(3) left_over_partial)
  then have "\<exists>t. cl_poll se bs ?c = Some (Inr (), ?c\<lparr>c_msgs := c_msgs ?c @
      map (frame_message msg_typed) (whole_frames (msg_view (c_tmpMsg ?c) @ received bs)), c_tmpMsg := t\<rparr>) \<and>
    msg_wf t \<and> msg_view t = left_over (msg_view (c_tmpMsg ?c) @ received bs) \<and>
    db_used (m_buffer t) = db_used (m_buffer (c_tmpMsg ?c)) + length (received bs)"
    using Cons.prems u b(1) by (intro Cons.IH) simp_all
  then show ?case
    using u b(1) Cons.prems(3) split_append[of "?v @ concat chs" "received bs"] by auto
qed

section \<open>Any number of updates\<close>

lemma honest_rounds_append:
  "partial_frame v \<Longrightarrow> honest_rounds v (as @ bs) \<longleftrightarrow> honest_rounds v as \<and> honest_rounds (left_over (v @ received as)) bs"
proof (induction as arbitrary: v)
  case Nil
  then show ?case by (simp add: split_partial)
next
  case (Cons a as)
  show ?case
    using Cons.IH[OF left_over_partial[of "v @ concat (fst a)"]] split_append[of "v @ concat (fst a)" "received as"]
    by simp
qed

lemma updates_parse:
  assumes "msg_wf (c_tmpMsg c)" and "partial_frame (msg_view (c_tmpMsg c))" and "c_msgs c = []"
    and "cl_isConnected gs c \<and> fd_ok (c_fd c)"
    and "\<forall>b \<in> set (concat bss). \<exists>err. snd b = RError err \<and> would_block err"
    and "honest_rounds (msg_view (c_tmpMsg c)) (concat bss)"
    and "db_used (m_buffer (c_tmpMsg c)) + length (received (concat bss)) < 2 ^ 63"
  shows "\<exists>t. msg_wf t \<and> msg_view t = left_over (msg_view (c_tmpMsg c) @ received (concat bss)) \<and>
    db_used (m_buffer t) = db_used (m_buffer (c_tmpMsg c)) + length (received (concat bss)) \<and>
    cl_updates (pure_run eff) gs se bss c w = Some (Inr (), c\<lparr>c_msgs := [], c_tmpMsg := t\<rparr>,
      fold (\<lambda>(f, m). eff f m) (calls_for (c_triggers c)
        (map (frame_message msg_typed) (whole_frames (msg_view (c_tmpMsg c) @ received (concat bss))))) w)"
  using assms
proof (induction bss arbitrary: c w)
  case Nil
  then show ?case
    by (intro exI[of _ "c_tmpMsg c"]) (simp add: split_partial calls_for_def)
next
  case (Cons bs bss)
  let ?v = "msg_view (c_tmpMsg c)"
  have hon: "honest_rounds ?v bs" "honest_rounds (left_over (?v @ received bs)) (concat bss)"
    using Cons.prems(6) by (simp_all add: honest_rounds_append[OF Cons.prems(2)])
  have fd: "c_fd c > 0 \<and> fd_ok (c_fd c)"
    using Cons.prems(4) by (simp add: cl_isConnected_def)
  obtain u where u: "cl_poll se bs c = Some (Inr (), c\<lparr>c_msgs :=
        map (frame_message msg_typed) (whole_frames (?v @ received bs)), c_tmpMsg := u\<rparr>)" "msg_wf u"
      "msg_view u = left_over (?v @ received bs)"
      "db_used (m_buffer u) = db_used (m_buffer (c_tmpMsg c)) + length (received bs)"
    using poll_parses[OF Cons.prems(1,2) fd _ hon(1), of se] Cons.prems(3,5,7) by auto
  let ?c = "c\<lparr>c_msgs := [], c_tmpMsg := u\<rparr>"
  let ?w = "fold (\<lambda>(f, m). eff f m) (calls_for (c_triggers c)
    (map (frame_message msg_typed) (whole_frames (?v @ received bs)))) w"
  have "cl_update (pure_run eff) gs se bs c w = Some (Inr (), ?c, ?w)"
    using Cons.prems(4) u(1) by (simp add: cl_update_def cl_dispatch_pure)
  moreover have "partial_frame (msg_view (c_tmpMsg ?c))"
    by (simp add: u(3) left_over_partial)
  then have "\<exists>t. msg_wf t \<and> msg_view t = left_over (msg_view (c_tmpMsg ?c) @ received (concat bss)) \<and>
    db_used (m_buffer t) = db_used (m_buffer (c_tmpMsg ?c)) + length (received (concat bss)) \<and>
    cl_updates (pure_run eff) gs se bss ?c ?w = Some (Inr (), ?c\<lparr>c_msgs := [], c_tmpMsg := t\<rparr>,
      fold (\<lambda>(f, m). eff f m) (calls_for (c_triggers ?c)
        (map (frame_message msg_typed) (whole_frames (msg_view (c_tmpMsg ?c) @ received (concat bss))))) ?w)"
    using Cons.prems(4,5,7) u hon(2) by (intro Cons.IH) (simp_all add: cl_isConnected_def)
  ultimately show ?case
    using u(3,4) split_append[of "?v @ received bs" "received (concat bss)"]
    by (auto simp: calls_for_def)
qed

text \<open>
  C4. The client parses what it receives. Whatever bytes come, in chunks, rounds and calls of \<open>update\<close> cut at
  any places, these calls together run the actions of exactly the messages that the bytes received so far hold
  whole, each once and in order, and keep the rest for the calls to come; only a header whose size is within 12 of \<open>2 ^ 64\<close> is
  excluded. For bytes that are a sequence of messages and a front part of the next these are the messages of the
  sequence. The buffer holds all bytes received so far: those of delivered messages are never removed.
\<close>

theorem client_parses:
  assumes "msg_wf (c_tmpMsg c)" and "partial_frame (msg_view (c_tmpMsg c))" and "c_msgs c = []"
    and "cl_isConnected gs c \<and> fd_ok (c_fd c)"
    and "\<forall>b \<in> set (concat bss). \<exists>err. snd b = RError err \<and> would_block err"
    and "honest_rounds (msg_view (c_tmpMsg c)) (concat bss)"
    and "db_used (m_buffer (c_tmpMsg c)) + length (concat (concat (map fst (concat bss)))) < 2 ^ 63"
  defines "bytes \<equiv> msg_view (c_tmpMsg c) @ concat (concat (map fst (concat bss)))"
  shows "(\<exists>t. msg_wf t \<and> msg_view t = left_over bytes \<and>
      db_used (m_buffer t) = db_used (m_buffer (c_tmpMsg c)) + length (concat (concat (map fst (concat bss)))) \<and>
      cl_updates (pure_run eff) gs se bss c w = Some (Inr (), c\<lparr>c_msgs := [], c_tmpMsg := t\<rparr>,
        fold (\<lambda>(f, m). eff f m) (calls_for (c_triggers c) (map (frame_message msg_typed) (whole_frames bytes))) w)) \<and>
    stream_bytes (whole_frames bytes) @ left_over bytes = bytes \<and>
    (\<forall>fs part. bytes = stream_bytes fs @ part \<longrightarrow> partial_frame part \<longrightarrow> (\<forall>f \<in> set fs. vbounded (snd f)) \<longrightarrow>
      whole_frames bytes = fs \<and> left_over bytes = part)"
proof (intro conjI allI impI)
  show "\<exists>t. msg_wf t \<and> msg_view t = left_over bytes \<and>
      db_used (m_buffer t) = db_used (m_buffer (c_tmpMsg c)) + length (concat (concat (map fst (concat bss)))) \<and>
      cl_updates (pure_run eff) gs se bss c w = Some (Inr (), c\<lparr>c_msgs := [], c_tmpMsg := t\<rparr>,
        fold (\<lambda>(f, m). eff f m) (calls_for (c_triggers c) (map (frame_message msg_typed) (whole_frames bytes))) w)"
    unfolding bytes_def by (rule updates_parse[OF assms(1-7)])
  show "stream_bytes (whole_frames bytes) @ left_over bytes = bytes"
    by (rule split_joins)
  show "whole_frames bytes = fs" "left_over bytes = part"
    if "bytes = stream_bytes fs @ part" "partial_frame part" "\<forall>f \<in> set fs. vbounded (snd f)" for fs part
    using split_stream[OF that(3), of part] that(1,2) by (simp_all add: split_partial)
qed

theorem client_parses_witness:
  "\<exists>t. msg_view t = [7] \<and> cl_updates (pure_run (\<lambda>f m w. w @ [(f, m)])) (\<lambda>_. True) (\<lambda>_. [])
      [[([take 5 (stream_bytes [(1, [65]), (2, [])])], RError EAGAIN)],
       [([drop 5 (stream_bytes [(1, [65]), (2, [])]), [7]], RError EAGAIN)]]
      ((cl_defineAction 1 ''a'' cl_new)\<lparr>c_fd := 4\<rparr>) [] =
    Some (Inr (), (cl_defineAction 1 ''a'' cl_new)\<lparr>c_fd := 4, c_msgs := [], c_tmpMsg := t\<rparr>,
      [(''a'', frame_message msg_typed (1, [65]))])"
proof -
  let ?c = "(cl_defineAction 1 ''a'' cl_new)\<lparr>c_fd := 4\<rparr>"
  let ?fs = "[(1, [65]), (2, [])] :: frame list"
  let ?bss = "[[([take 5 (stream_bytes ?fs)], RError EAGAIN)], [([drop 5 (stream_bytes ?fs), [7]], RError EAGAIN)]]"
  note c = example_client[of 1 "''a''"]
  have small: "\<forall>f \<in> set ?fs. vbounded (snd f)" and part: "partial_frame []" "partial_frame [7]"
    by (simp_all add: vbounded_def partial_frame_def)
  have all: "concat (concat (map fst (concat ?bss))) = stream_bytes ?fs @ [7]"
    by simp
  have split: "split_frames (stream_bytes ?fs @ [7]) = (?fs, [7])"
    using split_stream[OF small, of "[7]"] by (simp add: split_partial[OF part(2)])
  have "partial_frame (take 5 (stream_bytes ?fs))"
    by (simp add: partial_frame_def)
  note front = split_partial[OF this]
  have "honest (take 5 (stream_bytes ?fs))"
    unfolding honest_def front by simp
  moreover have join: "take 5 (stream_bytes ?fs) @ drop 5 (stream_bytes ?fs) @ [7] = stream_bytes ?fs @ [7]"
    by (simp del: stream_bytes_simps flip: append_assoc)
  moreover have "honest (stream_bytes ?fs @ [7])"
    unfolding honest_def split by simp
  ultimately have hon: "honest_rounds (msg_view (c_tmpMsg ?c)) (concat ?bss)"
    unfolding c(2) by (simp add: front join del: stream_bytes_simps)
  have pre: "partial_frame (msg_view (c_tmpMsg ?c))"
      "\<forall>b \<in> set (concat ?bss). \<exists>err. snd b = RError err \<and> would_block err"
      "db_used (m_buffer (c_tmpMsg ?c)) + length (concat (concat (map fst (concat ?bss)))) < 2 ^ 63"
    unfolding all c(2,5) by (simp_all add: part would_block_def)
  obtain t where "msg_view t = left_over (stream_bytes ?fs @ [7])"
      "cl_updates (pure_run (\<lambda>f m w. w @ [(f, m)])) (\<lambda>_. True) (\<lambda>_. []) ?bss ?c [] = Some (Inr (),
        ?c\<lparr>c_msgs := [], c_tmpMsg := t\<rparr>, fold (\<lambda>(f, m). (\<lambda>f m w. w @ [(f, m)]) f m)
          (calls_for (c_triggers ?c) (map (frame_message msg_typed) (whole_frames (stream_bytes ?fs @ [7])))) [])"
    using client_parses[OF c(1) pre(1) c(3,4) pre(2) hon pre(3), of "\<lambda>f m w. w @ [(f, m)]" "\<lambda>_. []" "[]"]
    unfolding all c(2) by auto
  then show ?thesis
    unfolding split c(6) by (intro exI[of _ t]) (simp add: calls_for_def frame_message_def msg_typed_def)
qed

end
