(* ===== verification/Memento.thy ===== *)
theory Memento
  imports Data_Buffer
begin

text \<open>
  \<^verbatim>\<open>src/src/design_patterns/memento\<close>: objects that save their state to a snapshot and load it back.
  A snapshot is a byte vector with a read cursor, like \<open>DataBuffer\<close>; it implements the same stream
  contract. The two virtual functions that a class implements are arguments of \<open>save\<close> and \<open>load\<close>.
\<close>

section \<open>Snapshots\<close>

record snapshot =
  sn_buffer :: "byte list"
  sn_cursor :: size_t

definition sn_new :: snapshot where
  "sn_new = \<lparr>sn_buffer = [], sn_cursor = 0\<rparr>"

definition sn_reset :: "snapshot \<Rightarrow> snapshot" where
  "sn_reset s = s\<lparr>sn_cursor := 0\<rparr>"

definition sn_put :: "snapshot \<Rightarrow> byte list \<Rightarrow> snapshot" where
  "sn_put s bs = s\<lparr>sn_buffer := sn_buffer s @ bs\<rparr>"

definition sn_puts :: "snapshot \<Rightarrow> byte list \<Rightarrow> snapshot" where
  "sn_puts s value =
     (let s1 = sn_put s (enc_size (vsize value)) in s1\<lparr>sn_buffer := sn_buffer s1 @ value\<rparr>)"

definition sn_get :: "nat \<Rightarrow> snapshot \<Rightarrow> byte list res \<times> snapshot" where
  "sn_get n s =
     (if word_of_nat n + sn_cursor s > vsize (sn_buffer s)
      then (throw (Out_of_range ''Buffer overflow on read''), s)
      else if unat (sn_cursor s) + n \<le> length (sn_buffer s)
      then (Inr (take n (drop (unat (sn_cursor s)) (sn_buffer s))),
            s\<lparr>sn_cursor := sn_cursor s + word_of_nat n\<rparr>)
      else (ub, s))"

definition sn_gets :: "snapshot \<Rightarrow> byte list res \<times> snapshot" where
  "sn_gets s =
     (case sn_get 8 s of
        (Inl e, s1) \<Rightarrow> (Inl e, s1)
      | (Inr bs, s1) \<Rightarrow>
          (let n = dec_size bs
           in if n + sn_cursor s1 > vsize (sn_buffer s1)
              then (throw (Runtime_error ''Read out of Buffer !''), s1)
              else if unat (sn_cursor s1) + unat n \<le> length (sn_buffer s1)
              then (Inr (take (unat n) (drop (unat (sn_cursor s1)) (sn_buffer s1))),
                    s1\<lparr>sn_cursor := sn_cursor s1 + n\<rparr>)
              else (ub, s1)))"

text \<open>
  A chain \<open>snapshot >> a >> b\<close>. The template operator returns a copy of the snapshot, so what follows
  it in the chain moves the cursor of the copy; the operator for strings returns the snapshot it
  was called on. The result is the values read and the snapshot the chain started from.
\<close>

fun sn_chain :: "shape list \<Rightarrow> snapshot \<Rightarrow> val list res \<times> snapshot" where
  "sn_chain [] s = (Inr [], s)"
| "sn_chain (SRaw n # shs) s =
     (case sn_get n s of
        (Inl e, s') \<Rightarrow> (Inl e, s')
      | (Inr bs, s') \<Rightarrow>
          (case fst (sn_chain shs s') of
             Inl e \<Rightarrow> (Inl e, s')
           | Inr vs \<Rightarrow> (Inr (Raw bs # vs), s')))"
| "sn_chain (SStr # shs) s =
     (case sn_gets s of
        (Inl e, s') \<Rightarrow> (Inl e, s')
      | (Inr cs, s') \<Rightarrow>
          (case sn_chain shs s' of
             (Inl e, s'') \<Rightarrow> (Inl e, s'')
           | (Inr vs, s'') \<Rightarrow> (Inr (Str cs # vs), s'')))"

section \<open>Saving and loading\<close>

definition mem_save :: "('o \<Rightarrow> snapshot \<Rightarrow> snapshot) \<Rightarrow> 'o \<Rightarrow> snapshot" where
  "mem_save saveToSnapshot obj = saveToSnapshot obj sn_new"

definition mem_load :: "(snapshot \<Rightarrow> 'o \<Rightarrow> unit res \<times> 'o) \<Rightarrow> snapshot \<Rightarrow> 'o \<Rightarrow> unit res \<times> 'o" where
  "mem_load loadFromSnapshot state obj = loadFromSnapshot (sn_reset state) obj"

section \<open>The stream contract\<close>

definition sn_db :: "snapshot \<Rightarrow> data_buffer" where
  "sn_db s = \<lparr>db_buffer = sn_buffer s, db_cursor = sn_cursor s\<rparr>"

abbreviation sn_wf :: "snapshot \<Rightarrow> bool" where
  "sn_wf s \<equiv> db_wf (sn_db s)"

abbreviation sn_view :: "snapshot \<Rightarrow> byte list" where
  "sn_view s \<equiv> db_view (sn_db s)"

abbreviation sn_used :: "snapshot \<Rightarrow> nat" where
  "sn_used s \<equiv> db_used (sn_db s)"

text \<open>
  Writing and reading a snapshot is writing and reading the data buffer with the same bytes and
  the same cursor; only the exception for a string that does not fit differs.
\<close>

lemma sn_db_inject: "sn_db s = sn_db t \<longleftrightarrow> s = t"
  by (cases s, cases t) (simp add: sn_db_def)

lemma sn_db_put: "sn_db (sn_put s bs) = db_put (sn_db s) bs"
  by (simp add: sn_db_def sn_put_def db_put_def)

lemma sn_db_get: "map_prod id sn_db (sn_get n s) = db_get n (sn_db s)"
  by (simp add: sn_db_def sn_get_def db_get_def)

lemma sn_db_gets_ok:
  assumes "db_gets (sn_db s) = (Inr cs, b)"
  shows "\<exists>s'. sn_gets s = (Inr cs, s') \<and> sn_db s' = b"
  using assms by (auto simp: sn_gets_def db_gets_def sn_get_def db_get_def sn_db_def Let_def split: if_splits)

interpretation sn: string_stream sn_view sn_used sn_wf sn_put sn_get sn_puts sn_gets
proof
  fix s n bs cs rest
  show "sn_wf s \<Longrightarrow> length (sn_view s) \<le> sn_used s" "sn_wf s \<Longrightarrow> sn_used s < 2 ^ 63"
    by (rule db.view_used db.used_bound; assumption)+
  show "sn_used (sn_put s bs) = sn_used s + length bs"
    by (simp add: sn_db_put db.used_put)
  show "sn_wf s \<Longrightarrow> sn_used s + length bs < 2 ^ 63 \<Longrightarrow> sn_wf (sn_put s bs)"
    "sn_wf s \<Longrightarrow> sn_used s + length bs < 2 ^ 63 \<Longrightarrow> sn_view (sn_put s bs) = sn_view s @ bs"
    by (simp_all add: sn_db_put db.wf_put db.view_put)
  show "\<exists>s'. sn_get n s = (Inr (take n (sn_view s)), s') \<and> sn_view s' = drop n (sn_view s) \<and> sn_wf s' \<and>
      sn_used s' = sn_used s" if "sn_wf s" "n \<le> length (sn_view s)"
    using db.get_ok[OF that] sn_db_get[of n s] by (cases "sn_get n s") auto
  show "sn_get n s = (throw (Out_of_range ''Buffer overflow on read''), s)"
    if "sn_wf s" "n < 2 ^ 63" "length (sn_view s) < n"
    using db.get_short[OF that] sn_db_get[of n s] by (cases "sn_get n s") (auto simp: sn_db_inject)
  show "sn_puts s cs = sn_put (sn_put s (enc_size (vsize cs))) cs"
    by (simp add: sn_puts_def sn_put_def Let_def)
  show "\<exists>s'. sn_gets s = (Inr cs, s') \<and> sn_view s' = rest \<and> sn_wf s' \<and> sn_used s' = sn_used s"
    if "sn_wf s" "vbounded cs" "sn_view s = enc_size (vsize cs) @ cs @ rest"
    using db.gets_ok[OF that] sn_db_gets_ok[of s cs] by metis
qed

section \<open>Properties\<close>

text \<open>The values a chain reads are those that successive statements would read.\<close>

lemma chain_values: "fst (sn_chain shs s) = fst (get_vals sn_get sn_gets shs s)"
proof (induction shs arbitrary: s)
  case (Cons sh shs)
  show ?case
  proof (cases sh)
    case (SRaw n)
    then show ?thesis
      by (cases "sn_get n s") (auto simp: Cons.IH split: sum.splits prod.splits)
  next
    case SStr
    then show ?thesis
      by (cases "sn_gets s") (auto split: sum.splits prod.splits dest!: arg_cong[of _ _ fst] simp: Cons.IH)
  qed
qed simp

lemma chain_prefix:
  assumes "sn_wf s" and "sn_view s = vals_bytes vs @ rest"
  obtains s' where "sn_chain (map shape_of vs) s = (Inr vs, s')"
  using sn.get_vals_prefix[OF assms] chain_values[of "map shape_of vs" s]
  by (cases "sn_chain (map shape_of vs) s") auto

text \<open>
  C28. Saving and loading: an object that writes its fields to the snapshot and reads them in one
  chain with the same types gets every field back, integers and strings, from a snapshot that may
  have been loaded before, whatever its cursor.
\<close>

theorem memento_roundtrip:
  assumes "length (vals_bytes flds) < 2 ^ 63"
  shows "mem_load
    (\<lambda>snap obj. case sn_chain (map shape_of flds) snap of
       (Inl e, _) \<Rightarrow> (Inl e, obj) | (Inr vs, _) \<Rightarrow> (Inr (), vs))
    ((mem_save (\<lambda>obj snap. put_vals sn_put sn_puts snap obj) flds)\<lparr>sn_cursor := c\<rparr>) old = (Inr (), flds)"
proof -
  let ?s = "put_vals sn_put sn_puts sn_new flds"
  have new: "sn_wf sn_new" "sn_view sn_new = []" "sn_used sn_new = 0"
    by (simp_all add: sn_new_def sn_db_def db_wf_def vbounded_def db_view_def db_used_def)
  have s: "sn_wf ?s" "sn_view ?s = vals_bytes flds @ []"
    using sn.put_vals_view[OF new(1), of flds] assms new by simp_all
  have cursor: "sn_cursor (put_vals sn_put sn_puts t vs) = sn_cursor t" for t vs
  proof (induction vs arbitrary: t)
    case (Cons v vs)
    then show ?case
      by (cases v) (simp_all add: put_vals_def sn_put_def sn_puts_def Let_def)
  qed (simp add: put_vals_def)
  have "sn_reset (?s\<lparr>sn_cursor := c\<rparr>) = ?s"
    using cursor[of sn_new flds] by (cases ?s) (simp add: sn_reset_def sn_new_def)
  moreover obtain s' where "sn_chain (map shape_of flds) ?s = (Inr flds, s')"
    using s by (rule chain_prefix)
  ultimately show ?thesis
    by (simp add: mem_load_def mem_save_def)
qed

theorem memento_roundtrip_witness:
  "mem_load
    (\<lambda>snap obj. case sn_chain (map shape_of [Raw [42, 0, 0, 0], Str [73, 110], Raw [1]]) snap of
       (Inl e, _) \<Rightarrow> (Inl e, obj) | (Inr vs, _) \<Rightarrow> (Inr (), vs))
    ((mem_save (\<lambda>obj snap. put_vals sn_put sn_puts snap obj) [Raw [42, 0, 0, 0], Str [73, 110], Raw [1]])\<lparr>sn_cursor := 3\<rparr>)
    [] = (Inr (), [Raw [42, 0, 0, 0], Str [73, 110], Raw [1]])"
  by (rule memento_roundtrip) simp

text \<open>
  Reading in two statements does not work: a chain of two reads moves the cursor of the
  snapshot past the first value only, and the next statement reads the second value again.
\<close>

theorem memento_chain_rewinds:
  assumes "sn_wf s" and "sn_view s = xs @ ys @ rest"
  shows "\<exists>s'. sn_chain [SRaw (length xs), SRaw (length ys)] s = (Inr [Raw xs, Raw ys], s') \<and>
    fst (sn_chain [SRaw (length ys)] s') = Inr [Raw ys]"
proof -
  obtain s' where s': "sn_get (length xs) s = (Inr xs, s')" "sn_view s' = ys @ rest" "sn_wf s'"
    using sn.get_prefix[OF assms(1,2) refl] by blast
  obtain s'' where "sn_get (length ys) s' = (Inr ys, s'')"
    using sn.get_prefix[OF s'(3,2) refl] by blast
  with s' show ?thesis by simp
qed

theorem memento_chain_rewinds_witness:
  "\<exists>s'. sn_chain [SRaw (length [1 :: byte, 2]), SRaw (length [3 :: byte, 4])] \<lparr>sn_buffer = [1, 2, 3, 4, 5, 6], sn_cursor = 0\<rparr> =
      (Inr [Raw [1, 2], Raw [3, 4]], s') \<and>
    fst (sn_chain [SRaw (length [3 :: byte, 4])] s') = Inr [Raw [3, 4]]"
  by (rule memento_chain_rewinds[where rest = "[5, 6]"]) (simp_all add: sn_db_def db_wf_def vbounded_def db_view_def)

end
