(* ===== verification/Fifo.thy ===== *)
theory Fifo
  imports Libftpp_Prelude
begin

text \<open>
  The contract of a first-in first-out container whose operations throw when there is no room or
  nothing to take, and what a client can rely on: over any sequence of pushes and pops, what comes
  out and what is still inside is exactly what was inside and what was accepted, in order. The
  ring buffer and both directions of the thread-safe queue implement it.
\<close>

datatype 'x qop = Push 'x | Pop

text \<open>
  A client that catches the exceptions: the elements that were accepted, the elements that came
  out, and the final container.
\<close>

fun run_ops ::
  "('x \<Rightarrow> 's \<Rightarrow> 's res) \<Rightarrow> ('s \<Rightarrow> ('x \<times> 's) res) \<Rightarrow> 'x qop list \<Rightarrow> 's \<Rightarrow> ('x list \<times> 'x list \<times> 's) res" where
  "run_ops push pop [] s = Inr ([], [], s)"
| "run_ops push pop (Push x # ops) s =
     (case push x s of
        Inl UB \<Rightarrow> ub
      | Inl (Exn e) \<Rightarrow> run_ops push pop ops s
      | Inr s' \<Rightarrow>
          (case run_ops push pop ops s' of
             Inl e \<Rightarrow> Inl e
           | Inr (ins, outs, t) \<Rightarrow> Inr (x # ins, outs, t)))"
| "run_ops push pop (Pop # ops) s =
     (case pop s of
        Inl UB \<Rightarrow> ub
      | Inl (Exn e) \<Rightarrow> run_ops push pop ops s
      | Inr (x, s') \<Rightarrow>
          (case run_ops push pop ops s' of
             Inl e \<Rightarrow> Inl e
           | Inr (ins, outs, t) \<Rightarrow> Inr (ins, x # outs, t)))"

fun pushed :: "'x qop list \<Rightarrow> 'x list" where
  "pushed [] = []"
| "pushed (Push x # ops) = x # pushed ops"
| "pushed (Pop # ops) = pushed ops"

locale fifo =
  fixes push :: "'x \<Rightarrow> 's \<Rightarrow> 's res"
    and pop :: "'s \<Rightarrow> ('x \<times> 's) res"
    and items :: "'s \<Rightarrow> 'x list"
    and inv :: "'s \<Rightarrow> bool"
    and room :: "'s \<Rightarrow> bool"
  assumes push_room: "inv s \<Longrightarrow> room s \<Longrightarrow> \<exists>s'. push x s = Inr s' \<and> inv s' \<and> items s' = items s @ [x]"
    and push_full: "inv s \<Longrightarrow> \<not> room s \<Longrightarrow> \<exists>e. push x s = throw e"
    and pop_item: "inv s \<Longrightarrow> items s = x # xs \<Longrightarrow> \<exists>s'. pop s = Inr (x, s') \<and> inv s' \<and> items s' = xs"
    and pop_empty: "inv s \<Longrightarrow> items s = [] \<Longrightarrow> \<exists>e. pop s = throw e"
begin

lemma pop_cases:
  assumes "inv s"
  obtains e where "items s = []" "pop s = throw e"
  | x s' where "items s = x # items s'" "pop s = Inr (x, s')" "inv s'"
proof (cases "items s")
  case Nil
  then show thesis using pop_empty[OF assms] that(1) by blast
next
  case (Cons x xs)
  then show thesis using pop_item[OF assms, of x xs] that(2) by blast
qed

lemma push_cases:
  assumes "inv s"
  obtains e where "\<not> room s" "push x s = throw e"
  | s' where "room s" "push x s = Inr s'" "inv s'" "items s' = items s @ [x]"
  using push_room[OF assms] push_full[OF assms] by (cases "room s") blast+

text \<open>Nothing is lost, nothing is duplicated, nothing overtakes.\<close>

lemma run_fifo:
  "inv s \<Longrightarrow> \<exists>ins outs t. run_ops push pop ops s = Inr (ins, outs, t) \<and> inv t \<and>
     items s @ ins = outs @ items t"
proof (induction ops arbitrary: s)
  case Nil
  then show ?case by simp
next
  case (Cons op ops)
  show ?case
  proof (cases op)
    case (Push x)
    from Cons.prems show ?thesis
    proof (cases rule: push_cases[of s x])
      case (2 s')
      with Cons.IH[of s'] show ?thesis using Push by fastforce
    qed (use Cons.IH[OF Cons.prems] Push in simp)
  next
    case Pop
    from Cons.prems show ?thesis
    proof (cases rule: pop_cases)
      case (2 x s')
      with Cons.IH[of s'] show ?thesis using Pop by fastforce
    qed (use Cons.IH[OF Cons.prems] Pop in simp)
  qed
qed

text \<open>When there is always room, every push is accepted.\<close>

lemma run_unbounded:
  assumes "\<And>s. inv s \<Longrightarrow> room s" and "inv s"
  shows "\<exists>outs t. run_ops push pop ops s = Inr (pushed ops, outs, t) \<and> inv t \<and>
     items s @ pushed ops = outs @ items t"
  using assms(2)
proof (induction ops arbitrary: s)
  case Nil
  then show ?case by simp
next
  case (Cons op ops)
  show ?case
  proof (cases op)
    case (Push x)
    obtain s' where "push x s = Inr s'" "inv s'" "items s' = items s @ [x]"
      using push_room[OF Cons.prems assms(1)[OF Cons.prems]] by blast
    with Cons.IH[of s'] show ?thesis using Push by fastforce
  next
    case Pop
    from Cons.prems show ?thesis
    proof (cases rule: pop_cases)
      case (2 x s')
      with Cons.IH[of s'] show ?thesis using Pop by fastforce
    qed (use Cons.IH[OF Cons.prems] Pop in simp)
  qed
qed

end

end
