(* ===== verification/Thread_Safe_Queue.thy ===== *)
theory Thread_Safe_Queue
  imports Fifo
begin

text \<open>
  \<^verbatim>\<open>src/src/thread/thread_safe_queue\<close>: a double-ended queue behind a mutex. Every method holds the
  mutex for its whole body, so a concurrent history is a sequence of calls, and a call is one step
  on the queue.
\<close>

record 'a tsq =
  tsq_queue :: "'a list"

definition tsq_new :: "'a tsq" where
  "tsq_new = \<lparr>tsq_queue = []\<rparr>"

definition tsq_push_back :: "'a \<Rightarrow> 'a tsq \<Rightarrow> 'a tsq res" where
  "tsq_push_back newElement q = Inr (q\<lparr>tsq_queue := tsq_queue q @ [newElement]\<rparr>)"

definition tsq_push_front :: "'a \<Rightarrow> 'a tsq \<Rightarrow> 'a tsq res" where
  "tsq_push_front newElement q = Inr (q\<lparr>tsq_queue := newElement # tsq_queue q\<rparr>)"

definition tsq_pop_back :: "'a tsq \<Rightarrow> ('a \<times> 'a tsq) res" where
  "tsq_pop_back q =
     (if tsq_queue q = [] then throw (Runtime_error ''Trying to pop from an empty queue'')
      else Inr (last (tsq_queue q), q\<lparr>tsq_queue := butlast (tsq_queue q)\<rparr>))"

definition tsq_pop_front :: "'a tsq \<Rightarrow> ('a \<times> 'a tsq) res" where
  "tsq_pop_front q =
     (if tsq_queue q = [] then throw (Runtime_error ''Trying to pop from an empty queue'')
      else Inr (hd (tsq_queue q), q\<lparr>tsq_queue := tl (tsq_queue q)\<rparr>))"

lemmas tsq_defs = tsq_push_back_def tsq_push_front_def tsq_pop_back_def tsq_pop_front_def

text \<open>Back to front and front to back, the queue is first-in first-out.\<close>

interpretation tsq: fifo tsq_push_back tsq_pop_front tsq_queue "\<lambda>_. True" "\<lambda>_. True"
  by unfold_locales (simp_all add: tsq_defs)

interpretation tsq_rev: fifo tsq_push_front tsq_pop_back "rev \<circ> tsq_queue" "\<lambda>_. True" "\<lambda>_. True"
  by unfold_locales (auto simp: tsq_defs rev_eq_Cons_iff)


end
