(* ===== verification/Ring_Buffer.thy ===== *)
theory Ring_Buffer
  imports Fifo
begin

text \<open>
  \<^verbatim>\<open>src/src/bonus/ring_buffer\<close>: a circular buffer of bytes with a fixed capacity. The indices are
  machine words; reading or writing outside the vector, or outside the caller's memory, is
  undefined behaviour.
\<close>

section \<open>State and operations\<close>

record ring_buffer =
  rb_buffer :: "byte list"
  rb_head :: size_t
  rb_tail :: size_t
  rb_size :: size_t

definition MAX_BUFFER_SIZE :: size_t where
  "MAX_BUFFER_SIZE = 65550"

text \<open>The constructors: \<^verbatim>\<open>std::vector(n)\<close> refuses more than \<^verbatim>\<open>max_size()\<close> elements.\<close>

definition rb_new :: "size_t \<Rightarrow> ring_buffer res" where
  "rb_new size_buffer =
     (if unat size_buffer \<ge> 2 ^ 63
      then throw (Length_error ''cannot create std::vector larger than max_size()'')
      else Inr \<lparr>rb_buffer = replicate (unat size_buffer) 0, rb_head = 0, rb_tail = 0, rb_size = 0\<rparr>)"

definition rb_default :: "ring_buffer res" where
  "rb_default = rb_new MAX_BUFFER_SIZE"

definition rb_isEmpty :: "ring_buffer \<Rightarrow> bool" where
  "rb_isEmpty b \<longleftrightarrow> rb_size b = 0"

definition rb_isFull :: "ring_buffer \<Rightarrow> bool" where
  "rb_isFull b \<longleftrightarrow> vsize (rb_buffer b) = rb_size b"

definition rb_capacity :: "ring_buffer \<Rightarrow> size_t" where
  "rb_capacity b = vsize (rb_buffer b)"

definition rb_capacityAvailable :: "ring_buffer \<Rightarrow> size_t" where
  "rb_capacityAvailable b = vsize (rb_buffer b) - rb_size b"

definition rb_getSize :: "ring_buffer \<Rightarrow> size_t" where
  "rb_getSize b = rb_size b"

definition rb_clear :: "ring_buffer \<Rightarrow> ring_buffer" where
  "rb_clear b = b\<lparr>rb_tail := 0, rb_head := 0, rb_size := 0\<rparr>"

text \<open>The body the writing loops share, and the one the reading loops share.\<close>

definition rb_store :: "byte \<Rightarrow> ring_buffer \<Rightarrow> ring_buffer res" where
  "rb_store x b =
     (if \<not> unat (rb_head b) < length (rb_buffer b) then ub
      else Inr (b\<lparr>rb_buffer := (rb_buffer b)[unat (rb_head b) := x],
                  rb_head := (rb_head b + 1) mod vsize (rb_buffer b),
                  rb_size := rb_size b + 1\<rparr>))"

definition rb_load :: "ring_buffer \<Rightarrow> (byte \<times> ring_buffer) res" where
  "rb_load b =
     (if \<not> unat (rb_tail b) < length (rb_buffer b) then ub
      else Inr (rb_buffer b ! unat (rb_tail b),
                b\<lparr>rb_tail := (rb_tail b + 1) mod vsize (rb_buffer b), rb_size := rb_size b - 1\<rparr>))"

definition rb_push_byte :: "byte \<Rightarrow> ring_buffer \<Rightarrow> ring_buffer res" where
  "rb_push_byte x b =
     (if rb_isFull b then throw (Out_of_range ''trying to write on full buffer'') else rb_store x b)"

fun rb_stores :: "byte list \<Rightarrow> ring_buffer \<Rightarrow> ring_buffer res" where
  "rb_stores [] b = Inr b"
| "rb_stores (x # xs) b = (case rb_store x b of Inl e \<Rightarrow> Inl e | Inr b' \<Rightarrow> rb_stores xs b')"

definition rb_push_bytes :: "byte list \<Rightarrow> ring_buffer \<Rightarrow> ring_buffer res" where
  "rb_push_bytes bytes b =
     (if rb_isFull b
      then throw (Out_of_range ''trying to write on full buffer, try to increase size'')
      else if vsize bytes > vsize (rb_buffer b) - rb_size b
      then throw (Out_of_range ''trying to read more than available in buffer'')
      else rb_stores bytes b)"

definition rb_push_string :: "byte list \<Rightarrow> ring_buffer \<Rightarrow> ring_buffer res" where
  "rb_push_string line b =
     (if rb_isFull b then throw (Out_of_range ''trying to write on full buffer'')
      else rb_push_bytes line b)"

definition rb_pop :: "ring_buffer \<Rightarrow> (byte \<times> ring_buffer) res" where
  "rb_pop b =
     (if rb_isEmpty b then throw (Out_of_range ''trying to read on empty buffer'') else rb_load b)"

fun rb_loads :: "nat \<Rightarrow> ring_buffer \<Rightarrow> (byte list \<times> ring_buffer) res" where
  "rb_loads 0 b = Inr ([], b)"
| "rb_loads (Suc n) b =
     (case rb_load b of
        Inl e \<Rightarrow> Inl e
      | Inr (x, b') \<Rightarrow>
          (case rb_loads n b' of Inl e \<Rightarrow> Inl e | Inr (xs, b'') \<Rightarrow> Inr (x # xs, b'')))"

definition rb_pop_n :: "size_t \<Rightarrow> ring_buffer \<Rightarrow> (byte list \<times> ring_buffer) res" where
  "rb_pop_n sz b =
     (if sz > rb_size b
      then throw (Out_of_range ''trying to read more than available in buffer or empty buffer'')
      else rb_loads (unat sz) b)"

text \<open>\<open>pushInto\<close> reads the caller's memory, the bytes of \<open>data\<close>, at \<open>i\<close>, \<open>i + 1\<close>, ...\<close>

fun rb_pushInto_loop :: "byte list \<Rightarrow> nat \<Rightarrow> nat \<Rightarrow> ring_buffer \<Rightarrow> ring_buffer res" where
  "rb_pushInto_loop data i 0 b = Inr b"
| "rb_pushInto_loop data i (Suc n) b =
     (if \<not> i < length data then ub
      else case rb_store (data ! i) b of
        Inl e \<Rightarrow> Inl e
      | Inr b' \<Rightarrow> rb_pushInto_loop data (Suc i) n b')"

definition rb_pushInto :: "byte list \<Rightarrow> size_t \<Rightarrow> ring_buffer \<Rightarrow> ring_buffer res" where
  "rb_pushInto data sz b =
     (if rb_capacityAvailable b < sz
      then throw (Out_of_range ''trying to put more than available in buffer'')
      else rb_pushInto_loop data 0 (unat sz) b)"

fun rb_popInto_loop ::
  "byte list \<Rightarrow> nat \<Rightarrow> nat \<Rightarrow> ring_buffer \<Rightarrow> (byte list \<times> ring_buffer) res" where
  "rb_popInto_loop data i 0 b = Inr (data, b)"
| "rb_popInto_loop data i (Suc n) b =
     (if \<not> i < length data then ub
      else case rb_load b of
        Inl e \<Rightarrow> Inl e
      | Inr (x, b') \<Rightarrow> rb_popInto_loop (data[i := x]) (Suc i) n b')"

definition rb_popInto :: "byte list \<Rightarrow> size_t \<Rightarrow> ring_buffer \<Rightarrow> (byte list \<times> ring_buffer) res" where
  "rb_popInto data sz b =
     (if sz > rb_size b
      then throw (Out_of_range ''trying to read more than available in buffer or empty buffer'')
      else rb_popInto_loop data 0 (unat sz) b)"

definition rb_peek :: "ring_buffer \<Rightarrow> byte res" where
  "rb_peek b =
     (if rb_isEmpty b then throw (Out_of_range ''trying to read on empty buffer'')
      else if \<not> unat (rb_tail b) < length (rb_buffer b) then ub
      else Inr (rb_buffer b ! unat (rb_tail b)))"

fun rb_peek_loop :: "nat \<Rightarrow> size_t \<Rightarrow> byte list \<Rightarrow> byte list res" where
  "rb_peek_loop 0 tmp_idx buf = Inr []"
| "rb_peek_loop (Suc n) tmp_idx buf =
     (if \<not> unat tmp_idx < length buf then ub
      else case rb_peek_loop n ((tmp_idx + 1) mod vsize buf) buf of
        Inl e \<Rightarrow> Inl e
      | Inr xs \<Rightarrow> Inr (buf ! unat tmp_idx # xs))"

definition rb_peek_n :: "size_t \<Rightarrow> ring_buffer \<Rightarrow> byte list res" where
  "rb_peek_n sz b =
     (if rb_isEmpty b then throw (Out_of_range ''trying to read on empty buffer'')
      else if sz > rb_size b
      then throw (Out_of_range ''trying to read more than available in buffer'')
      else rb_peek_loop (unat sz) (rb_tail b) (rb_buffer b))"

section \<open>Invariant and abstraction\<close>

text \<open>
  The bytes inside, oldest first, and the invariant that ties the two indices to the size. With an
  empty vector \<open>x mod 0 = x\<close> makes all three zero.
\<close>

definition rb_view :: "ring_buffer \<Rightarrow> byte list" where
  "rb_view b = map (\<lambda>i. rb_buffer b ! ((unat (rb_tail b) + i) mod length (rb_buffer b)))
     [0..<unat (rb_size b)]"

definition rb_wf :: "ring_buffer \<Rightarrow> bool" where
  [wf_defs]: "rb_wf b \<longleftrightarrow> vbounded (rb_buffer b) \<and> unat (rb_size b) \<le> length (rb_buffer b) \<and>
     unat (rb_tail b) < max 1 (length (rb_buffer b)) \<and>
     unat (rb_head b) = (unat (rb_tail b) + unat (rb_size b)) mod length (rb_buffer b)"

definition rb_cap :: "ring_buffer \<Rightarrow> nat" where
  "rb_cap b = length (rb_buffer b)"

lemma length_rb_view [simp]: "length (rb_view b) = unat (rb_size b)"
  by (simp add: rb_view_def)

lemma rb_new_wf: "rb_new n = Inr b \<Longrightarrow> rb_wf b \<and> rb_view b = [] \<and> rb_cap b = unat n"
  by (auto simp: rb_new_def rb_wf_def rb_view_def vbounded_def rb_cap_def split: if_splits)

lemma rb_view_bound: "rb_wf b \<Longrightarrow> length (rb_view b) \<le> rb_cap b"
  by (simp add: rb_wf_def rb_cap_def)

lemma isFull_iff: "rb_wf b \<Longrightarrow> rb_isFull b \<longleftrightarrow> length (rb_view b) = rb_cap b"
  by (simp add: rb_isFull_def rb_wf_def rb_cap_def word_unat_eq_iff) (metis unat_vsize_bounded)

lemma isEmpty_iff: "rb_isEmpty b \<longleftrightarrow> rb_view b = []"
  by (metis length_0_conv length_rb_view rb_isEmpty_def unat_eq_zero)

lemma capacityAvailable_eq:
  assumes "rb_wf b"
  shows "unat (vsize (rb_buffer b) - rb_size b) = rb_cap b - length (rb_view b)"
proof -
  have "rb_size b \<le> vsize (rb_buffer b)"
    using assms by (simp add: rb_wf_def word_le_nat_alt)
  then show ?thesis
    using assms by (simp add: unat_sub_size rb_wf_def rb_cap_def)
qed

lemma mod_index_neq:
  assumes "i < s" and "s < (n :: nat)"
  shows "(t + i) mod n \<noteq> (t + s) mod n"
proof
  assume "(t + i) mod n = (t + s) mod n"
  then have "n dvd (t + s) - (t + i)"
    using assms(1) by (metis mod_eq_dvd_iff_nat add_le_mono le_refl less_imp_le)
  then have "n \<le> s - i"
    using assms(1) by (auto dest!: dvd_imp_le)
  with assms show False by simp
qed

lemma unat_succ_mod:
  assumes "vbounded xs" and "unat i < length xs"
  shows "unat ((i + 1) mod vsize xs) = (unat i + 1) mod length xs"
proof -
  have "unat (i + 1) = unat i + 1"
    using assms by (subst unat_add_size) (simp_all add: vbounded_def)
  then show ?thesis
    using assms(1) by (simp add: unat_mod_distrib)
qed

section \<open>The loop bodies on the abstraction\<close>

lemma store_ok:
  assumes "rb_wf b" and "length (rb_view b) < rb_cap b"
  shows "\<exists>b'. rb_store x b = Inr b' \<and> rb_wf b' \<and> rb_view b' = rb_view b @ [x] \<and> rb_cap b' = rb_cap b"
proof -
  let ?n = "length (rb_buffer b)" and ?t = "unat (rb_tail b)" and ?s = "unat (rb_size b)"
  have room: "?s < ?n" and bounded: "vbounded (rb_buffer b)"
    and head: "unat (rb_head b) = (?t + ?s) mod ?n" and tail: "?t < max 1 ?n"
    using assms by (simp_all add: rb_wf_def rb_cap_def)
  have head_less: "unat (rb_head b) < ?n"
    unfolding head using room by (intro mod_less_divisor) linarith
  define b' where "b' = b\<lparr>rb_buffer := (rb_buffer b)[unat (rb_head b) := x],
    rb_head := (rb_head b + 1) mod vsize (rb_buffer b), rb_size := rb_size b + 1\<rparr>"
  have size': "unat (rb_size b + 1) = Suc ?s"
    using room bounded by (subst unat_add_size) (simp_all add: vbounded_def)
  have head': "unat ((rb_head b + 1) mod vsize (rb_buffer b)) = (?t + Suc ?s) mod ?n"
    using unat_succ_mod[OF bounded head_less] head by (simp add: mod_Suc_eq)
  have wf': "rb_wf b'"
    using room bounded tail by (simp add: b'_def rb_wf_def size' head' vbounded_def)
  have "rb_view b' = map (\<lambda>i. (rb_buffer b)[unat (rb_head b) := x] ! ((?t + i) mod ?n)) [0..<Suc ?s]"
    by (simp add: b'_def rb_view_def size' del: upt_Suc)
  also have "\<dots> = rb_view b @ [x]"
  proof -
    have "(rb_buffer b)[unat (rb_head b) := x] ! ((?t + i) mod ?n) = rb_buffer b ! ((?t + i) mod ?n)"
      if "i < ?s" for i
      using mod_index_neq[OF that room, of ?t] head by simp
    then show ?thesis
      using head head_less by (simp add: rb_view_def)
  qed
  finally show ?thesis
    using wf' head_less by (simp add: rb_store_def b'_def rb_cap_def)
qed

lemma load_ok:
  assumes "rb_wf b" and "rb_view b = x # xs"
  shows "\<exists>b'. rb_load b = Inr (x, b') \<and> rb_wf b' \<and> rb_view b' = xs \<and> rb_cap b' = rb_cap b"
proof -
  let ?n = "length (rb_buffer b)" and ?t = "unat (rb_tail b)"
  obtain m where m: "unat (rb_size b) = Suc m"
    using assms(2) length_rb_view[of b] by (metis length_Cons)
  have n: "0 < ?n" and bounded: "vbounded (rb_buffer b)" and tail: "?t < ?n" and le: "Suc m \<le> ?n"
    and head: "unat (rb_head b) = (?t + Suc m) mod ?n"
    using assms(1) m by (auto simp: rb_wf_def max_def split: if_splits)
  define b' where "b' = b\<lparr>rb_tail := (rb_tail b + 1) mod vsize (rb_buffer b), rb_size := rb_size b - 1\<rparr>"
  have "1 \<le> rb_size b"
    using m by (simp add: word_le_nat_alt)
  then have size': "unat (rb_size b - 1) = m"
    using m by (simp add: unat_sub_size)
  have tail': "unat ((rb_tail b + 1) mod vsize (rb_buffer b)) = (?t + 1) mod ?n"
    by (rule unat_succ_mod[OF bounded tail])
  have "x # xs = map (\<lambda>i. rb_buffer b ! ((?t + i) mod ?n)) [0..<Suc m]"
    using assms(2) by (simp add: rb_view_def m del: upt_Suc)
  then have x: "x = rb_buffer b ! ?t" and xs: "xs = map (\<lambda>i. rb_buffer b ! ((?t + Suc i) mod ?n)) [0..<m]"
    using tail by (simp_all add: map_upt_Suc del: upt_Suc)
  have "rb_view b' = xs"
    unfolding xs by (simp add: b'_def rb_view_def size' tail' mod_Suc_eq mod_add_left_eq flip: add_Suc)
  moreover have "rb_wf b'"
    using n bounded le head by (simp add: b'_def rb_wf_def size' tail' mod_add_left_eq flip: add_Suc)
  ultimately show ?thesis
    using tail x by (simp add: rb_load_def b'_def rb_cap_def)
qed

lemma stores_ok:
  "rb_wf b \<Longrightarrow> length (rb_view b) + length xs \<le> rb_cap b \<Longrightarrow>
    \<exists>b'. rb_stores xs b = Inr b' \<and> rb_wf b' \<and> rb_view b' = rb_view b @ xs \<and> rb_cap b' = rb_cap b"
proof (induction xs arbitrary: b)
  case (Cons x xs)
  then obtain b1 where b1: "rb_store x b = Inr b1" "rb_wf b1" "rb_view b1 = rb_view b @ [x]" "rb_cap b1 = rb_cap b"
    using store_ok[of b x] by auto
  then have "length (rb_view b1) + length xs \<le> rb_cap b1"
    using Cons.prems(2) by (simp del: length_rb_view)
  from Cons.IH[OF b1(2) this] b1 show ?case by auto
qed simp

lemma loads_ok:
  "rb_wf b \<Longrightarrow> rb_view b = xs @ ys \<Longrightarrow>
    \<exists>b'. rb_loads (length xs) b = Inr (xs, b') \<and> rb_wf b' \<and> rb_view b' = ys \<and> rb_cap b' = rb_cap b"
proof (induction xs arbitrary: b)
  case (Cons x xs)
  then obtain b1 where "rb_load b = Inr (x, b1)" "rb_wf b1" "rb_view b1 = xs @ ys" "rb_cap b1 = rb_cap b"
    using load_ok[of b x "xs @ ys"] by auto
  with Cons.IH[of b1] show ?case by auto
qed simp

text \<open>The loops over the caller's memory are the loops over the bytes they touch.\<close>

lemma pushInto_loop_eq:
  "i + n \<le> length data \<Longrightarrow> rb_pushInto_loop data i n b = rb_stores (take n (drop i data)) b"
proof (induction n arbitrary: i b)
  case (Suc n)
  then have "drop i data = data ! i # drop (Suc i) data"
    by (simp add: Cons_nth_drop_Suc)
  with Suc show ?case by (simp split: sum.split)
qed simp

lemma popInto_loop_eq:
  "i + n \<le> length data \<Longrightarrow> rb_popInto_loop data i n b =
    (case rb_loads n b of Inl e \<Rightarrow> Inl e
     | Inr (xs, b') \<Rightarrow> Inr (take i data @ xs @ drop (i + n) data, b'))"
proof (induction n arbitrary: i b data)
  case (Suc n)
  have "take (Suc i) (data[i := x]) = take i data @ [x]" for x
    using Suc.prems by (simp add: take_Suc_conv_app_nth)
  with Suc show ?case by (auto split: sum.split)
qed simp

lemma peek_loop_loads:
  assumes "vbounded (rb_buffer b)"
  shows "rb_peek_loop n (rb_tail b) (rb_buffer b) = (case rb_loads n b of Inl e \<Rightarrow> Inl e | Inr (xs, _) \<Rightarrow> Inr xs)"
  using assms
proof (induction n arbitrary: b)
  case (Suc n)
  then show ?case
    using Suc.IH[of "b\<lparr>rb_tail := (rb_tail b + 1) mod vsize (rb_buffer b), rb_size := rb_size b - 1\<rparr>"]
    by (auto simp: rb_load_def split: sum.split)
qed simp

lemma peek_eq: "rb_wf b \<Longrightarrow> rb_view b = x # xs \<Longrightarrow> rb_peek b = Inr x"
  using load_ok[of b x xs] by (auto simp: rb_peek_def rb_load_def isEmpty_iff split: if_splits)

text \<open>The ring buffer is a bounded first-in first-out container.\<close>

interpretation rb: fifo rb_push_byte rb_pop rb_view rb_wf "\<lambda>b. length (rb_view b) < rb_cap b"
proof
  fix s x
  assume wf: "rb_wf s"
  show "length (rb_view s) < rb_cap s \<Longrightarrow> \<exists>s'. rb_push_byte x s = Inr s' \<and> rb_wf s' \<and> rb_view s' = rb_view s @ [x]"
    using store_ok[OF wf] by (auto simp: rb_push_byte_def isFull_iff[OF wf] simp del: length_rb_view)
  show "\<not> length (rb_view s) < rb_cap s \<Longrightarrow> \<exists>e. rb_push_byte x s = throw e"
    using rb_view_bound[OF wf] by (simp add: rb_push_byte_def isFull_iff[OF wf] del: length_rb_view)
  show "rb_view s = [] \<Longrightarrow> \<exists>e. rb_pop s = throw e"
    by (simp add: rb_pop_def isEmpty_iff)
  show "rb_view s = x # xs \<Longrightarrow> \<exists>s'. rb_pop s = Inr (x, s') \<and> rb_wf s' \<and> rb_view s' = xs" for xs
    using load_ok[OF wf] by (auto simp: rb_pop_def isEmpty_iff)
qed

section \<open>Properties\<close>

lemma loads_take:
  assumes "rb_wf b" and "n \<le> length (rb_view b)"
  shows "\<exists>b'. rb_loads n b = Inr (take n (rb_view b), b') \<and> rb_wf b' \<and> rb_view b' = drop n (rb_view b) \<and>
    rb_cap b' = rb_cap b"
  using loads_ok[OF assms(1), of "take n (rb_view b)" "drop n (rb_view b)"] assms(2)
  by (simp del: length_rb_view)

lemma peek_n_eq:
  assumes "rb_wf b" and "rb_view b \<noteq> []" and "unat n \<le> length (rb_view b)"
  shows "rb_peek_n n b = Inr (take (unat n) (rb_view b))"
proof -
  have "\<not> rb_size b < n"
    using assms(3) by (simp add: word_less_nat_alt)
  moreover have "vbounded (rb_buffer b)"
    using assms(1) by (simp add: rb_wf_def)
  moreover obtain b' where "rb_loads (unat n) b = Inr (take (unat n) (rb_view b), b')"
    using loads_take[OF assms(1,3)] by blast
  ultimately show ?thesis
    using assms(2) by (simp add: rb_peek_n_def isEmpty_iff peek_loop_loads)
qed





end
