(* ===== verification/Pool.thy ===== *)
theory Pool
  imports Libftpp_Prelude
begin

text \<open>
  \<^verbatim>\<open>src/src/data_structures/pool\<close>: a pool of pre-allocated objects. A slot holds the pointer to the
  pool that handed it out, its index and raw storage in which an object of \<open>TType\<close> is alive or not.
  References that \<open>acquire\<close> returns are slot indices; a copy of an \<open>Object\<close> is a slot value of its
  own. Destroying an object that is not alive is undefined, unless its type has a trivial
  destructor.
\<close>

section \<open>State\<close>

datatype 'a cell = Alive 'a | Dead

record 'a pobject =
  ob_pool_ptr :: "nat option"
  ob_idx :: int
  ob_myself :: "'a cell"

text \<open>
  Besides its two members, a pool has an address, the capacity of its vector, the limit of the
  vector's size, and whether destroying a \<open>TType\<close> is trivial. The top of the stack comes first.
\<close>

record 'a pool =
  pl_available :: "int list"
  pl_objects :: "'a pobject list"
  pl_addr :: nat
  pl_capacity :: nat
  pl_max_size :: nat
  pl_trivial :: bool

section \<open>Operations\<close>

text \<open>\<open>Object()\<close>, given the value that \<open>TType()\<close> constructs.\<close>

definition ob_new :: "'a \<Rightarrow> 'a pobject" where
  "ob_new mk = \<lparr>ob_pool_ptr = None, ob_idx = 0, ob_myself = Alive mk\<rparr>"

definition pl_release :: "'a pobject \<Rightarrow> 'a pool \<Rightarrow> 'a pobject \<times> 'a pool" where
  "pl_release obj p =
     (if ob_pool_ptr obj = None then (obj, p)
      else (obj\<lparr>ob_pool_ptr := None\<rparr>, p\<lparr>pl_available := ob_idx obj # pl_available p\<rparr>))"

text \<open>\<open>~Object\<close>, on the pool that the object's pointer designates.\<close>

definition ob_destructor :: "'a pobject \<Rightarrow> 'a pool \<Rightarrow> 'a pool" where
  "ob_destructor obj p = (if ob_pool_ptr obj \<noteq> None then snd (pl_release obj p) else p)"

text \<open>\<open>release\<close> called on a reference to a slot.\<close>

definition pl_release_slot :: "int \<Rightarrow> 'a pool \<Rightarrow> 'a pool res" where
  "pl_release_slot i p =
     (if \<not> (0 \<le> i \<and> nat i < length (pl_objects p)) then ub
      else case pl_release (pl_objects p ! nat i) p of
        (obj, p') \<Rightarrow> Inr (p'\<lparr>pl_objects := (pl_objects p')[nat i := obj]\<rparr>))"

definition pl_get :: "int \<Rightarrow> 'a pool \<Rightarrow> 'a res" where
  "pl_get i p =
     (if \<not> (0 \<le> i \<and> nat i < length (pl_objects p)) then ub
      else case ob_myself (pl_objects p ! nat i) of Alive v \<Rightarrow> Inr v | Dead \<Rightarrow> ub)"

text \<open>The explicit destructor call on a slot, and the loop over all slots.\<close>

definition pl_destroy :: "bool \<Rightarrow> 'a pobject \<Rightarrow> 'a pobject res" where
  "pl_destroy triv obj =
     (if ob_myself obj = Dead \<and> \<not> triv then ub else Inr (obj\<lparr>ob_myself := Dead\<rparr>))"

fun pl_destroy_all :: "bool \<Rightarrow> 'a pobject list \<Rightarrow> 'a pobject list res" where
  "pl_destroy_all triv [] = Inr []"
| "pl_destroy_all triv (obj # objs) =
     (case pl_destroy triv obj of
        Inl e \<Rightarrow> Inl e
      | Inr obj' \<Rightarrow>
          (case pl_destroy_all triv objs of Inl e \<Rightarrow> Inl e | Inr objs' \<Rightarrow> Inr (obj' # objs')))"

text \<open>
  \<open>std::vector::resize\<close>: shrinking destroys the last slots; growing within the capacity appends
  new slots; growing beyond it copies the slots to new storage and destroys the old ones. The
  destructors run on the pool, whose stack they push to.
\<close>

definition pl_vector_resize :: "'a \<Rightarrow> nat \<Rightarrow> 'a pool \<Rightarrow> 'a pool res" where
  "pl_vector_resize mk n p =
     (let objs = pl_objects p; m = length objs
      in if n \<le> m
         then Inr ((fold ob_destructor (drop n objs) p)\<lparr>pl_objects := take n objs\<rparr>)
         else if n > pl_max_size p then throw (Length_error ''vector::_M_default_append'')
         else if n \<le> pl_capacity p
         then Inr (p\<lparr>pl_objects := objs @ replicate (n - m) (ob_new mk)\<rparr>)
         else Inr ((fold ob_destructor objs p)\<lparr>pl_objects := objs @ replicate (n - m) (ob_new mk),
                     pl_capacity := min (m + max m (n - m)) (pl_max_size p)\<rparr>))"

fun pl_fill :: "int \<Rightarrow> nat \<Rightarrow> 'a pool \<Rightarrow> 'a pool" where
  "pl_fill i 0 p = p"
| "pl_fill i (Suc k) p =
     pl_fill (i + 1) k
       (p\<lparr>pl_objects := (pl_objects p)[nat i := (pl_objects p ! nat i)\<lparr>ob_idx := i\<rparr>],
          pl_available := i # pl_available p\<rparr>)"

text \<open>The bound of the filling loop is the requested size cast to \<open>int\<close>.\<close>

definition pl_resize :: "'a \<Rightarrow> size_t \<Rightarrow> 'a pool \<Rightarrow> 'a pool res" where
  "pl_resize mk numberOfObjectStored p =
     (case pl_destroy_all (pl_trivial p) (pl_objects p) of
        Inl e \<Rightarrow> Inl e
      | Inr objs \<Rightarrow>
          (case pl_vector_resize mk (unat numberOfObjectStored) (p\<lparr>pl_objects := objs, pl_available := []\<rparr>) of
             Inl e \<Rightarrow> Inl e
           | Inr p' \<Rightarrow> Inr (pl_fill 0 (nat (sint (ucast numberOfObjectStored :: cint))) p')))"

definition pl_empty :: "nat \<Rightarrow> nat \<Rightarrow> bool \<Rightarrow> 'a pool" where
  "pl_empty addr max_size triv = \<lparr>pl_available = [], pl_objects = [], pl_addr = addr, pl_capacity = 0,
     pl_max_size = max_size, pl_trivial = triv\<rparr>"

definition pl_new :: "nat \<Rightarrow> nat \<Rightarrow> bool \<Rightarrow> 'a \<Rightarrow> size_t \<Rightarrow> 'a pool res" where
  "pl_new addr max_size triv mk sz = pl_resize mk sz (pl_empty addr max_size triv)"

text \<open>
  \<open>acquire\<close>: \<open>ctor\<close> is what constructing \<open>TType\<close> from the arguments gives, a value or an exception.
  The result comes with the pool, which an exception leaves changed.
\<close>

definition pl_acquire :: "exn + 'a \<Rightarrow> 'a pool \<Rightarrow> int res \<times> 'a pool" where
  "pl_acquire ctor p =
     (case pl_available p of
        [] \<Rightarrow> (throw (Out_of_range ''No available objects in the pool. Maybe try to increase its size.''), p)
      | i # av \<Rightarrow>
          (if \<not> (0 \<le> i \<and> nat i < length (pl_objects p)) then (ub, p\<lparr>pl_available := av\<rparr>)
           else
             (let obj = (pl_objects p ! nat i)\<lparr>ob_pool_ptr := Some (pl_addr p)\<rparr>
              in case pl_destroy (pl_trivial p) obj of
                   Inl e \<Rightarrow> (Inl e, p\<lparr>pl_available := av\<rparr>)
                 | Inr obj' \<Rightarrow>
                     (case ctor of
                        Inl e \<Rightarrow> (throw e, p\<lparr>pl_available := av, pl_objects := (pl_objects p)[nat i := obj']\<rparr>)
                      | Inr v \<Rightarrow>
                          (Inr i, p\<lparr>pl_available := av,
                             pl_objects := (pl_objects p)[nat i := obj'\<lparr>ob_myself := Alive v\<rparr>]\<rparr>)))))"

text \<open>
  \<open>~Pool\<close>: the explicit loop, then the members, the vector first, whose slots still push to the
  stack.
\<close>

definition pl_destructor :: "'a pool \<Rightarrow> 'a pool res" where
  "pl_destructor p =
     (case pl_destroy_all (pl_trivial p) (pl_objects p) of
        Inl e \<Rightarrow> Inl e
      | Inr objs \<Rightarrow>
          Inr ((fold ob_destructor objs (p\<lparr>pl_objects := objs, pl_available := []\<rparr>))
            \<lparr>pl_objects := [], pl_available := []\<rparr>))"

section \<open>Invariant\<close>

text \<open>
  Every slot knows its index and holds a live object, and the stack holds distinct slot numbers.
  The slots not on the stack are on loan.
\<close>

definition pl_wf :: "'a pool \<Rightarrow> bool" where
  [wf_defs]: "pl_wf p \<longleftrightarrow> distinct (pl_available p) \<and>
     set (pl_available p) \<subseteq> {0..<int (length (pl_objects p))} \<and>
     (\<forall>k < length (pl_objects p). ob_idx (pl_objects p ! k) = int k \<and> ob_myself (pl_objects p ! k) \<noteq> Dead)"

definition pl_leased :: "'a pool \<Rightarrow> int set" where
  "pl_leased p = {0..<int (length (pl_objects p))} - set (pl_available p)"

text \<open>With references only, a slot is on loan exactly when its pointer is set.\<close>

definition pl_ref_wf :: "'a pool \<Rightarrow> bool" where
  [wf_defs]: "pl_ref_wf p \<longleftrightarrow> pl_wf p \<and>
     (\<forall>k < length (pl_objects p). ob_pool_ptr (pl_objects p ! k) \<noteq> None \<longleftrightarrow> int k \<notin> set (pl_available p))"

section \<open>Destroying and filling\<close>

lemma destroy_all_ok:
  "triv \<or> (\<forall>obj \<in> set objs. ob_myself obj \<noteq> Dead) \<Longrightarrow>
    pl_destroy_all triv objs = Inr (map (\<lambda>obj. obj\<lparr>ob_myself := Dead\<rparr>) objs)"
  by (induction objs) (auto simp: pl_destroy_def)

lemma destroy_all_dead:
  "obj \<in> set objs \<Longrightarrow> ob_myself obj = Dead \<Longrightarrow> pl_destroy_all False objs = ub"
proof (induction objs)
  case (Cons x xs)
  have errs: "pl_destroy_all False ys = Inl e \<Longrightarrow> e = UB" for ys :: "'a pobject list" and e
    by (induction ys arbitrary: e) (auto simp: pl_destroy_def split: if_splits sum.splits)
  from Cons show ?case
    by (auto simp: pl_destroy_def split: sum.split dest: errs)
qed simp

lemma fold_destructor:
  "fold ob_destructor objs p =
    p\<lparr>pl_available := rev (map ob_idx (filter (\<lambda>obj. ob_pool_ptr obj \<noteq> None) objs)) @ pl_available p\<rparr>"
  by (induction objs arbitrary: p) (auto simp: ob_destructor_def pl_release_def)

lemma fill_eq:
  assumes "0 \<le> i" and "nat i + k \<le> length (pl_objects p)"
  shows "pl_fill i k p = p\<lparr>pl_objects := map (\<lambda>j. (pl_objects p ! j)\<lparr>ob_idx :=
        if i \<le> int j \<and> int j < i + int k then int j else ob_idx (pl_objects p ! j)\<rparr>) [0..<length (pl_objects p)],
      pl_available := rev [i..i + int k - 1] @ pl_available p\<rparr>"
  using assms
proof (induction k arbitrary: i p)
  case 0
  have none: "(i \<le> int j \<and> int j < i + int 0) = False" for j
    by auto
  show ?case unfolding none by (simp add: map_nth)
next
  case (Suc k)
  have upto: "[i..i + int (Suc k) - 1] = i # [i + 1..i + int (Suc k) - 1]"
    by (rule upto_rec1) simp
  show ?case
    using Suc.prems upto
    by (simp add: Suc.IH nth_list_update algebra_simps)
qed

lemma sint_ucast_small:
  assumes "unat (n :: size_t) < 2 ^ 31"
  shows "nat (sint (ucast n :: cint)) = unat n"
proof -
  have bound: "uint n < 2 ^ 31"
    using assms by (metis of_nat_less_iff of_nat_numeral of_nat_power of_nat_unat)
  then have "uint (ucast n :: cint) = uint n"
    by (simp add: unsigned_ucast_eq take_bit_int_eq_self)
  then have "sint (ucast n :: cint) = uint n"
    using bound by (simp add: sint_uint signed_take_bit_int_eq_self order_trans[OF _ uint_ge_0])
  then show ?thesis by simp
qed

lemma fill_new:
  assumes "pl_objects p = replicate m obj"
  shows "pl_fill 0 m p = p\<lparr>pl_objects := map (\<lambda>j. obj\<lparr>ob_idx := int j\<rparr>) [0..<m],
    pl_available := rev [0..int m - 1] @ pl_available p\<rparr>"
proof -
  have "map (\<lambda>j. (replicate m obj ! j)\<lparr>ob_idx := if 0 \<le> int j \<and> int j < 0 + int m then int j
      else ob_idx (replicate m obj ! j)\<rparr>) [0..<m] = map (\<lambda>j. obj\<lparr>ob_idx := int j\<rparr>) [0..<m]"
    by (intro map_cong) auto
  then show ?thesis
    using assms fill_eq[of 0 m p] by simp
qed

lemma new_eq:
  assumes "unat n < 2 ^ 31" and "unat n \<le> max_size" and "m = unat n"
  obtains p where "pl_new addr max_size triv mk n = Inr p" and "pl_addr p = addr" and "pl_trivial p = triv"
    and "pl_available p = rev [0..int m - 1]"
    and "pl_objects p = map (\<lambda>j. (ob_new mk)\<lparr>ob_idx := int j\<rparr>) [0..<m]"
proof -
  have vec: "pl_vector_resize mk m (pl_empty addr max_size triv) =
      Inr ((pl_empty addr max_size triv)\<lparr>pl_objects := replicate m (ob_new mk), pl_capacity := min m max_size\<rparr>)"
    using assms by (auto simp: pl_vector_resize_def pl_empty_def)
  define p where "p = pl_fill 0 m ((pl_empty addr max_size triv)
      \<lparr>pl_objects := replicate m (ob_new mk), pl_capacity := min m max_size\<rparr>)"
  have "pl_new addr max_size triv mk n = Inr p"
    using vec sint_ucast_small[OF assms(1)] assms(3) by (simp add: pl_new_def pl_resize_def pl_empty_def p_def)
  then show thesis
    by (rule that) (simp_all add: p_def fill_new[where obj = "ob_new mk"] pl_empty_def)
qed

lemma new_wf:
  assumes "unat n < 2 ^ 31" and "unat n \<le> max_size"
  obtains p where "pl_new addr max_size triv mk n = Inr p" and "pl_ref_wf p" and "pl_leased p = {}"
    and "length (pl_objects p) = unat n" and "pl_trivial p = triv" and "pl_addr p = addr"
proof -
  obtain m where m: "m = unat n" by simp
  obtain p where p: "pl_new addr max_size triv mk n = Inr p" "pl_addr p = addr" "pl_trivial p = triv"
      "pl_available p = rev [0..int m - 1]"
      "pl_objects p = map (\<lambda>j. (ob_new mk)\<lparr>ob_idx := int j\<rparr>) [0..<m]"
    using assms m by (rule new_eq)
  then have "pl_ref_wf p" "pl_leased p = {}"
    by (auto simp: pl_ref_wf_def pl_wf_def pl_leased_def ob_new_def)
  then show thesis using p m that by simp
qed

section \<open>Acquiring and releasing\<close>

lemma acquire_eq:
  assumes "pl_wf p" and "pl_available p = i # av"
  shows "pl_acquire (Inr v) p = (Inr i, p\<lparr>pl_available := av, pl_objects := (pl_objects p)[nat i :=
    \<lparr>ob_pool_ptr = Some (pl_addr p), ob_idx = i, ob_myself = Alive v\<rparr>]\<rparr>)"
proof -
  have i: "0 \<le> i" "nat i < length (pl_objects p)"
    using assms by (auto simp: pl_wf_def)
  then have slot: "ob_idx (pl_objects p ! nat i) = i" "ob_myself (pl_objects p ! nat i) \<noteq> Dead"
    using assms(1) by (auto simp: pl_wf_def)
  show ?thesis
    using i slot assms(2) by (cases "pl_objects p ! nat i") (simp add: pl_acquire_def pl_destroy_def)
qed

lemma acquire_wf:
  assumes "pl_wf p" and "pl_available p = i # av"
  shows "pl_wf (snd (pl_acquire (Inr v) p))"
    and "pl_ref_wf p \<Longrightarrow> pl_ref_wf (snd (pl_acquire (Inr v) p))"
    and "pl_leased (snd (pl_acquire (Inr v) p)) = insert i (pl_leased p)"
    and "i \<notin> pl_leased p"
    and "pl_get i (snd (pl_acquire (Inr v) p)) = Inr v"
    and "j \<noteq> i \<Longrightarrow> pl_get j (snd (pl_acquire (Inr v) p)) = pl_get j p"
proof -
  have i: "0 \<le> i" "nat i < length (pl_objects p)" "i \<notin> set av"
    using assms by (auto simp: pl_wf_def)
  show wf: "pl_wf (snd (pl_acquire (Inr v) p))"
    using assms i by (auto simp: acquire_eq[OF assms] pl_wf_def nth_list_update)
  show "pl_ref_wf (snd (pl_acquire (Inr v) p))" if "pl_ref_wf p"
    using that wf assms i by (auto simp: acquire_eq[OF assms] pl_ref_wf_def nth_list_update)
  show "pl_leased (snd (pl_acquire (Inr v) p)) = insert i (pl_leased p)"
    using assms(2) i by (auto simp: acquire_eq[OF assms] pl_leased_def)
  show "i \<notin> pl_leased p"
    using assms(2) by (simp add: pl_leased_def)
  show "pl_get i (snd (pl_acquire (Inr v) p)) = Inr v"
    using i by (simp add: acquire_eq[OF assms] pl_get_def)
  show "pl_get j (snd (pl_acquire (Inr v) p)) = pl_get j p" if "j \<noteq> i"
    using that i by (auto simp: acquire_eq[OF assms] pl_get_def nth_list_update)
qed

lemma available_Nil_iff:
  "pl_wf p \<Longrightarrow> pl_available p = [] \<longleftrightarrow> pl_leased p = {0..<int (length (pl_objects p))}"
  by (cases "pl_available p") (auto simp: pl_wf_def pl_leased_def)

lemma release_slot_leased:
  assumes "pl_ref_wf p" and "i \<in> pl_leased p"
  obtains p' where "pl_release_slot i p = Inr p'" and "pl_ref_wf p'" and "pl_leased p' = pl_leased p - {i}"
    and "pl_available p' = i # pl_available p" and "\<And>j. pl_get j p' = pl_get j p"
proof -
  have i: "0 \<le> i" "nat i < length (pl_objects p)" "i \<notin> set (pl_available p)"
    using assms(2) by (auto simp: pl_leased_def)
  moreover have "ob_pool_ptr (pl_objects p ! nat i) \<noteq> None" "ob_idx (pl_objects p ! nat i) = i"
    using assms(1) i by (auto simp: pl_ref_wf_def pl_wf_def)
  ultimately have eq: "pl_release_slot i p = Inr (p\<lparr>pl_available := i # pl_available p,
      pl_objects := (pl_objects p)[nat i := (pl_objects p ! nat i)\<lparr>ob_pool_ptr := None\<rparr>]\<rparr>)"
    by (auto simp: pl_release_slot_def pl_release_def)
  show thesis
  proof (rule that[OF eq])
    show "pl_ref_wf (p\<lparr>pl_available := i # pl_available p,
        pl_objects := (pl_objects p)[nat i := (pl_objects p ! nat i)\<lparr>ob_pool_ptr := None\<rparr>]\<rparr>)"
      using assms(1) i by (auto simp: pl_ref_wf_def pl_wf_def nth_list_update)
  qed (use i in \<open>auto simp: pl_leased_def pl_get_def nth_list_update\<close>)
qed

lemma release_slot_available:
  assumes "pl_ref_wf p" and "i \<in> set (pl_available p)"
  shows "pl_release_slot i p = Inr p"
proof -
  have i: "0 \<le> i" "nat i < length (pl_objects p)"
    using assms by (auto simp: pl_ref_wf_def pl_wf_def subset_iff)
  then have "ob_pool_ptr (pl_objects p ! nat i) = None"
    using assms by (auto simp: pl_ref_wf_def)
  with i show ?thesis
    by (simp add: pl_release_slot_def pl_release_def)
qed

lemma destroy_copy_wf:
  assumes "pl_wf p" and "ob_idx obj \<in> pl_leased p" and "ob_pool_ptr obj \<noteq> None"
  shows "pl_wf (ob_destructor obj p)" and "pl_leased (ob_destructor obj p) = pl_leased p - {ob_idx obj}"
  using assms by (auto simp: ob_destructor_def pl_release_def pl_wf_def pl_leased_def)

section \<open>Properties\<close>

text \<open>
  C24. Leases. A new pool of \<open>n\<close> objects lends none of them; \<open>acquire\<close> lends a slot that is not on
  loan, with the object constructed in it, and touches no other slot; it throws exactly when every
  slot is on loan; \<open>release\<close> of a lent slot makes it available again, and of any other slot does
  nothing. Destroying the copy of a lent object does the same. Every step keeps the invariant.
\<close>

theorem pool_leases:
  assumes "pl_ref_wf p"
  shows "(\<forall>n max_size triv addr mk. unat n < 2 ^ 31 \<longrightarrow> unat n \<le> max_size \<longrightarrow>
      (\<exists>q. pl_new addr max_size triv mk n = Inr q \<and> pl_ref_wf (q :: 'a pool) \<and> pl_leased q = {} \<and>
        length (pl_objects q) = unat n)) \<and>
    (if pl_leased p = {0..<int (length (pl_objects p))}
     then pl_acquire (Inr v) p =
       (throw (Out_of_range ''No available objects in the pool. Maybe try to increase its size.''), p)
     else \<exists>i p'. pl_acquire (Inr v) p = (Inr i, p') \<and> i \<notin> pl_leased p \<and> pl_leased p' = insert i (pl_leased p) \<and>
       pl_ref_wf p' \<and> pl_get i p' = Inr v \<and> (\<forall>j. j \<noteq> i \<longrightarrow> pl_get j p' = pl_get j p)) \<and>
    (\<forall>i \<in> {0..<int (length (pl_objects p))}. \<exists>p'. pl_release_slot i p = Inr p' \<and> pl_ref_wf p' \<and>
       pl_leased p' = pl_leased p - {i} \<and> (i \<notin> pl_leased p \<longrightarrow> p' = p)) \<and>
    (\<forall>obj. ob_pool_ptr obj \<noteq> None \<longrightarrow> ob_idx obj \<in> pl_leased p \<longrightarrow>
       pl_wf (ob_destructor obj p) \<and> pl_leased (ob_destructor obj p) = pl_leased p - {ob_idx obj})"
    (is "?new \<and> ?acquire \<and> ?release \<and> ?destroy")
proof (intro conjI)
  show ?new
    by (intro allI impI) (rule new_wf, assumption+, blast)
  have wf: "pl_wf p"
    using assms by (simp add: pl_ref_wf_def)
  show ?acquire
  proof (cases "pl_available p")
    case Nil
    then show ?thesis
      using available_Nil_iff[OF wf] by (simp add: pl_acquire_def)
  next
    case (Cons i av)
    then have "pl_leased p \<noteq> {0..<int (length (pl_objects p))}"
      using available_Nil_iff[OF wf] by simp
    moreover obtain p' where p': "pl_acquire (Inr v) p = (Inr i, p')"
      using acquire_eq[OF wf Cons] by blast
    ultimately show ?thesis
      using acquire_wf[OF wf Cons] assms by (metis snd_conv)
  qed
  show ?release
  proof
    fix i
    assume i: "i \<in> {0..<int (length (pl_objects p))}"
    show "\<exists>p'. pl_release_slot i p = Inr p' \<and> pl_ref_wf p' \<and> pl_leased p' = pl_leased p - {i} \<and>
        (i \<notin> pl_leased p \<longrightarrow> p' = p)"
    proof (cases "i \<in> pl_leased p")
      case True
      from release_slot_leased[OF assms this] show ?thesis by (metis True)
    next
      case False
      then have "i \<in> set (pl_available p)"
        using i by (simp add: pl_leased_def)
      from release_slot_available[OF assms this] False assms show ?thesis by simp
    qed
  qed
  show ?destroy
    using destroy_copy_wf[OF wf] by blast
qed

theorem pool_leases_witness:
  "\<exists>p :: nat pool. pl_new 0 1000 False 0 2 = Inr p \<and>
     (\<exists>i p'. pl_acquire (Inr 7) p = (Inr i, p') \<and> pl_leased p' = {i} \<and> pl_get i p' = Inr 7)"
proof -
  obtain p :: "nat pool" where p: "pl_new 0 1000 False 0 2 = Inr p" "pl_ref_wf p" "pl_leased p = {}"
      "length (pl_objects p) = 2"
    by (rule new_wf[of 2 1000 0 False 0]) simp_all
  have "pl_leased p \<noteq> {0..<int (length (pl_objects p))}"
    using p(3,4) by simp
  then obtain i p' where "pl_acquire (Inr 7) p = (Inr i, p')" "pl_leased p' = insert i (pl_leased p)"
      "pl_get i p' = Inr 7"
    using pool_leases[OF p(2), of 7] by auto
  with p show ?thesis by auto
qed

text \<open>
  \<open>release\<close> does not destroy the object: it stays alive and readable in its slot until the slot
  is lent again, which is the next thing \<open>acquire\<close> does (the slot released last is lent first). If
  the constructor throws then, the slot is lost: it is off the stack and nobody has it.
\<close>

theorem pool_release_keeps_object:
  assumes "pl_ref_wf p" and "i \<in> pl_leased p" and "pl_release_slot i p = Inr p'"
  shows "pl_get i p' = pl_get i p \<and>
    (\<exists>q. pl_acquire (Inr v) p' = (Inr i, q) \<and> pl_leased q = pl_leased p \<and> pl_get i q = Inr v) \<and>
    (\<exists>q. pl_acquire (Inl e) p' = (throw e, q) \<and> pl_leased q = pl_leased p \<and> pl_get i q = ub)"
proof -
  obtain p'' where p'': "pl_release_slot i p = Inr p''" "pl_ref_wf p''" "pl_leased p'' = pl_leased p - {i}"
      "pl_available p'' = i # pl_available p" "\<And>j. pl_get j p'' = pl_get j p"
    using release_slot_leased[OF assms(1,2)] by metis
  then have eq: "p'' = p'" using assms(3) by simp
  have wf: "pl_wf p'" using p''(2) eq by (simp add: pl_ref_wf_def)
  have av: "pl_available p' = i # pl_available p" using p''(4) eq by simp
  obtain q where q: "pl_acquire (Inr v) p' = (Inr i, q)"
    using acquire_eq[OF wf av] by blast
  have insert: "insert i (pl_leased p') = pl_leased p"
    using p''(3) eq assms(2) by blast
  have q_props: "pl_leased q = pl_leased p" "pl_get i q = Inr v"
    using acquire_wf(3,5)[OF wf av, of v] q insert by simp_all
  have i: "0 \<le> i" "nat i < length (pl_objects p')" "i \<notin> set (pl_available p)" "ob_myself (pl_objects p' ! nat i) \<noteq> Dead"
    using wf av by (auto simp: pl_wf_def)
  then have "insert i (pl_leased p') = {0..<int (length (pl_objects p'))} - set (pl_available p)"
    using av by (auto simp: pl_leased_def)
  then obtain q' where q': "pl_acquire (Inl e) p' = (throw e, q')" "pl_get i q' = ub"
      "pl_leased q' = insert i (pl_leased p')"
    using av i by (simp add: pl_acquire_def pl_destroy_def pl_get_def pl_leased_def)
  show ?thesis
    using p''(5) eq q q_props q' insert by auto
qed

theorem pool_release_keeps_object_witness:
  "\<exists>p i p'. pl_leased (p :: nat pool) = {i} \<and> pl_release_slot i p = Inr p' \<and> pl_get i p' = Inr 7"
proof -
  obtain p0 :: "nat pool" where p0: "pl_ref_wf p0" "pl_leased p0 = {}" "length (pl_objects p0) = 2"
    by (rule new_wf[of 2 1000 0 False 0]) simp_all
  then have wf0: "pl_wf p0" and "pl_available p0 \<noteq> []"
    using available_Nil_iff[of p0] by (auto simp: pl_ref_wf_def)
  then obtain i av where av: "pl_available p0 = i # av" by (cases "pl_available p0") auto
  define p where "p = snd (pl_acquire (Inr 7) p0)"
  have p: "pl_ref_wf p" "pl_leased p = {i}" "pl_get i p = Inr 7"
    using acquire_wf(2,3,5)[OF wf0 av] p0 by (simp_all add: p_def)
  then obtain p' where p': "pl_release_slot i p = Inr p'"
    using release_slot_leased[of p i] by (metis singletonI)
  from conjunct1[OF pool_release_keeps_object[OF p(1) _ this]] p p' show ?thesis by auto
qed

lemma fill_myself: "map ob_myself (pl_objects (pl_fill i k p)) = map ob_myself (pl_objects p)"
proof (induction k arbitrary: i p)
  case (Suc k)
  have "map ob_myself (xs[j := (xs ! j)\<lparr>ob_idx := i\<rparr>]) = map ob_myself xs" for j :: nat and xs :: "'a pobject list"
    by (cases "j < length xs") (simp_all add: map_update list_update_same_conv list_update_beyond)
  then show ?case by (simp add: Suc.IH)
qed simp

lemma fill_length [simp]: "length (pl_objects (pl_fill i k p)) = length (pl_objects p)"
  using arg_cong[OF fill_myself, of length] by simp

lemma fill_trivial [simp]: "pl_trivial (pl_fill i k p) = pl_trivial p"
  by (induction k arbitrary: i p) simp_all

lemma vector_resize_prefix:
  assumes "pl_vector_resize mk n p = Inr q"
  shows "take (length (pl_objects p)) (pl_objects q) = take n (pl_objects p)" and "length (pl_objects q) = n"
    and "pl_trivial q = pl_trivial p"
  using assms by (auto simp: pl_vector_resize_def fold_destructor Let_def split: if_splits)

text \<open>After a resize, the slots that were there before hold destroyed objects.\<close>

lemma resize_dead:
  assumes "pl_resize mk n p = Inr q" and "k < unat n" and "k < length (pl_objects p)"
  shows "k < length (pl_objects q)" and "ob_myself (pl_objects q ! k) = Dead"
    and "pl_trivial q = pl_trivial p"
proof -
  let ?ok = "pl_trivial p \<or> (\<forall>obj \<in> set (pl_objects p). ob_myself obj \<noteq> Dead)"
  have ?ok
    using assms(1) destroy_all_dead[of _ "pl_objects p"] by (cases "pl_trivial p") (auto simp: pl_resize_def)
  from destroy_all_ok[OF this] assms(1) obtain r where
    r: "pl_vector_resize mk (unat n) (p\<lparr>pl_objects := map (\<lambda>obj. obj\<lparr>ob_myself := Dead\<rparr>) (pl_objects p),
        pl_available := []\<rparr>) = Inr r"
    and q: "q = pl_fill 0 (nat (sint (ucast n :: cint))) r"
    by (auto simp: pl_resize_def split: sum.splits)
  note vec = vector_resize_prefix[OF r]
  show "k < length (pl_objects q)" "pl_trivial q = pl_trivial p"
    using assms(2) vec(2,3) by (simp_all add: q)
  have "pl_objects r ! k = take (length (pl_objects p)) (pl_objects r) ! k"
    using assms(3) by simp
  also have "\<dots> = (pl_objects p ! k)\<lparr>ob_myself := Dead\<rparr>"
    using vec(1) assms(2,3) by simp
  finally have "ob_myself (pl_objects r ! k) = Dead" by simp
  moreover have "map ob_myself (pl_objects q) ! k = map ob_myself (pl_objects r) ! k"
    by (simp add: q fill_myself)
  ultimately show "ob_myself (pl_objects q ! k) = Dead"
    using assms(2) vec(2) by (simp add: q)
qed

lemma rev_upto_Cons: "0 < m \<Longrightarrow> rev [0..int m - 1] = int (m - 1) # rev [0..int m - 2]"
  by (subst upto_rec2) (auto simp: of_nat_diff)

text \<open>
  C25. Resizing a pool that has slots leaves it unusable, for a type with a destructor that is not
  trivial: the objects in the slots that remain have been destroyed and are destroyed again by the
  destructor of the pool, by the next resize, and by the next \<open>acquire\<close> when the pool did not grow.
\<close>

theorem pool_resize_double_destroy:
  assumes "\<not> pl_trivial p" and "pl_objects p \<noteq> []" and "0 < unat n" and "pl_resize mk n p = Inr q"
  shows "pl_destructor q = ub \<and> pl_resize mk' m q = ub \<and>
    (unat n \<le> length (pl_objects p) \<and> unat n < 2 ^ 31 \<longrightarrow> fst (pl_acquire c q) = ub)"
proof (intro conjI impI)
  have "pl_destroy_all (pl_trivial q) (pl_objects q) = ub"
    using resize_dead[OF assms(4), of 0] assms(1-3) destroy_all_dead[of "pl_objects q ! 0"] by auto
  then show "pl_destructor q = ub" "pl_resize mk' m q = ub"
    by (simp_all add: pl_destructor_def pl_resize_def)
  assume n: "unat n \<le> length (pl_objects p) \<and> unat n < 2 ^ 31"
  let ?k = "unat n - 1"
  have k: "?k < unat n" "?k < length (pl_objects p)"
    using n assms(3) by linarith+
  have dead: "?k < length (pl_objects q)" "ob_myself (pl_objects q ! ?k) = Dead" "\<not> pl_trivial q"
    using resize_dead[OF assms(4) k] assms(1) by simp_all
  obtain r where r: "q = pl_fill 0 (unat n) r" "length (pl_objects r) = unat n"
    using assms(4) sint_ucast_small[of n] n
    by (auto simp: pl_resize_def split: sum.splits dest: vector_resize_prefix(2))
  have "pl_available q = rev [0..int (unat n) - 1] @ pl_available r"
    using fill_eq[of 0 "unat n" r] r by simp
  then have "\<exists>av. pl_available q = int ?k # av"
    unfolding rev_upto_Cons[OF assms(3)] by simp
  then show "fst (pl_acquire c q) = ub"
    using dead by (auto simp: pl_acquire_def pl_destroy_def)
qed

theorem pool_resize_double_destroy_witness:
  "\<exists>p q. pl_new 0 1000 False (0 :: nat) 2 = Inr p \<and> pl_resize 0 2 p = Inr q \<and>
     fst (pl_acquire (Inr 5) q) = ub \<and> pl_destructor q = ub"
proof -
  obtain p :: "nat pool" where p: "pl_new 0 1000 False 0 2 = Inr p" "pl_ref_wf p"
      "length (pl_objects p) = 2" "\<not> pl_trivial p"
    by (rule new_wf[of 2 1000 0 False 0]) simp_all
  have alive: "\<forall>obj \<in> set (pl_objects p). ob_myself obj \<noteq> Dead"
    using p(2) by (auto simp: pl_ref_wf_def pl_wf_def in_set_conv_nth)
  obtain q where q: "pl_resize 0 2 p = Inr q"
    using p(3) by (simp add: pl_resize_def destroy_all_ok[OF disjI2[OF alive]] pl_vector_resize_def)
  have "pl_objects p \<noteq> []" using p(3) by auto
  from pool_resize_double_destroy[OF p(4) this _ q, of 0 0 "Inr 5"] p q show ?thesis by auto
qed

text \<open>
  Copies. \<open>Object\<close> can be copied, and a copy keeps the pointer and the index. When a lent slot is
  released through its reference and a copy of it is destroyed, the slot is on the stack twice, and
  the next two calls of \<open>acquire\<close> lend it to two owners at once.
\<close>

theorem pool_copy_aliases:
  assumes "pl_ref_wf p" and "pl_available p = i # av" and "pl_acquire (Inr u) p = (Inr i, p1)"
    and "pl_release_slot i p1 = Inr p2"
  shows "\<exists>q1 q2. pl_acquire (Inr v) (ob_destructor (pl_objects p1 ! nat i) p2) = (Inr i, q1) \<and>
    pl_acquire (Inr w) q1 = (Inr i, q2) \<and> pl_get i q1 = Inr v \<and> pl_get i q2 = Inr w"
proof -
  have wf: "pl_wf p" using assms(1) by (simp add: pl_ref_wf_def)
  have i: "0 \<le> i" "nat i < length (pl_objects p)"
    using wf assms(2) by (auto simp: pl_wf_def)
  have p1: "p1 = p\<lparr>pl_available := av, pl_objects := (pl_objects p)[nat i :=
      \<lparr>ob_pool_ptr = Some (pl_addr p), ob_idx = i, ob_myself = Alive u\<rparr>]\<rparr>"
    using assms(3) acquire_eq[OF wf assms(2)] by simp
  have p2: "p2 = p1\<lparr>pl_available := i # av, pl_objects := (pl_objects p)[nat i :=
      \<lparr>ob_pool_ptr = None, ob_idx = i, ob_myself = Alive u\<rparr>]\<rparr>"
    using assms(4) i by (simp add: p1 pl_release_slot_def pl_release_def)
  show ?thesis
    using i by (simp add: p1 p2 ob_destructor_def pl_release_def pl_acquire_def pl_destroy_def pl_get_def)
qed

theorem pool_copy_aliases_witness:
  "\<exists>(p1 :: nat pool) p2 i q1 q2. pl_acquire (Inr 2) (ob_destructor (pl_objects p1 ! nat i) p2) = (Inr i, q1) \<and>
    pl_acquire (Inr 3) q1 = (Inr i, q2) \<and> pl_get i q1 = Inr 2 \<and> pl_get i q2 = Inr 3"
proof -
  obtain p :: "nat pool" where p: "pl_ref_wf p" "pl_leased p = {}" "length (pl_objects p) = 2"
    by (rule new_wf[of 2 1000 0 False 0]) simp_all
  then have wf: "pl_wf p" and "pl_available p \<noteq> []"
    using available_Nil_iff[of p] by (auto simp: pl_ref_wf_def)
  then obtain i av where av: "pl_available p = i # av" by (cases "pl_available p") auto
  obtain p1 where p1: "pl_acquire (Inr 1) p = (Inr i, p1)"
    using acquire_eq[OF wf av] by blast
  then have "pl_ref_wf p1" "pl_leased p1 = {i}"
    using acquire_wf(2,3)[OF wf av, of 1] p by simp_all
  then obtain p2 where "pl_release_slot i p1 = Inr p2"
    using release_slot_leased[of p1 i] by (metis singletonI)
  from pool_copy_aliases[OF p(1) av p1 this, of 2 3] show ?thesis by blast
qed

end
