(* ===== verification/State_Machine.thy ===== *)
theory State_Machine
  imports Libftpp_Prelude
begin

text \<open>
  \<^verbatim>\<open>src/src/design_patterns/state_machine\<close>: states, transitions with a callback each, and an action
  per state. Before the first state is added the current state is what default initialisation leaves
  in a \<open>TState\<close>: nothing for integers and enumerations, where reading it is undefined, and a default
  value for a class. A callback is a name of type \<open>'cb\<close>, and \<open>run\<close> executes it on the machine and the rest
  of the world, so that callbacks may use the machine and may throw.
\<close>

section \<open>State and operations\<close>

record ('s, 'cb) state_machine =
  sm_current :: "'s option"
  sm_states :: "'s set"
  sm_actions :: "'s \<Rightarrow> 'cb option"
  sm_transitions :: "'s \<times> 's \<Rightarrow> 'cb option"

definition sm_new :: "'s option \<Rightarrow> ('s, 'cb) state_machine" where
  "sm_new dflt = \<lparr>sm_current = dflt, sm_states = {}, sm_actions = (\<lambda>_. None), sm_transitions = (\<lambda>_. None)\<rparr>"

definition sm_addState :: "'s \<Rightarrow> ('s, 'cb) state_machine \<Rightarrow> ('s, 'cb) state_machine" where
  "sm_addState state m =
     (let m1 = (if sm_states m = {} then m\<lparr>sm_current := Some state\<rparr> else m)
      in m1\<lparr>sm_states := insert state (sm_states m1)\<rparr>)"

definition sm_addTransition ::
  "'s \<Rightarrow> 's \<Rightarrow> 'cb \<Rightarrow> ('s, 'cb) state_machine \<Rightarrow> ('s, 'cb) state_machine res" where
  "sm_addTransition startState finalState lambda m =
     (if startState \<notin> sm_states m \<or> startState \<notin> sm_states m
      then throw (Invalid_argument ''Invalid State'')
      else Inr (m\<lparr>sm_transitions := (sm_transitions m)((startState, finalState) \<mapsto> lambda)\<rparr>))"

definition sm_addAction :: "'s \<Rightarrow> 'cb \<Rightarrow> ('s, 'cb) state_machine \<Rightarrow> ('s, 'cb) state_machine" where
  "sm_addAction state lambda m = m\<lparr>sm_actions := (sm_actions m)(state \<mapsto> lambda)\<rparr>"

definition sm_transitionTo ::
  "('cb \<Rightarrow> ('s, 'cb) state_machine \<times> 'w \<Rightarrow> unit res \<times> ('s, 'cb) state_machine \<times> 'w) \<Rightarrow> 's
     \<Rightarrow> ('s, 'cb) state_machine \<times> 'w \<Rightarrow> unit res \<times> ('s, 'cb) state_machine \<times> 'w" where
  "sm_transitionTo run state mw =
     (case sm_current (fst mw) of
        None \<Rightarrow> (ub, mw)
      | Some cur \<Rightarrow>
          (case sm_transitions (fst mw) (cur, state) of
             None \<Rightarrow> (throw (Invalid_argument ''No transition found''), mw)
           | Some lambda \<Rightarrow>
               (case run lambda mw of
                  (Inl e, mw') \<Rightarrow> (Inl e, mw')
                | (Inr u, m', w') \<Rightarrow> (Inr (), m'\<lparr>sm_current := Some state\<rparr>, w'))))"

definition sm_update ::
  "('cb \<Rightarrow> ('s, 'cb) state_machine \<times> 'w \<Rightarrow> unit res \<times> ('s, 'cb) state_machine \<times> 'w)
     \<Rightarrow> ('s, 'cb) state_machine \<times> 'w \<Rightarrow> unit res \<times> ('s, 'cb) state_machine \<times> 'w" where
  "sm_update run mw =
     (case sm_current (fst mw) of
        None \<Rightarrow> (ub, mw)
      | Some cur \<Rightarrow>
          (case sm_actions (fst mw) cur of
             None \<Rightarrow> (throw (Invalid_argument ''No action found''), mw)
           | Some lambda \<Rightarrow> run lambda mw))"

section \<open>Invariant\<close>

text \<open>
  A machine with states has a current state, and transitions start from declared states. A machine
  is closed when the transitions also end in declared states, which the code does not check.
\<close>

definition sm_wf :: "('s, 'cb) state_machine \<Rightarrow> bool" where
  [wf_defs]: "sm_wf m \<longleftrightarrow> (sm_states m \<noteq> {} \<longrightarrow> sm_current m \<noteq> None) \<and>
     (\<forall>a b. sm_transitions m (a, b) \<noteq> None \<longrightarrow> a \<in> sm_states m)"

definition sm_closed :: "('s, 'cb) state_machine \<Rightarrow> bool" where
  "sm_closed m \<longleftrightarrow> sm_wf m \<and> (\<forall>a b. sm_transitions m (a, b) \<noteq> None \<longrightarrow> b \<in> sm_states m) \<and>
     (\<forall>s. sm_states m \<noteq> {} \<longrightarrow> sm_current m = Some s \<longrightarrow> s \<in> sm_states m)"

text \<open>A callback that leaves the machine alone.\<close>

definition sm_passive ::
  "('cb \<Rightarrow> ('s, 'cb) state_machine \<times> 'w \<Rightarrow> unit res \<times> ('s, 'cb) state_machine \<times> 'w) \<Rightarrow> bool" where
  "sm_passive run \<longleftrightarrow> (\<forall>f m w. fst (snd (run f (m, w))) = m)"

lemma sm_passiveD: "sm_passive run \<Longrightarrow> run f (m, w) = (r, m', w') \<Longrightarrow> m' = m"
  by (metis fst_conv snd_conv sm_passive_def)

lemma sm_wf_new: "sm_wf (sm_new d)" "sm_closed (sm_new d)"
  by (simp_all add: sm_closed_def sm_wf_def sm_new_def)

lemma addState_wf:
  "sm_wf m \<Longrightarrow> sm_wf (sm_addState s m)" "sm_closed m \<Longrightarrow> sm_closed (sm_addState s m)"
  by (auto simp: sm_closed_def sm_wf_def sm_addState_def Let_def)

lemma addTransition_wf:
  "sm_wf m \<Longrightarrow> sm_addTransition a b f m = Inr m' \<Longrightarrow> sm_wf m'"
  "sm_closed m \<Longrightarrow> b \<in> sm_states m \<Longrightarrow> sm_addTransition a b f m = Inr m' \<Longrightarrow> sm_closed m'"
  unfolding sm_closed_def sm_wf_def sm_addTransition_def by (fastforce split: if_splits)+

lemma addAction_wf:
  "sm_wf (sm_addAction s f m) = sm_wf m" "sm_closed (sm_addAction s f m) = sm_closed m"
  by (simp_all add: sm_closed_def sm_wf_def sm_addAction_def)

lemma transitionTo_passive:
  assumes "sm_wf m" and "sm_passive run" and "sm_states m \<noteq> {}"
  obtains cur where "sm_current m = Some cur"
    and "sm_transitionTo run s (m, w) =
      (case sm_transitions m (cur, s) of
         None \<Rightarrow> (throw (Invalid_argument ''No transition found''), m, w)
       | Some f \<Rightarrow> (case run f (m, w) of
           (Inl e, _, w') \<Rightarrow> (Inl e, m, w') | (Inr _, _, w') \<Rightarrow> (Inr (), m\<lparr>sm_current := Some s\<rparr>, w')))"
proof -
  from assms obtain cur where cur: "sm_current m = Some cur"
    by (auto simp: sm_wf_def)
  show thesis
    by (rule that[OF cur])
      (auto simp: sm_transitionTo_def cur split: option.split sum.split prod.split dest: sm_passiveD[OF assms(2)])
qed

section \<open>Properties\<close>


definition sm_log_run :: "nat \<Rightarrow> (nat, nat) state_machine \<times> nat list \<Rightarrow> unit res \<times> (nat, nat) state_machine \<times> nat list" where
  "sm_log_run f mw = (Inr (), fst mw, snd mw @ [f])"

lemma sm_log_run_passive: "sm_passive sm_log_run"
  by (simp add: sm_passive_def sm_log_run_def)


text \<open>
  \<open>addTransition\<close> looks the start state up twice and the final state never: a transition to an
  undeclared state is accepted, and taking it leaves the machine in a state it does not have.
\<close>

theorem state_machine_unchecked_target:
  assumes "sm_current m = Some a" and "a \<in> sm_states m" and "b \<notin> sm_states m"
    and "\<And>m' w'. run f (m', w') = (Inr (), m', g w')"
  shows "\<exists>m1. sm_addTransition a b f m = Inr m1 \<and>
    (\<exists>m2. sm_transitionTo run b (m1, w) = (Inr (), m2, g w) \<and> sm_current m2 = Some b \<and> b \<notin> sm_states m2)"
  using assms by (simp add: sm_addTransition_def sm_transitionTo_def)

theorem state_machine_unchecked_target_witness:
  "\<exists>m1. sm_addTransition 1 9 7 (sm_addState 1 (sm_new None)) = Inr m1 \<and>
    (\<exists>m2. sm_transitionTo sm_log_run 9 (m1, []) = (Inr (), m2, [] @ [7]) \<and> sm_current m2 = Some 9 \<and> 9 \<notin> sm_states m2)"
  by (rule state_machine_unchecked_target[where g = "\<lambda>w. w @ [7]"])
    (simp_all add: sm_log_run_def sm_addState_def sm_new_def)

end
