(* ===== verification/Observers.thy ===== *)
theory Observers
  imports Libftpp_Prelude
begin

text \<open>
  The three small notification and ownership patterns: \<^verbatim>\<open>src/src/design_patterns/observer\<close> (callbacks
  per event), \<^verbatim>\<open>src/src/bonus/observable_value\<close> (a value whose changes are sent to a set of
  observers) and \<^verbatim>\<open>src/src/design_patterns/singleton\<close>. Callbacks and observers may use the object that
  calls them: they are run on it and the rest of the world, and where that breaks an iteration of
  the code the result is undefined behaviour.
\<close>

section \<open>Observer\<close>

record ('e, 'cb) observer =
  obs_events :: "'e \<Rightarrow> 'cb list option"

definition obs_new :: "('e, 'cb) observer" where
  "obs_new = \<lparr>obs_events = (\<lambda>_. None)\<rparr>"

definition obs_subscribe :: "'e \<Rightarrow> 'cb \<Rightarrow> ('e, 'cb) observer \<Rightarrow> ('e, 'cb) observer" where
  "obs_subscribe event lambda ob =
     ob\<lparr>obs_events := (obs_events ob)(event \<mapsto>
       (case obs_events ob event of None \<Rightarrow> [] | Some fs \<Rightarrow> fs) @ [lambda])\<rparr>"

text \<open>
  The range-based loop over the vector of the event: a callback that changes that vector
  invalidates the iterators of the loop.
\<close>

fun obs_loop ::
  "('cb \<Rightarrow> ('e, 'cb) observer \<times> 'w \<Rightarrow> unit res \<times> ('e, 'cb) observer \<times> 'w) \<Rightarrow> 'e \<Rightarrow> 'cb list
     \<Rightarrow> ('e, 'cb) observer \<times> 'w \<Rightarrow> unit res \<times> ('e, 'cb) observer \<times> 'w" where
  "obs_loop run event [] ow = (Inr (), ow)"
| "obs_loop run event (f # fs) ow =
     (case run f ow of
        (Inl e, ow') \<Rightarrow> (Inl e, ow')
      | (Inr u, ow') \<Rightarrow>
          (if obs_events (fst ow') event \<noteq> obs_events (fst ow) event then (ub, ow')
           else obs_loop run event fs ow'))"

definition obs_notify ::
  "('cb \<Rightarrow> ('e, 'cb) observer \<times> 'w \<Rightarrow> unit res \<times> ('e, 'cb) observer \<times> 'w) \<Rightarrow> 'e
     \<Rightarrow> ('e, 'cb) observer \<times> 'w \<Rightarrow> unit res \<times> ('e, 'cb) observer \<times> 'w" where
  "obs_notify run event ow =
     (case obs_events (fst ow) event of None \<Rightarrow> (Inr (), ow) | Some fs \<Rightarrow> obs_loop run event fs ow)"

section \<open>Observable value\<close>

text \<open>
  Observers are addresses, 0 for the null pointer; \<^verbatim>\<open>std::set\<close> keeps them in increasing order and
  without duplicates. \<open>neq\<close> is the operator \<open>!=\<close> of the value type.
\<close>

type_synonym addr = size_t

record 'v observable =
  ov_value :: 'v
  ov_subscriber :: "addr list"

definition ov_new :: "'v \<Rightarrow> 'v observable" where
  "ov_new v = \<lparr>ov_value = v, ov_subscriber = []\<rparr>"

definition ov_subscribe :: "addr \<Rightarrow> 'v observable \<Rightarrow> 'v observable" where
  "ov_subscribe observer v =
     (if observer \<noteq> 0
      then v\<lparr>ov_subscriber := (if observer \<in> set (ov_subscriber v) then ov_subscriber v
                              else insort observer (ov_subscriber v))\<rparr>
      else v)"

definition ov_unsubscribe :: "addr \<Rightarrow> 'v observable \<Rightarrow> 'v observable" where
  "ov_unsubscribe observer v =
     (if observer \<noteq> 0 then v\<lparr>ov_subscriber := filter (\<lambda>a. a \<noteq> observer) (ov_subscriber v)\<rparr> else v)"

text \<open>
  The loop of \<open>notify\<close> from the observer \<open>a\<close>: the iterator moves to the next greater address in the
  set as it is then; erasing the observer the iterator is at invalidates it.
\<close>

function ov_walk ::
  "(addr \<Rightarrow> 'v \<Rightarrow> 'v observable \<times> 'w \<Rightarrow> unit res \<times> 'v observable \<times> 'w) \<Rightarrow> addr
     \<Rightarrow> 'v observable \<times> 'w \<Rightarrow> unit res \<times> 'v observable \<times> 'w" where
  "ov_walk upd a vw =
     (case (if a \<noteq> 0 then upd a (ov_value (fst vw)) vw else (Inr (), vw)) of
        (Inl e, vw') \<Rightarrow> (Inl e, vw')
      | (Inr u, vw') \<Rightarrow>
          (if a \<notin> set (ov_subscriber (fst vw')) then (ub, vw')
           else case find (\<lambda>b. a < b) (ov_subscriber (fst vw')) of
             None \<Rightarrow> (Inr (), vw')
           | Some b \<Rightarrow> ov_walk upd b vw'))"
  by pat_completeness auto
termination
proof (relation "measure (\<lambda>(upd, a, vw). 2 ^ 64 - unat a)")
  fix upd :: "addr \<Rightarrow> 'v \<Rightarrow> 'v observable \<times> 'w \<Rightarrow> unit res \<times> 'v observable \<times> 'w"
    and a :: addr and b and vw x vw' xs u
  assume "find (\<lambda>b. a < b) (ov_subscriber (fst vw')) = Some b"
  then have "unat a < unat b"
    by (auto simp: find_Some_iff word_less_nat_alt)
  then show "((upd, b, vw'), upd, a, vw) \<in> measure (\<lambda>(upd, a, vw). 2 ^ 64 - unat a)"
    using size_t_less[of b] by simp
qed simp

definition ov_notify ::
  "(addr \<Rightarrow> 'v \<Rightarrow> 'v observable \<times> 'w \<Rightarrow> unit res \<times> 'v observable \<times> 'w)
     \<Rightarrow> 'v observable \<times> 'w \<Rightarrow> unit res \<times> 'v observable \<times> 'w" where
  "ov_notify upd vw =
     (case ov_subscriber (fst vw) of [] \<Rightarrow> (Inr (), vw) | a # as \<Rightarrow> ov_walk upd a vw)"

definition ov_set ::
  "('v \<Rightarrow> 'v \<Rightarrow> bool) \<Rightarrow> (addr \<Rightarrow> 'v \<Rightarrow> 'v observable \<times> 'w \<Rightarrow> unit res \<times> 'v observable \<times> 'w) \<Rightarrow> 'v
     \<Rightarrow> 'v observable \<times> 'w \<Rightarrow> unit res \<times> 'v observable \<times> 'w" where
  "ov_set neq upd newValue vw =
     (if neq newValue (ov_value (fst vw))
      then ov_notify upd ((fst vw)\<lparr>ov_value := newValue\<rparr>, snd vw) else (Inr (), vw))"

definition ov_assign ::
  "('v \<Rightarrow> 'v \<Rightarrow> bool) \<Rightarrow> (addr \<Rightarrow> 'v \<Rightarrow> 'v observable \<times> 'w \<Rightarrow> unit res \<times> 'v observable \<times> 'w) \<Rightarrow> 'v
     \<Rightarrow> 'v observable \<times> 'w \<Rightarrow> unit res \<times> 'v observable \<times> 'w" where
  "ov_assign neq upd newValue vw =
     (if neq newValue (ov_value (fst vw)) then ov_set neq upd newValue vw else (Inr (), vw))"

definition ov_get :: "'v observable \<Rightarrow> 'v" where
  "ov_get v = ov_value v"

definition ov_countSubscriber :: "'v observable \<Rightarrow> int" where
  "ov_countSubscriber v = sint (ucast (vsize (ov_subscriber v)) :: cint)"

text \<open>The loop of the destructor.\<close>

partial_function (option) ov_destructor :: "'v observable \<Rightarrow> 'v observable option" where
  "ov_destructor v =
     (case ov_subscriber v of [] \<Rightarrow> Some v | a # as \<Rightarrow> ov_destructor (ov_unsubscribe a v))"

section \<open>Singleton\<close>

text \<open>
  The instance with the address it was created at. \<open>ctor\<close> is what the constructor gives, a value or
  an exception, and \<open>a\<close> the address that \<^verbatim>\<open>make_unique\<close> gets.
\<close>

record 'a singleton =
  sg_instance :: "(addr \<times> 'a) option"

definition sg_get :: "'a singleton \<Rightarrow> addr res" where
  "sg_get s =
     (case sg_instance s of
        None \<Rightarrow> throw (Runtime_error ''Instance not yet created.'')
      | Some (a, x) \<Rightarrow> Inr a)"

definition sg_instantiate :: "addr \<Rightarrow> exn + 'a \<Rightarrow> 'a singleton \<Rightarrow> 'a singleton res" where
  "sg_instantiate a ctor s =
     (if sg_instance s \<noteq> None then throw (Runtime_error ''Instance already exists.'')
      else case ctor of Inl e \<Rightarrow> throw e | Inr x \<Rightarrow> Inr (s\<lparr>sg_instance := Some (a, x)\<rparr>))"

definition sg_reset :: "'a singleton \<Rightarrow> 'a singleton" where
  "sg_reset s = s\<lparr>sg_instance := None\<rparr>"

section \<open>Facts about notification\<close>

lemma obs_loop_passive:
  assumes "\<And>f ob w. run f (ob, w) = (Inr (), ob, g f w)"
  shows "obs_loop run event fs (ob, w) = (Inr (), ob, fold g fs w)"
  using assms by (induction fs arbitrary: w) simp_all

lemma subscribe_all_events:
  "obs_events (fold (\<lambda>(e, f). obs_subscribe e f) subs ob) event =
    (case (obs_events ob event, map snd (filter (\<lambda>s. fst s = event) subs)) of
       (None, []) \<Rightarrow> None | (None, fs) \<Rightarrow> Some fs | (Some gs, fs) \<Rightarrow> Some (gs @ fs))"
proof (induction subs arbitrary: ob)
  case (Cons s subs)
  then show ?case
    by (cases s) (auto simp: obs_subscribe_def split: option.splits list.splits)
qed (simp split: option.split)

definition ov_wf :: "'v observable \<Rightarrow> bool" where
  [wf_defs]: "ov_wf v \<longleftrightarrow> sorted_wrt (<) (ov_subscriber v) \<and> 0 \<notin> set (ov_subscriber v)"

lemma find_skip: "\<forall>x \<in> set xs. \<not> P x \<Longrightarrow> find P (xs @ ys) = find P ys"
  by (induction xs) auto

lemma find_next:
  assumes "sorted_wrt (<) (xs @ a # ys)"
  shows "find (\<lambda>b. a < (b :: addr)) (xs @ a # ys) = (case ys of [] \<Rightarrow> None | b # _ \<Rightarrow> Some b)"
proof -
  have "\<forall>x \<in> set (xs @ [a]). \<not> a < x"
    using assms by (auto simp: sorted_wrt_append)
  from find_skip[OF this, of ys] assms show ?thesis
    by (auto simp: sorted_wrt_append split: list.split)
qed

lemma walk_passive:
  assumes "\<And>a v w. upd a v (ob, w) = (Inr (), ob, h a v w)"
    and "ov_wf ob" and "ov_subscriber ob = xs @ a # ys"
  shows "ov_walk upd a (ob, w) = (Inr (), ob, fold (\<lambda>b. h b (ov_value ob)) (a # ys) w)"
  using assms(3)
proof (induction ys arbitrary: xs a w)
  case Nil
  then have a: "a \<in> set (ov_subscriber ob)" by simp
  have next_a: "find (\<lambda>b. a < b) (ov_subscriber ob) = None"
    using find_next[of xs a "[]"] assms(2) Nil by (simp add: ov_wf_def)
  show ?case
    using assms(2) a next_a by (subst ov_walk.simps) (auto simp: assms(1) ov_wf_def)
next
  case (Cons b ys)
  have b: "ov_walk upd b (ob, w') = (Inr (), ob, fold (\<lambda>b. h b (ov_value ob)) (b # ys) w')" for w'
    by (rule Cons.IH[of "xs @ [a]"]) (simp add: Cons.prems)
  have a: "a \<in> set (ov_subscriber ob)" using Cons.prems by simp
  have next_a: "find (\<lambda>b. a < b) (ov_subscriber ob) = Some b"
    using find_next[of xs a "b # ys"] assms(2) Cons.prems by (simp add: ov_wf_def)
  show ?case
    using assms(2) a next_a b by (subst ov_walk.simps) (auto simp: assms(1) ov_wf_def)
qed

lemma notify_passive:
  assumes "\<And>a v w. upd a v (ob, w) = (Inr (), ob, h a v w)" and "ov_wf ob"
  shows "ov_notify upd (ob, w) = (Inr (), ob, fold (\<lambda>b. h b (ov_value ob)) (ov_subscriber ob) w)"
proof (cases "ov_subscriber ob")
  case (Cons a as)
  have "ov_walk upd a (ob, w) = (Inr (), ob, fold (\<lambda>b. h b (ov_value ob)) (a # as) w)"
    by (rule walk_passive[where xs = "[]"]) (simp_all add: assms Cons)
  then show ?thesis by (simp add: ov_notify_def Cons)
qed (simp add: ov_notify_def)

lemma sorted_wrt_insort:
  "sorted_wrt (<) xs \<Longrightarrow> (a :: addr) \<notin> set xs \<Longrightarrow> sorted_wrt (<) (insort a xs)"
  by (induction xs) (auto simp: set_insort_key)

lemma subscribe_wf: "ov_wf v \<Longrightarrow> ov_wf (ov_subscribe a v)"
  by (auto simp: ov_wf_def ov_subscribe_def sorted_wrt_insort set_insort_key)

lemma unsubscribe_wf: "ov_wf v \<Longrightarrow> ov_wf (ov_unsubscribe a v)"
  by (auto simp: ov_wf_def ov_unsubscribe_def sorted_wrt_filter)

lemma destructor_ends: "ov_wf v \<Longrightarrow> ov_destructor v = Some (v\<lparr>ov_subscriber := []\<rparr>)"
proof (induction "length (ov_subscriber v)" arbitrary: v rule: less_induct)
  case less
  show ?case
  proof (cases "ov_subscriber v")
    case Nil
    then show ?thesis by (subst ov_destructor.simps) (cases v, simp)
  next
    case (Cons a as)
    then have "filter (\<lambda>b. b \<noteq> a) as = as" and "a \<noteq> 0"
      using less.prems by (auto simp: ov_wf_def filter_id_conv)
    then have eq: "ov_unsubscribe a v = v\<lparr>ov_subscriber := as\<rparr>"
      by (simp add: ov_unsubscribe_def Cons)
    have "ov_destructor (ov_unsubscribe a v) = Some ((ov_unsubscribe a v)\<lparr>ov_subscriber := []\<rparr>)"
      by (rule less.hyps) (simp_all add: eq Cons unsubscribe_wf[OF less.prems, of a, unfolded eq])
    then show ?thesis by (subst ov_destructor.simps) (simp add: Cons eq)
  qed
qed

section \<open>Properties\<close>

text \<open>
  Notifying an event runs the callbacks subscribed to it, each as often as it was subscribed,
  in the order of subscription, and no other; an event without callbacks does nothing. A callback
  that subscribes to the event being notified makes the behaviour undefined.
\<close>

theorem observer_notify_order:
  fixes subs :: "('c \<times> 'b) list"
  assumes "\<And>f ob w. run f (ob, w) = (Inr (), ob, g f w)"
  defines "ob \<equiv> fold (\<lambda>(e, f). obs_subscribe e f) subs obs_new"
  shows "obs_notify run event (ob, w) =
      (Inr (), ob, fold g (map snd (filter (\<lambda>s. fst s = event) subs)) w) \<and>
    (\<forall>run' f fs w'. run' f (ob, w) = (Inr (), obs_subscribe event f ob, w') \<longrightarrow>
       obs_loop run' event (f # fs) (ob, w) = (ub, obs_subscribe event f ob, w'))"
proof (intro conjI allI impI)
  show "obs_notify run event (ob, w) = (Inr (), ob, fold g (map snd (filter (\<lambda>s. fst s = event) subs)) w)"
    using subscribe_all_events[of subs obs_new event]
    by (auto simp: obs_notify_def obs_loop_passive[OF assms(1)] obs_new_def ob_def split: option.split list.splits)
  fix run' :: "'b \<Rightarrow> ('c, 'b) observer \<times> 'a \<Rightarrow> unit res \<times> ('c, 'b) observer \<times> 'a" and f fs w'
  assume "run' f (ob, w) = (Inr (), obs_subscribe event f ob, w')"
  then show "obs_loop run' event (f # fs) (ob, w) = (ub, obs_subscribe event f ob, w')"
    by (auto simp: obs_subscribe_def split: option.split)
qed

theorem observer_notify_order_witness:
  "obs_notify (\<lambda>f (ob, w). (Inr (), ob, w @ [f])) ''click''
     (fold (\<lambda>(e, f). obs_subscribe e f) [(''click'', 1 :: nat), (''key'', 2), (''click'', 3)] obs_new, []) =
   (Inr (), fold (\<lambda>(e, f). obs_subscribe e f) [(''click'', 1), (''key'', 2), (''click'', 3)] obs_new, [1, 3])"
  using observer_notify_order[where run = "\<lambda>f (ob, w). (Inr (), ob, w @ [f])" and g = "\<lambda>f w. w @ [f]" and
      subs = "[(''click'', 1 :: nat), (''key'', 2), (''click'', 3)]" and event = "''click''" and w = "[]"]
  by simp

text \<open>
  C32. Setting or assigning a value that differs from the current one stores it and sends it to
  every observer once, in the order of their addresses; otherwise nothing happens. An observer that
  unsubscribes itself while it is updated makes the behaviour undefined.
\<close>

theorem observable_set_notifies:
  assumes "ov_wf v" and "\<And>a x ob w. upd a x (ob, w) = (Inr (), ob, h a x w)"
  shows "(neq x (ov_value v) \<longrightarrow>
      ov_set neq upd x (v, w) = (Inr (), v\<lparr>ov_value := x\<rparr>, fold (\<lambda>a. h a x) (ov_subscriber v) w)) \<and>
    (\<not> neq x (ov_value v) \<longrightarrow> ov_set neq upd x (v, w) = (Inr (), v, w)) \<and>
    ov_assign neq upd x (v, w) = ov_set neq upd x (v, w) \<and>
    (\<forall>upd' a w'. a \<in> set (ov_subscriber v) \<longrightarrow>
       upd' a (ov_value v) (v, w) = (Inr (), ov_unsubscribe a v, w') \<longrightarrow>
       ov_walk upd' a (v, w) = (ub, ov_unsubscribe a v, w'))"
proof (intro conjI allI impI)
  show "ov_set neq upd x (v, w) = (Inr (), v\<lparr>ov_value := x\<rparr>, fold (\<lambda>a. h a x) (ov_subscriber v) w)"
    if "neq x (ov_value v)"
    using that notify_passive[of upd "v\<lparr>ov_value := x\<rparr>" h] assms by (simp add: ov_set_def ov_wf_def)
  show "ov_assign neq upd x (v, w) = ov_set neq upd x (v, w)"
    by (simp add: ov_assign_def ov_set_def)
  fix upd' :: "addr \<Rightarrow> 'a \<Rightarrow> 'a observable \<times> 'b \<Rightarrow> unit res \<times> 'a observable \<times> 'b" and a w'
  assume "a \<in> set (ov_subscriber v)" "upd' a (ov_value v) (v, w) = (Inr (), ov_unsubscribe a v, w')"
  moreover from this assms(1) have "a \<noteq> 0" by (auto simp: ov_wf_def)
  ultimately show "ov_walk upd' a (v, w) = (ub, ov_unsubscribe a v, w')"
    by (subst ov_walk.simps) (simp add: ov_unsubscribe_def)
qed (simp add: ov_set_def)

theorem observable_set_notifies_witness:
  "ov_set (\<lambda>a b. a \<noteq> b) (\<lambda>a x (ob, w). (Inr (), ob, w @ [(a, x)])) (42 :: nat) (\<lparr>ov_value = 0, ov_subscriber = [8, 16]\<rparr>, []) =
     (Inr (), \<lparr>ov_value = 42, ov_subscriber = [8, 16]\<rparr>, [(8, 42), (16, 42)])"
  using observable_set_notifies[of "\<lparr>ov_value = 0, ov_subscriber = [8, 16]\<rparr>"
      "\<lambda>a x (ob, w). (Inr (), ob, w @ [(a, x)])" "\<lambda>a x w. w @ [(a, x)]" "\<lambda>a b. a \<noteq> b" "42 :: nat" "[]"]
  by (simp add: ov_wf_def)

text \<open>
  Subscribing adds an observer once, unsubscribing removes it, the null pointer is ignored, and
  the loop of the destructor ends with no observer left.
\<close>

theorem observable_subscribers:
  assumes "ov_wf v"
  shows "ov_wf (ov_subscribe a v) \<and> ov_wf (ov_unsubscribe a v) \<and>
    set (ov_subscriber (ov_subscribe a v)) = set (ov_subscriber v) \<union> (if a = 0 then {} else {a}) \<and>
    set (ov_subscriber (ov_unsubscribe a v)) = set (ov_subscriber v) - {a} \<and>
    ov_subscribe a (ov_subscribe a v) = ov_subscribe a v \<and>
    (a \<notin> set (ov_subscriber v) \<longrightarrow> ov_unsubscribe a (ov_subscribe a v) = v) \<and>
    ov_destructor v = Some (v\<lparr>ov_subscriber := []\<rparr>)"
proof (intro conjI impI)
  show "set (ov_subscriber (ov_subscribe a v)) = set (ov_subscriber v) \<union> (if a = 0 then {} else {a})"
    "ov_subscribe a (ov_subscribe a v) = ov_subscribe a v"
    "set (ov_subscriber (ov_unsubscribe a v)) = set (ov_subscriber v) - {a}"
    using assms by (auto simp: ov_subscribe_def ov_unsubscribe_def ov_wf_def set_insort_key)
  assume new: "a \<notin> set (ov_subscriber v)"
  have "filter (\<lambda>b. b \<noteq> a) (insort a xs) = xs" if "a \<notin> set xs" for xs :: "addr list"
    using that by (induction xs) (auto simp: filter_id_conv)
  with new show "ov_unsubscribe a (ov_subscribe a v) = v"
    by (cases v) (auto simp: ov_subscribe_def ov_unsubscribe_def)
qed (use assms in \<open>simp_all add: subscribe_wf unsubscribe_wf destructor_ends\<close>)

theorem observable_subscribers_witness:
  "ov_destructor (ov_subscribe 8 (ov_subscribe 16 (ov_new ''x''))) =
     Some ((ov_subscribe 8 (ov_subscribe 16 (ov_new ''x'')))\<lparr>ov_subscriber := []\<rparr>)"
proof -
  have "ov_wf (ov_subscribe 8 (ov_subscribe 16 (ov_new ''x'')))"
    by (intro subscribe_wf) (simp add: ov_wf_def ov_new_def)
  from observable_subscribers[OF this] show ?thesis by blast
qed

text \<open>A client of the singleton: how many instances its calls create.\<close>

datatype 'a sg_op = Instantiate addr "exn + 'a" | Reset

fun sg_run :: "'a sg_op list \<Rightarrow> 'a singleton \<Rightarrow> nat \<times> 'a singleton" where
  "sg_run [] s = (0, s)"
| "sg_run (Instantiate a c # ops) s =
     (case sg_instantiate a c s of
        Inl e \<Rightarrow> sg_run ops s
      | Inr s' \<Rightarrow> (case sg_run ops s' of (n, t) \<Rightarrow> (Suc n, t)))"
| "sg_run (Reset # ops) s = sg_run ops (sg_reset s)"

fun sg_resets :: "'a sg_op list \<Rightarrow> nat" where
  "sg_resets [] = 0"
| "sg_resets (Instantiate a c # ops) = sg_resets ops"
| "sg_resets (Reset # ops) = Suc (sg_resets ops)"

lemma created_bound:
  "fst (sg_run ops s) + (if sg_instance s = None then 0 else 1) \<le> Suc (sg_resets ops)"
proof (induction ops arbitrary: s)
  case (Cons op ops)
  show ?case
  proof (cases op)
    case (Instantiate a c)
    show ?thesis
    proof (cases "sg_instantiate a c s")
      case (Inl e)
      then show ?thesis using Instantiate Cons.IH[of s] by simp
    next
      case (Inr t)
      then have "sg_instance t \<noteq> None" "sg_instance s = None"
        by (cases "sg_instance s"; auto simp: sg_instantiate_def split: sum.splits)+
      then show ?thesis using Instantiate Inr Cons.IH[of t] by (cases "sg_run ops t") auto
    qed
  next
    case Reset
    then show ?thesis using Cons.IH[of "sg_reset s"] by (auto simp: sg_reset_def)
  qed
qed simp

text \<open>
  At most one instance exists: any sequence of calls creates at most one more instance than it
  resets. A created instance is the one \<open>instance\<close> returns until the next reset, and creating
  another one before that throws without touching it; a constructor that throws leaves no instance.
\<close>

theorem singleton_unique:
  "fst (sg_run ops s) \<le> Suc (sg_resets ops) \<and>
   (case sg_instance s of
      None \<Rightarrow> sg_get s = throw (Runtime_error ''Instance not yet created.'') \<and>
        sg_instantiate a (Inl e) s = throw e \<and>
        (\<exists>s'. sg_instantiate a (Inr x) s = Inr s' \<and> sg_get s' = Inr a \<and>
          (\<forall>b c. sg_instantiate b c s' = throw (Runtime_error ''Instance already exists.'')) \<and>
          sg_reset s' = s)
    | Some (b, y) \<Rightarrow> sg_get s = Inr b \<and>
        (\<forall>a c. sg_instantiate a c s = throw (Runtime_error ''Instance already exists.'')))"
proof
  show "fst (sg_run ops s) \<le> Suc (sg_resets ops)"
    using created_bound[of ops s] by (simp split: if_splits)
qed (cases s, auto simp: sg_get_def sg_instantiate_def sg_reset_def split: option.split)

end
