(* ===== verification/N_Ary_Tree.thy ===== *)
theory N_Ary_Tree
  imports Libftpp_Prelude "HOL-Library.Multiset" "HOL-Library.Sublist"
begin

text \<open>
  \<^verbatim>\<open>src/src/bonus/n_ary_tree\<close>: a tree with any number of children per node. A node pointer is the
  path from the root, a list of child numbers; \<open>None\<close> is the null pointer. Children are owned by
  \<^verbatim>\<open>unique_ptr\<close>, so a node keeps its address when siblings are added. A visitor is a function on the
  rest of the world that may throw.
\<close>

section \<open>State and operations\<close>

datatype 'a node = Node (data: 'a) (children: "'a node list") (parentFunct: "('a list \<Rightarrow> 'a) option")

type_synonym path = "nat list"

record 'a nary_tree =
  nt_root :: "'a node option"

definition nt_new :: "'a nary_tree" where
  "nt_new = \<lparr>nt_root = None\<rparr>"

definition nd_new :: "'a \<Rightarrow> 'a node" where
  "nd_new value = Node value [] None"

definition nd_addChild :: "'a \<Rightarrow> 'a node \<Rightarrow> 'a node" where
  "nd_addChild child n = Node (data n) (children n @ [nd_new child]) (parentFunct n)"

definition nd_setParentFunct :: "('a list \<Rightarrow> 'a) \<Rightarrow> 'a node \<Rightarrow> 'a node" where
  "nd_setParentFunct func n = Node (data n) (children n) (Some func)"

text \<open>Following a node pointer, and changing the node it designates; a dangling pointer gives \<open>UB\<close>.\<close>

fun nd_at :: "path \<Rightarrow> 'a node \<Rightarrow> 'a node res" where
  "nd_at [] n = Inr n"
| "nd_at (i # p) n = (if i < length (children n) then nd_at p (children n ! i) else ub)"

fun nd_modify :: "('a node \<Rightarrow> 'a node) \<Rightarrow> path \<Rightarrow> 'a node \<Rightarrow> 'a node" where
  "nd_modify f [] n = f n"
| "nd_modify f (i # p) n =
     Node (data n) ((children n)[i := nd_modify f p (children n ! i)]) (parentFunct n)"

definition nt_setRoot :: "'a \<Rightarrow> 'a nary_tree \<Rightarrow> path option \<times> 'a nary_tree" where
  "nt_setRoot value t =
     (let t1 = (if nt_root t = None then t\<lparr>nt_root := Some (nd_new value)\<rparr> else t)
      in (map_option (\<lambda>_. []) (nt_root t1), t1))"

definition nt_getRoot :: "'a nary_tree \<Rightarrow> path option" where
  "nt_getRoot t = map_option (\<lambda>_. []) (nt_root t)"

definition nt_addChild :: "path option \<Rightarrow> 'a \<Rightarrow> 'a nary_tree \<Rightarrow> (path option \<times> 'a nary_tree) res" where
  "nt_addChild parent value t =
     (case parent of
        None \<Rightarrow> Inr (None, t)
      | Some p \<Rightarrow>
          (case nt_root t of
             None \<Rightarrow> ub
           | Some r \<Rightarrow>
               (case nd_at p r of
                  Inl e \<Rightarrow> Inl e
                | Inr n \<Rightarrow>
                    Inr (Some (p @ [length (children n)]), t\<lparr>nt_root := Some (nd_modify (nd_addChild value) p r)\<rparr>))))"

definition nt_addChildToRoot :: "'a \<Rightarrow> 'a nary_tree \<Rightarrow> (path option \<times> 'a nary_tree) res" where
  "nt_addChildToRoot value t = nt_addChild (nt_getRoot t) value t"

text \<open>Traversals with a visitor.\<close>

fun nd_preorder_f :: "('a \<Rightarrow> 'w \<Rightarrow> unit res \<times> 'w) \<Rightarrow> 'a node \<Rightarrow> 'w \<Rightarrow> unit res \<times> 'w"
  and nds_preorder_f :: "('a \<Rightarrow> 'w \<Rightarrow> unit res \<times> 'w) \<Rightarrow> 'a node list \<Rightarrow> 'w \<Rightarrow> unit res \<times> 'w" where
  "nd_preorder_f funct (Node d cs f) w =
     (case funct d w of (Inl e, w') \<Rightarrow> (Inl e, w') | (Inr u, w') \<Rightarrow> nds_preorder_f funct cs w')"
| "nds_preorder_f funct [] w = (Inr (), w)"
| "nds_preorder_f funct (c # cs) w =
     (case nd_preorder_f funct c w of (Inl e, w') \<Rightarrow> (Inl e, w') | (Inr u, w') \<Rightarrow> nds_preorder_f funct cs w')"

definition nt_preorder :: "('a \<Rightarrow> 'w \<Rightarrow> unit res \<times> 'w) \<Rightarrow> 'a nary_tree \<Rightarrow> 'w \<Rightarrow> unit res \<times> 'w" where
  "nt_preorder funct t w = (case nt_root t of None \<Rightarrow> (Inr (), w) | Some r \<Rightarrow> nd_preorder_f funct r w)"

fun nd_postorder_f :: "('a \<Rightarrow> 'w \<Rightarrow> unit res \<times> 'w) \<Rightarrow> 'a node \<Rightarrow> 'w \<Rightarrow> unit res \<times> 'w"
  and nds_postorder_f :: "('a \<Rightarrow> 'w \<Rightarrow> unit res \<times> 'w) \<Rightarrow> 'a node list \<Rightarrow> 'w \<Rightarrow> unit res \<times> 'w" where
  "nd_postorder_f funct (Node d cs f) w =
     (case nds_postorder_f funct cs w of (Inl e, w') \<Rightarrow> (Inl e, w') | (Inr u, w') \<Rightarrow> funct d w')"
| "nds_postorder_f funct [] w = (Inr (), w)"
| "nds_postorder_f funct (c # cs) w =
     (case nd_postorder_f funct c w of (Inl e, w') \<Rightarrow> (Inl e, w') | (Inr u, w') \<Rightarrow> nds_postorder_f funct cs w')"

text \<open>Traversals that append to a vector.\<close>

fun nd_preorder :: "'a node \<Rightarrow> 'a list \<Rightarrow> 'a list" and nds_preorder :: "'a node list \<Rightarrow> 'a list \<Rightarrow> 'a list" where
  "nd_preorder (Node d cs f) result = nds_preorder cs (result @ [d])"
| "nds_preorder [] result = result"
| "nds_preorder (c # cs) result = nds_preorder cs (nd_preorder c result)"

definition nt_preorderValues :: "'a nary_tree \<Rightarrow> 'a list" where
  "nt_preorderValues t = (case nt_root t of None \<Rightarrow> [] | Some r \<Rightarrow> nd_preorder r [])"

fun nd_postorder :: "'a node \<Rightarrow> 'a list \<Rightarrow> 'a list" and nds_postorder :: "'a node list \<Rightarrow> 'a list \<Rightarrow> 'a list" where
  "nd_postorder (Node d cs f) result = nds_postorder cs result @ [d]"
| "nds_postorder [] result = result"
| "nds_postorder (c # cs) result = nds_postorder cs (nd_postorder c result)"

definition nt_postorderValues :: "'a nary_tree \<Rightarrow> 'a list" where
  "nt_postorderValues t = (case nt_root t of None \<Rightarrow> [] | Some r \<Rightarrow> nd_postorder r [])"

text \<open>
  \<open>postorderCompute\<close>: a node with a function applies it to the results of its children, in order; a
  node without one gives its data, and its children are not looked at.
\<close>

fun nd_compute :: "'a node \<Rightarrow> 'a" and nds_compute :: "'a node list \<Rightarrow> 'a list" where
  "nd_compute (Node d cs f) = (case f of Some g \<Rightarrow> g (nds_compute cs) | None \<Rightarrow> d)"
| "nds_compute [] = []"
| "nds_compute (c # cs) = nd_compute c # nds_compute cs"

definition nt_postorderCompute :: "'a \<Rightarrow> path option \<Rightarrow> 'a nary_tree \<Rightarrow> 'a res" where
  "nt_postorderCompute dflt node t =
     (case node of
        None \<Rightarrow> Inr dflt
      | Some p \<Rightarrow>
          (case nt_root t of
             None \<Rightarrow> ub
           | Some r \<Rightarrow> (case nd_at p r of Inl e \<Rightarrow> Inl e | Inr n \<Rightarrow> Inr (nd_compute n))))"

section \<open>Reference definitions\<close>

fun pre :: "'a node \<Rightarrow> 'a list" where
  "pre (Node d cs f) = d # concat (map pre cs)"

fun mirror :: "'a node \<Rightarrow> 'a node" where
  "mirror (Node d cs f) = Node d (rev (map mirror cs)) f"

fun leaves :: "'a node \<Rightarrow> 'a list" where
  "leaves (Node d cs f) = (if cs = [] then [d] else concat (map leaves cs))"

text \<open>A visitor over a list of values, stopping at the first exception.\<close>

fun visit :: "('a \<Rightarrow> 'w \<Rightarrow> unit res \<times> 'w) \<Rightarrow> 'a list \<Rightarrow> 'w \<Rightarrow> unit res \<times> 'w" where
  "visit funct [] w = (Inr (), w)"
| "visit funct (x # xs) w = (case funct x w of (Inl e, w') \<Rightarrow> (Inl e, w') | (Inr u, w') \<Rightarrow> visit funct xs w')"

text \<open>Every inner node sums the results of its children, and no leaf has a function.\<close>

fun summing :: "('a :: comm_monoid_add) node \<Rightarrow> bool" where
  "summing (Node d cs f) \<longleftrightarrow> (if cs = [] then f = None else f = Some sum_list \<and> (\<forall>c \<in> set cs. summing c))"

lemma visit_append:
  "visit funct (xs @ ys) w =
    (case visit funct xs w of (Inl e, w') \<Rightarrow> (Inl e, w') | (Inr u, w') \<Rightarrow> visit funct ys w')"
  by (induction xs arbitrary: w) (auto split: prod.split sum.split)

lemma preorder_eq:
  "nd_preorder n r = r @ pre n" "nds_preorder ns r = r @ concat (map pre ns)"
  by (induction n r and ns r rule: nd_preorder_nds_preorder.induct) simp_all

lemma postorder_eq:
  "nd_postorder n r = r @ rev (pre (mirror n))" "nds_postorder ns r = r @ concat (map (\<lambda>n. rev (pre (mirror n))) ns)"
  by (induction n r and ns r rule: nd_postorder_nds_postorder.induct)
    (simp_all add: rev_concat rev_map[symmetric] comp_def)

lemma preorder_f_eq:
  "nd_preorder_f funct n w = visit funct (pre n) w"
  "nds_preorder_f funct ns w = visit funct (concat (map pre ns)) w"
  by (induction funct n w and funct ns w rule: nd_preorder_f_nds_preorder_f.induct)
    (auto simp: visit_append split: prod.split sum.split)

lemma visit_snoc: "visit funct (xs @ [x]) w =
    (case visit funct xs w of (Inl e, w') \<Rightarrow> (Inl e, w') | (Inr u, w') \<Rightarrow> funct x w')"
  by (auto simp: visit_append split: prod.split sum.split)

lemma postorder_f_eq:
  "nd_postorder_f funct n w = visit funct (rev (pre (mirror n))) w"
  "nds_postorder_f funct ns w = visit funct (concat (map (\<lambda>n. rev (pre (mirror n))) ns)) w"
proof (induction funct n w and funct ns w rule: nd_postorder_f_nds_postorder_f.induct)
  case (1 funct d cs f w)
  then show ?case
    by (simp add: visit_snoc rev_concat rev_map[symmetric] comp_def split: prod.split sum.split)
qed (auto simp: visit_append split: prod.split sum.split)

lemma mset_pre_mirror: "mset (pre (mirror n)) = mset (pre n)"
proof (induction n rule: pre.induct)
  case (1 d cs f)
  have "mset (concat (map pre (map mirror cs))) = mset (concat (map pre cs))"
    using 1 by (induction cs) auto
  moreover have "mset (concat (rev xss)) = mset (concat xss)" for xss :: "'a list list"
    by (induction xss) auto
  ultimately show ?case
    by (simp add: rev_map[symmetric] del: map_map)
qed

section \<open>Pointers\<close>

lemma at_append: "nd_at (p @ q) n = (case nd_at p n of Inl e \<Rightarrow> Inl e | Inr m \<Rightarrow> nd_at q m)"
  by (induction p arbitrary: n) auto

lemma at_modify_same: "nd_at p n = Inr m \<Longrightarrow> nd_at p (nd_modify f p n) = Inr (f m)"
  by (induction p arbitrary: n) (auto split: if_splits)

text \<open>Adding a child changes the children of one node and no node's data or function.\<close>

lemma at_addChild:
  assumes "nd_at q n = Inr m"
  shows "\<exists>m'. nd_at q (nd_modify (nd_addChild v) p n) = Inr m' \<and> data m' = data m \<and> parentFunct m' = parentFunct m"
  using assms
proof (induction p arbitrary: q n)
  case Nil
  then show ?case by (cases q) (auto simp: nd_addChild_def nth_append split: if_splits)
next
  case (Cons i p)
  note IH = Cons.IH and prems = Cons.prems
  show ?case
  proof (cases q)
    case (Cons j q')
    then have "j < length (children n)" "nd_at q' (children n ! j) = Inr m"
      using prems by (auto split: if_splits)
    with IH[of q' "children n ! j"] Cons show ?thesis
      by (cases "i = j") auto
  qed (use prems in simp)
qed

lemma pre_addChild: "pre (nd_addChild v n) = pre n @ [v]"
  by (cases n) (simp add: nd_addChild_def nd_new_def)

lemma concat_update:
  assumes "i < length cs"
  shows "concat (map g (cs[i := c])) = concat (map g (take i cs)) @ g c @ concat (map g (drop (Suc i) cs))"
  using assms by (simp add: upd_conv_take_nth_drop)

lemma pre_modify:
  "nd_at p n = Inr m \<Longrightarrow>
    \<exists>xs ys. pre n = xs @ pre m @ ys \<and> pre (nd_modify (nd_addChild v) p n) = xs @ pre m @ v # ys"
proof (induction p arbitrary: n)
  case Nil
  then show ?case by (intro exI[of _ "[]"]) (simp add: pre_addChild)
next
  case (Cons i p)
  obtain d cs f where n: "n = Node d cs f" by (cases n)
  have i: "i < length cs" "nd_at p (cs ! i) = Inr m"
    using Cons.prems n by (auto split: if_splits)
  from Cons.IH[OF i(2)] obtain xs ys where *: "pre (cs ! i) = xs @ pre m @ ys"
      "pre (nd_modify (nd_addChild v) p (cs ! i)) = xs @ pre m @ v # ys"
    by blast
  have "pre n = d # concat (map pre (take i cs)) @ pre (cs ! i) @ concat (map pre (drop (Suc i) cs))"
    using concat_update[OF i(1), of pre "cs ! i"] n by simp
  moreover have "pre (nd_modify (nd_addChild v) (i # p) n) = d # concat (map pre (take i cs)) @
      pre (nd_modify (nd_addChild v) p (cs ! i)) @ concat (map pre (drop (Suc i) cs))"
    using concat_update[OF i(1)] n by simp
  ultimately show ?case
    using * by (intro exI[of _ "d # concat (map pre (take i cs)) @ xs"]
        exI[of _ "ys @ concat (map pre (drop (Suc i) cs))"]) simp
qed

section \<open>Properties\<close>

text \<open>
  C33. The traversals. The visitor sees exactly the values of the corresponding vector, in that order,
  up to the first exception; preorder is the root before the preorders of its children from left to
  right; postorder is the reverse of the preorder of the mirrored tree; both list every value of
  the tree equally often.
\<close>

theorem tree_traversals:
  "nt_preorder funct t w = visit funct (nt_preorderValues t) w \<and>
   (\<forall>r. nt_root t = Some r \<longrightarrow>
      nd_postorder_f funct r w = visit funct (nt_postorderValues t) w \<and>
      nt_preorderValues t = data r # concat (map (\<lambda>c. nd_preorder c []) (children r)) \<and>
      nt_postorderValues t = concat (map (\<lambda>c. nd_postorder c []) (children r)) @ [data r]) \<and>
   nt_postorderValues t = rev (nt_preorderValues (t\<lparr>nt_root := map_option mirror (nt_root t)\<rparr>)) \<and>
   mset (nt_postorderValues t) = mset (nt_preorderValues t)"
proof (cases "nt_root t")
  case (Some r)
  have "pre r = data r # concat (map pre (children r))"
    "rev (pre (mirror r)) = concat (map (\<lambda>c. rev (pre (mirror c))) (children r)) @ [data r]"
    by (cases r; simp add: rev_concat rev_map[symmetric] comp_def)+
  note shape = this
  have vals: "nt_preorderValues t = pre r" "nt_postorderValues t = rev (pre (mirror r))"
    using Some by (simp_all add: nt_preorderValues_def nt_postorderValues_def preorder_eq postorder_eq)
  have "nt_preorderValues (t\<lparr>nt_root := map_option mirror (nt_root t)\<rparr>) = pre (mirror r)"
    using Some by (simp add: nt_preorderValues_def preorder_eq)
  moreover have "nt_preorder funct t w = visit funct (pre r) w"
    using Some by (simp add: nt_preorder_def preorder_f_eq)
  moreover have "mset (nt_postorderValues t) = mset (nt_preorderValues t)"
    unfolding vals by (simp add: mset_pre_mirror)
  ultimately show ?thesis
    using Some shape by (auto simp: vals postorder_f_eq preorder_eq postorder_eq)
qed (simp add: nt_preorder_def nt_preorderValues_def nt_postorderValues_def)

theorem tree_traversals_witness:
  "nt_root \<lparr>nt_root = Some (Node 1 [Node 2 [nd_new 4] None, nd_new 3] None)\<rparr> =
     Some (Node (1 :: nat) [Node 2 [nd_new 4] None, nd_new 3] None) \<and>
   nt_postorderValues \<lparr>nt_root = Some (Node (1 :: nat) [Node 2 [nd_new 4] None, nd_new 3] None)\<rparr> =
     concat (map (\<lambda>c. nd_postorder c []) [Node 2 [nd_new 4] None, nd_new 3]) @ [1]"
  using tree_traversals[of "\<lambda>x w. (Inr (), w)" "\<lparr>nt_root = Some (Node (1 :: nat) [Node 2 [nd_new 4] None, nd_new 3] None)\<rparr>" "()"]
  by (simp del: nd_postorder.simps)

text \<open>
  C34. Adding a child. For a pointer into the tree, \<open>addChild\<close> returns a new pointer, to a leaf with
  the value; every pointer that was valid still is, to a node with the same data and function; and
  the preorder gains the value right after the last descendant of the parent. A null pointer is
  refused and a tree without root has none.
\<close>

theorem tree_addChild:
  assumes "nt_root t = Some r" and "nd_at p r = Inr n"
  shows "\<exists>t' r' q. nt_addChild (Some p) v t = Inr (Some q, t') \<and> nt_root t' = Some r' \<and>
    nd_at q r' = Inr (nd_new v) \<and> nd_at q r = ub \<and>
    (\<forall>p' m. nd_at p' r = Inr m \<longrightarrow>
       (\<exists>m'. nd_at p' r' = Inr m' \<and> data m' = data m \<and> parentFunct m' = parentFunct m)) \<and>
    (\<exists>xs ys. nt_preorderValues t = xs @ nd_preorder n [] @ ys \<and>
       nt_preorderValues t' = xs @ nd_preorder n [] @ v # ys)"
proof -
  let ?r' = "nd_modify (nd_addChild v) p r" and ?q = "p @ [length (children n)]"
  have "nd_at ?q ?r' = Inr (nd_new v)"
    using at_modify_same[OF assms(2)] by (simp add: at_append nd_addChild_def)
  moreover have "nd_at ?q r = ub"
    using assms(2) by (simp add: at_append)
  moreover have "\<exists>xs ys. nd_preorder r [] = xs @ nd_preorder n [] @ ys \<and>
      nd_preorder ?r' [] = xs @ nd_preorder n [] @ v # ys"
    using pre_modify[OF assms(2), of v] by (simp add: preorder_eq)
  ultimately show ?thesis
    using assms at_addChild[of _ r _ v p]
    by (intro exI[of _ "t\<lparr>nt_root := Some ?r'\<rparr>"] exI[of _ ?r'] exI[of _ ?q])
      (simp add: nt_addChild_def nt_preorderValues_def)
qed

theorem tree_addChild_witness:
  "\<exists>t' r' q. nt_addChild (Some [0]) 9 \<lparr>nt_root = Some (Node (1 :: nat) [nd_new 2] None)\<rparr> = Inr (Some q, t') \<and>
     nt_root t' = Some r' \<and> nd_at q r' = Inr (nd_new 9)"
  using tree_addChild[of "\<lparr>nt_root = Some (Node (1 :: nat) [nd_new 2] None)\<rparr>" "Node 1 [nd_new 2] None" "[0]" "nd_new 2" 9]
  by (simp add: nd_new_def) blast

lemma compute_summing:
  fixes n :: "'a :: comm_monoid_add node"
  shows "summing n \<Longrightarrow> nd_compute n = sum_list (leaves n)"
proof (induction n rule: leaves.induct)
  case (1 d cs f)
  have nds: "nds_compute xs = map nd_compute xs" for xs :: "'a node list"
    by (induction xs) simp_all
  have "sum_list (map nd_compute cs) = sum_list (concat (map leaves cs))" if "cs \<noteq> []"
  proof -
    have "\<forall>c \<in> set cs. nd_compute c = sum_list (leaves c)"
      using 1 that by simp
    then have "sum_list (map nd_compute cs) = (\<Sum>c\<leftarrow>cs. sum_list (leaves c))"
      by (intro arg_cong[of _ _ sum_list] map_cong) simp_all
    moreover have "sum_list (concat xss) = sum_list (map sum_list xss)" for xss :: "'a list list"
      by (induction xss) simp_all
    ultimately show ?thesis by (simp add: comp_def)
  qed
  then show ?case using 1(2) by (auto simp: nds)
qed

text \<open>
  \<open>postorderCompute\<close> gives the fold of the tree by the functions of its nodes: on a tree whose
  inner nodes sum the results of their children it is the sum of the leaves, and the data of the inner
  nodes does not count. A node without a function gives its data whatever its children.
\<close>

theorem tree_compute:
  fixes dflt :: "'a :: comm_monoid_add"
  assumes "nt_root t = Some r" and "nd_at p r = Inr n"
  shows "(summing n \<longrightarrow> nt_postorderCompute dflt (Some p) t = Inr (sum_list (leaves n))) \<and>
    (parentFunct n = None \<longrightarrow> nt_postorderCompute dflt (Some p) t = Inr (data n)) \<and>
    (\<forall>g. parentFunct n = Some g \<longrightarrow>
       nt_postorderCompute dflt (Some p) t = Inr (g (map nd_compute (children n)))) \<and>
    nt_postorderCompute dflt None t = Inr dflt"
proof -
  have nds: "nds_compute xs = map nd_compute xs" for xs :: "'a node list"
    by (induction xs) simp_all
  show ?thesis
    using assms compute_summing[of n] by (cases n) (auto simp: nt_postorderCompute_def nds)
qed

theorem tree_compute_witness:
  "nt_postorderCompute 0 (Some []) \<lparr>nt_root = Some (Node (1 :: nat) [Node 2 [nd_new 4, nd_new 5] (Some sum_list),
     Node 3 [nd_new 6] (Some sum_list)] (Some sum_list))\<rparr> = Inr 15"
  using tree_compute[of "\<lparr>nt_root = Some (Node (1 :: nat) [Node 2 [nd_new 4, nd_new 5] (Some sum_list),
      Node 3 [nd_new 6] (Some sum_list)] (Some sum_list))\<rparr>" "Node 1 [Node 2 [nd_new 4, nd_new 5] (Some sum_list),
      Node 3 [nd_new 6] (Some sum_list)] (Some sum_list)" "[]" _ 0]
  by (simp add: nd_new_def)

end
