(* ===== verification/Worker_Pool.thy ===== *)
theory Worker_Pool
  imports Libftpp_Prelude "HOL-Library.Multiset"
begin

text \<open>
  \<^verbatim>\<open>src/src/thread/worker_pool\<close>: threads that take jobs from a queue. A step is what one thread does
  between two points where another can intervene: the test of \<open>_stop\<close> at the head of the loop, a
  critical section of the mutex, a notification, the run of a job. Waiting on the condition variable
  gives the mutex up and blocks in one step; a blocked worker is woken by a notification or
  spuriously, and evaluates the condition again. The test at the head of the loop reads \<open>_stop\<close>
  without the mutex and is taken here as an atomic read.
\<close>

section \<open>State\<close>

datatype 'j wstate = Checking | Entering | Blocked | Running 'j | Exited

text \<open>The destructor has set \<open>_stop\<close>; it has notified all workers and joins them; it is over.\<close>

datatype phase = Serving | Stopping | Joining | Destroyed

text \<open>
  Besides the members, the state has the notifications that calls of \<open>addJob\<close> still have to make,
  whether a job threw (which ends the program), and the history of the jobs.
\<close>

record 'j wpool =
  wp_jobs :: "'j list"
  wp_stop :: bool
  wp_workers :: "'j wstate list"
  wp_pending :: nat
  wp_phase :: phase
  wp_crashed :: bool
  wp_submitted :: "'j list"
  wp_started :: "'j list"
  wp_finished :: "'j list"
  wp_discarded :: "'j list"

section \<open>Operations\<close>

definition wp_new :: "int \<Rightarrow> 'j wpool res" where
  "wp_new nbWorkers =
     (if nbWorkers < 0 then throw (Length_error ''vector::reserve'')
      else Inr \<lparr>wp_jobs = [], wp_stop = False, wp_workers = replicate (nat nbWorkers) Checking,
        wp_pending = 0, wp_phase = Serving, wp_crashed = False,
        wp_submitted = [], wp_started = [], wp_finished = [], wp_discarded = []\<rparr>)"

definition wp_set :: "nat \<Rightarrow> 'j wstate \<Rightarrow> 'j wpool \<Rightarrow> 'j wpool" where
  "wp_set i w s = s\<lparr>wp_workers := (wp_workers s)[i := w]\<rparr>"

text \<open>The head of the loop, and the critical section with the wait.\<close>

definition wp_check :: "nat \<Rightarrow> 'j wpool \<Rightarrow> 'j wpool" where
  "wp_check i s = wp_set i (if wp_stop s then Exited else Entering) s"

definition wp_enter :: "nat \<Rightarrow> 'j wpool \<Rightarrow> 'j wpool" where
  "wp_enter i s =
     (if \<not> (wp_stop s \<or> wp_jobs s \<noteq> []) then wp_set i Blocked s
      else if wp_stop s \<or> wp_jobs s = [] then wp_set i Exited s
      else (wp_set i (Running (hd (wp_jobs s))) s)
             \<lparr>wp_jobs := tl (wp_jobs s), wp_started := wp_started s @ [hd (wp_jobs s)]\<rparr>)"

definition wp_run :: "nat \<Rightarrow> 'j \<Rightarrow> 'j wpool \<Rightarrow> 'j wpool" where
  "wp_run i j s = (wp_set i Checking s)\<lparr>wp_finished := wp_finished s @ [j]\<rparr>"

text \<open>\<open>addJob\<close>: the push, and then the notification.\<close>

definition wp_push :: "'j \<Rightarrow> 'j wpool \<Rightarrow> 'j wpool" where
  "wp_push j s = s\<lparr>wp_jobs := wp_jobs s @ [j], wp_submitted := wp_submitted s @ [j],
     wp_pending := Suc (wp_pending s)\<rparr>"

definition wp_notified :: "'j wpool \<Rightarrow> 'j wpool" where
  "wp_notified s = s\<lparr>wp_pending := wp_pending s - 1\<rparr>"

text \<open>The destructor.\<close>

definition wp_begin_stop :: "'j wpool \<Rightarrow> 'j wpool" where
  "wp_begin_stop s = s\<lparr>wp_stop := True, wp_phase := Stopping\<rparr>"

definition wp_notify_all :: "'j wpool \<Rightarrow> 'j wpool" where
  "wp_notify_all s = s\<lparr>wp_phase := Joining,
     wp_workers := map (\<lambda>w. if w = Blocked then Entering else w) (wp_workers s)\<rparr>"

definition wp_joined :: "'j wpool \<Rightarrow> 'j wpool" where
  "wp_joined s = s\<lparr>wp_phase := Destroyed, wp_discarded := wp_jobs s, wp_jobs := []\<rparr>"

text \<open>A worker's own steps, and all steps.\<close>

abbreviation wp_at :: "'j wpool \<Rightarrow> nat \<Rightarrow> 'j wstate \<Rightarrow> bool" where
  "wp_at s i w \<equiv> i < length (wp_workers s) \<and> wp_workers s ! i = w"

inductive wp_work :: "'j wpool \<Rightarrow> 'j wpool \<Rightarrow> bool" where
  check: "\<not> wp_crashed s \<Longrightarrow> wp_at s i Checking \<Longrightarrow> wp_work s (wp_check i s)"
| enter: "\<not> wp_crashed s \<Longrightarrow> wp_at s i Entering \<Longrightarrow> wp_work s (wp_enter i s)"
| run: "\<not> wp_crashed s \<Longrightarrow> wp_at s i (Running j) \<Longrightarrow> wp_work s (wp_run i j s)"

inductive wp_step :: "'j wpool \<Rightarrow> 'j wpool \<Rightarrow> bool" where
  work: "wp_work s t \<Longrightarrow> wp_step s t"
| crash: "\<not> wp_crashed s \<Longrightarrow> wp_at s i (Running j) \<Longrightarrow> wp_step s (s\<lparr>wp_crashed := True\<rparr>)"
| spurious: "\<not> wp_crashed s \<Longrightarrow> wp_at s i Blocked \<Longrightarrow> wp_step s (wp_set i Entering s)"
| push: "\<not> wp_crashed s \<Longrightarrow> wp_phase s \<noteq> Destroyed \<Longrightarrow> wp_step s (wp_push j s)"
| notify_one: "\<not> wp_crashed s \<Longrightarrow> 0 < wp_pending s \<Longrightarrow> wp_at s i Blocked \<Longrightarrow>
    wp_step s (wp_notified (wp_set i Entering s))"
| notify_none: "\<not> wp_crashed s \<Longrightarrow> 0 < wp_pending s \<Longrightarrow> Blocked \<notin> set (wp_workers s) \<Longrightarrow>
    wp_step s (wp_notified s)"
| begin_stop: "\<not> wp_crashed s \<Longrightarrow> wp_phase s = Serving \<Longrightarrow> wp_step s (wp_begin_stop s)"
| notify_all: "\<not> wp_crashed s \<Longrightarrow> wp_phase s = Stopping \<Longrightarrow> wp_step s (wp_notify_all s)"
| joined: "\<not> wp_crashed s \<Longrightarrow> wp_phase s = Joining \<Longrightarrow> set (wp_workers s) \<subseteq> {Exited} \<Longrightarrow>
    wp_step s (wp_joined s)"

inductive_cases wp_workE: "wp_work s t"
inductive_cases wp_stepE: "wp_step s t"

section \<open>Invariant\<close>

fun running :: "'j wstate \<Rightarrow> 'j multiset" where
  "running (Running j) = {#j#}"
| "running _ = {#}"

definition total :: "('j wstate \<Rightarrow> 'm :: comm_monoid_add) \<Rightarrow> 'j wpool \<Rightarrow> 'm" where
  "total f s = sum_list (map f (wp_workers s))"

abbreviation entering :: "'j wpool \<Rightarrow> nat" where
  "entering s \<equiv> total (\<lambda>w. if w = Entering then 1 else 0) s"

definition wp_history :: "'j wpool \<Rightarrow> bool" where
  "wp_history s \<longleftrightarrow> wp_submitted s = wp_started s @ wp_jobs s @ wp_discarded s \<and>
     (wp_phase s \<noteq> Destroyed \<longrightarrow> wp_discarded s = []) \<and>
     mset (wp_started s) = mset (wp_finished s) + total running s"

text \<open>
  Nobody has left before the pool is stopped; while a worker sleeps there are at most as many queued
  jobs as notifications under way and awake workers about to look at the queue; after the
  destructor's notification nobody sleeps.
\<close>

definition wp_awake :: "'j wpool \<Rightarrow> bool" where
  "wp_awake s \<longleftrightarrow> (wp_stop s \<longleftrightarrow> wp_phase s \<noteq> Serving) \<and>
     (\<not> wp_stop s \<longrightarrow> Exited \<notin> set (wp_workers s)) \<and>
     (\<not> wp_stop s \<and> Blocked \<in> set (wp_workers s) \<longrightarrow> length (wp_jobs s) \<le> wp_pending s + entering s) \<and>
     (wp_phase s \<in> {Joining, Destroyed} \<longrightarrow> Blocked \<notin> set (wp_workers s)) \<and>
     (wp_phase s = Destroyed \<longrightarrow> set (wp_workers s) \<subseteq> {Exited})"

definition wp_inv :: "'j wpool \<Rightarrow> bool" where
  [wf_defs]: "wp_inv s \<longleftrightarrow> wp_history s \<and> wp_awake s"

lemma sum_list_update:
  fixes f :: "'a \<Rightarrow> 'm :: comm_monoid_add"
  shows "i < length ws \<Longrightarrow> sum_list (map f (ws[i := x])) + f (ws ! i) = sum_list (map f ws) + f x"
proof (induction ws arbitrary: i)
  case (Cons w ws)
  then show ?case
    by (cases i) (simp_all add: ac_simps)
qed simp

text \<open>What moving one worker does to a total.\<close>

lemma total_set: "wp_at s i w \<Longrightarrow> total f (wp_set i w' s) + f w = total f s + f w'"
  using sum_list_update[of i "wp_workers s" f w'] by (simp add: total_def wp_set_def)

lemma set_workers: "set (wp_workers (wp_set i w s)) \<subseteq> insert w (set (wp_workers s))"
  by (simp add: wp_set_def set_update_subset_insert)

lemma wp_set_simps [simp]:
  "wp_jobs (wp_set i w s) = wp_jobs s" "wp_stop (wp_set i w s) = wp_stop s"
  "wp_pending (wp_set i w s) = wp_pending s" "wp_phase (wp_set i w s) = wp_phase s"
  "wp_crashed (wp_set i w s) = wp_crashed s" "wp_submitted (wp_set i w s) = wp_submitted s"
  "wp_started (wp_set i w s) = wp_started s" "wp_finished (wp_set i w s) = wp_finished s"
  "wp_discarded (wp_set i w s) = wp_discarded s" "length (wp_workers (wp_set i w s)) = length (wp_workers s)"
  by (simp_all add: wp_set_def)

lemma total_frame [simp]:
  "total f (s\<lparr>wp_jobs := a\<rparr>) = total f s" "total f (s\<lparr>wp_started := a\<rparr>) = total f s"
  "total f (s\<lparr>wp_finished := a\<rparr>) = total f s" "total f (s\<lparr>wp_pending := n\<rparr>) = total f s"
  "total f (s\<lparr>wp_submitted := a\<rparr>) = total f s" "total f (s\<lparr>wp_discarded := a\<rparr>) = total f s"
  "total f (s\<lparr>wp_phase := p\<rparr>) = total f s" "total f (s\<lparr>wp_stop := b\<rparr>) = total f s"
  "total f (s\<lparr>wp_crashed := b\<rparr>) = total f s"
  by (simp_all add: total_def)

section \<open>Every step keeps the invariant\<close>

lemma history_set:
  assumes "wp_at s i w" and "running w = running w'"
  shows "wp_history (wp_set i w' s) = wp_history s"
  using total_set[OF assms(1), of running w'] assms(2) by (simp add: wp_history_def)

text \<open>Moving a worker that does not fall asleep, leave early or give up looking at the queue.\<close>

lemma awake_set:
  assumes "wp_awake s" and "wp_at s i w" and "w' \<noteq> Blocked" and "w \<noteq> Exited"
    and "w' = Exited \<Longrightarrow> wp_stop s" and "w = Entering \<Longrightarrow> wp_stop s"
  shows "wp_awake (wp_set i w' s)"
proof -
  have phase: "wp_phase s \<noteq> Destroyed"
    using assms(1,2,4) nth_mem[of i "wp_workers s"] by (auto simp: wp_awake_def)
  have asleep: "Blocked \<in> set (wp_workers (wp_set i w' s)) \<Longrightarrow> Blocked \<in> set (wp_workers s)"
    using set_workers[of i w' s] assms(3) by blast
  have left: "\<not> wp_stop s \<Longrightarrow> Exited \<notin> set (wp_workers (wp_set i w' s))"
    using set_workers[of i w' s] assms(1,5) by (auto simp: wp_awake_def)
  have "\<not> wp_stop s \<Longrightarrow> entering s \<le> entering (wp_set i w' s)"
    using total_set[OF assms(2), of "\<lambda>w. if w = Entering then 1 else 0 :: nat" w'] assms(6) by (auto split: if_splits)
  then show ?thesis
    using assms(1) phase asleep left by (fastforce simp: wp_awake_def)
qed

lemma check_inv: "wp_inv s \<Longrightarrow> wp_at s i Checking \<Longrightarrow> wp_inv (wp_check i s)"
  by (auto simp: wp_inv_def wp_check_def history_set intro!: awake_set)

lemma run_inv:
  assumes "wp_inv s" and "wp_at s i (Running j)"
  shows "wp_inv (wp_run i j s)"
proof -
  have "wp_awake (wp_set i Checking s)"
    using assms by (auto simp: wp_inv_def intro!: awake_set)
  moreover have "total running (wp_set i Checking s) + {#j#} = total running s"
    using total_set[OF assms(2), of running Checking] by simp
  ultimately show ?thesis
    using assms(1) by (simp add: wp_inv_def wp_run_def wp_history_def wp_awake_def)
qed

lemma block_inv:
  assumes "wp_inv s" and "wp_at s i Entering" and "\<not> wp_stop s" and "wp_jobs s = []"
  shows "wp_inv (wp_set i Blocked s)"
  using assms history_set[OF assms(2), of Blocked] set_workers[of i Blocked s]
  by (auto simp: wp_inv_def wp_awake_def)

lemma take_inv:
  assumes "wp_inv s" and "wp_at s i Entering" and "\<not> wp_stop s" and "wp_jobs s = j # js"
  shows "wp_inv ((wp_set i (Running j) s)\<lparr>wp_jobs := js, wp_started := wp_started s @ [j]\<rparr>)"
proof -
  have "total running (wp_set i (Running j) s) = total running s + {#j#}"
    using total_set[OF assms(2), of running "Running j"] by simp
  moreover have "entering (wp_set i (Running j) s) + 1 = entering s"
    using total_set[OF assms(2), of "\<lambda>w. if w = Entering then 1 else 0 :: nat" "Running j"] by simp
  moreover have "wp_phase s = Serving"
    using assms(1,3) by (simp add: wp_inv_def wp_awake_def)
  ultimately show ?thesis
    using assms set_workers[of i "Running j" s] by (auto simp: wp_inv_def wp_history_def wp_awake_def)
qed

lemma enter_inv:
  assumes "wp_inv s" and "wp_at s i Entering"
  shows "wp_inv (wp_enter i s)"
proof (cases "wp_stop s")
  case True
  with assms show ?thesis
    by (auto simp: wp_inv_def wp_enter_def history_set intro!: awake_set)
next
  case False
  then show ?thesis
    using block_inv[OF assms] take_inv[OF assms] by (cases "wp_jobs s") (simp_all add: wp_enter_def)
qed

lemma wake_inv: "wp_inv s \<Longrightarrow> wp_at s i Blocked \<Longrightarrow> wp_inv (wp_set i Entering s)"
  by (auto simp: wp_inv_def history_set intro!: awake_set)

lemma push_inv: "wp_inv s \<Longrightarrow> wp_phase s \<noteq> Destroyed \<Longrightarrow> wp_inv (wp_push j s)"
  by (auto simp: wp_inv_def wp_history_def wp_awake_def wp_push_def)

lemma notify_one_inv:
  assumes "wp_inv s" and "0 < wp_pending s" and "wp_at s i Blocked"
  shows "wp_inv (wp_notified (wp_set i Entering s))"
proof -
  have "entering (wp_set i Entering s) = entering s + 1"
    using total_set[OF assms(3), of "\<lambda>w. if w = Entering then 1 else 0 :: nat" Entering] by simp
  moreover have "Blocked \<in> set (wp_workers s)"
    using assms(3) nth_mem by metis
  ultimately show ?thesis
    using wake_inv[OF assms(1,3)] assms(1,2)
    by (auto simp: wp_inv_def wp_history_def wp_awake_def wp_notified_def)
qed

lemma notify_none_inv:
  "wp_inv s \<Longrightarrow> Blocked \<notin> set (wp_workers s) \<Longrightarrow> wp_inv (wp_notified s)"
  by (auto simp: wp_inv_def wp_history_def wp_awake_def wp_notified_def)

lemma begin_stop_inv: "wp_inv s \<Longrightarrow> wp_phase s = Serving \<Longrightarrow> wp_inv (wp_begin_stop s)"
  by (auto simp: wp_inv_def wp_history_def wp_awake_def wp_begin_stop_def)

lemma notify_all_inv:
  assumes "wp_inv s" and "wp_phase s = Stopping"
  shows "wp_inv (wp_notify_all s)"
proof -
  have "running (if w = Blocked then Entering else w) = running w" for w :: "'a wstate"
    by simp
  then have "total running (wp_notify_all s) = total running s"
    by (simp add: total_def wp_notify_all_def comp_def)
  then show ?thesis
    using assms by (auto simp: wp_inv_def wp_history_def wp_awake_def wp_notify_all_def)
qed

lemma joined_inv:
  "wp_inv s \<Longrightarrow> wp_phase s = Joining \<Longrightarrow> set (wp_workers s) \<subseteq> {Exited} \<Longrightarrow> wp_inv (wp_joined s)"
  by (auto simp: wp_inv_def wp_history_def wp_awake_def wp_joined_def)

lemma work_inv: "wp_inv s \<Longrightarrow> wp_work s t \<Longrightarrow> wp_inv t"
  by (erule wp_workE) (blast intro: check_inv enter_inv run_inv)+

lemma step_inv: "wp_inv s \<Longrightarrow> wp_step s t \<Longrightarrow> wp_inv t"
proof (erule wp_stepE)
  show "wp_inv s \<Longrightarrow> t = s\<lparr>wp_crashed := True\<rparr> \<Longrightarrow> wp_inv t"
    by (simp add: wp_inv_def wp_history_def wp_awake_def)
qed (blast intro: work_inv wake_inv push_inv notify_one_inv notify_none_inv begin_stop_inv
    notify_all_inv joined_inv)+

lemma new_inv: "wp_new n = Inr s \<Longrightarrow> wp_inv s"
proof -
  have "sum_list (replicate k {#}) = ({#} :: 'a multiset)" for k
    by (induction k) simp_all
  then show "wp_new n = Inr s \<Longrightarrow> wp_inv s"
    by (auto simp: wp_new_def wp_inv_def wp_history_def wp_awake_def total_def split: if_splits)
qed

interpretation wp: transition_system wp_step "\<lambda>s. \<exists>n. wp_new n = Inr s" wp_inv
  by unfold_locales (auto intro: step_inv new_inv)

section \<open>Progress\<close>

text \<open>A worker that is neither asleep nor gone can move.\<close>

lemma worker_moves:
  assumes "\<not> wp_crashed s" and "wp_at s i w" and "w \<noteq> Blocked" and "w \<noteq> Exited"
  shows "\<exists>t. wp_work s t"
  using assms wp_work.intros[OF assms(1)] by (cases w) blast+

lemma started_from_entering:
  assumes "\<not> wp_crashed s" and "\<not> wp_stop s" and "wp_jobs s = j # js" and "wp_at s i Entering"
  shows "\<exists>t. wp_step\<^sup>*\<^sup>* s t \<and> wp_started t = wp_started s @ [j]"
proof -
  have "wp_step s (wp_enter i s)"
    using assms(1,4) by (blast intro: wp_step.work wp_work.enter)
  then show ?thesis
    using assms(2,3) by (intro exI[of _ "wp_enter i s"]) (auto simp: wp_enter_def)
qed

lemma step_to_entering:
  assumes "wp_step s t" and "wp_at t i Entering" and "\<not> wp_crashed t" and "\<not> wp_stop t" and "wp_jobs t = j # js"
    and "wp_started t = wp_started s"
  shows "\<exists>u. wp_step\<^sup>*\<^sup>* s u \<and> wp_started u = wp_started s @ [j]"
  using started_from_entering[OF assms(3,4,5,2)] assms(1,6) by (metis converse_rtranclp_into_rtranclp)

lemma started_from_checking:
  assumes "\<not> wp_crashed s" and "\<not> wp_stop s" and "wp_jobs s = j # js" and "wp_at s i Checking"
  shows "\<exists>t. wp_step\<^sup>*\<^sup>* s t \<and> wp_started t = wp_started s @ [j]"
proof (rule step_to_entering)
  show "wp_step s (wp_check i s)"
    using assms(1,4) by (blast intro: wp_step.work wp_work.check)
qed (use assms in \<open>auto simp: wp_check_def wp_set_def\<close>)

lemma started_from_running:
  assumes "\<not> wp_crashed s" and "\<not> wp_stop s" and "wp_jobs s = j # js" and "wp_at s i (Running k)"
  shows "\<exists>t. wp_step\<^sup>*\<^sup>* s t \<and> wp_started t = wp_started s @ [j]"
proof -
  have "wp_step s (wp_run i k s)"
    using assms(1,4) by (blast intro: wp_step.work wp_work.run)
  moreover have "\<exists>t. wp_step\<^sup>*\<^sup>* (wp_run i k s) t \<and> wp_started t = wp_started (wp_run i k s) @ [j]"
    by (rule started_from_checking[of _ j js i]) (use assms in \<open>auto simp: wp_run_def wp_set_def\<close>)
  ultimately show ?thesis
    by (auto simp: wp_run_def intro: converse_rtranclp_into_rtranclp)
qed

lemma started_from_asleep:
  assumes "\<not> wp_crashed s" and "\<not> wp_stop s" and "wp_jobs s = j # js" and "wp_at s i Blocked" and "0 < wp_pending s"
  shows "\<exists>t. wp_step\<^sup>*\<^sup>* s t \<and> wp_started t = wp_started s @ [j]"
proof (rule step_to_entering)
  show "wp_step s (wp_notified (wp_set i Entering s))"
    using assms(1,4,5) by (blast intro: wp_step.notify_one)
qed (use assms in \<open>auto simp: wp_notified_def wp_set_def\<close>)

lemma some_other_worker: "\<not> set (wp_workers s) \<subseteq> {w0} \<Longrightarrow> \<exists>i w. wp_at s i w \<and> w \<noteq> w0"
  by (metis in_set_conv_nth insertI1 subsetI)

lemma job_startable:
  assumes "wp_inv s" and "\<not> wp_crashed s" and "\<not> wp_stop s" and "wp_jobs s = j # js" and "wp_workers s \<noteq> []"
  shows "\<exists>t. wp_step\<^sup>*\<^sup>* s t \<and> wp_started t = wp_started s @ [j]"
proof (cases "set (wp_workers s) \<subseteq> {Blocked}")
  case True
  then have "total (\<lambda>w. if w = Entering then 1 else 0 :: nat) s = 0"
    by (auto simp: total_def)
  moreover have asleep: "wp_at s 0 Blocked"
    using True assms(5) by (metis length_greater_0_conv nth_mem singletonD subsetD)
  then have "Blocked \<in> set (wp_workers s)"
    using nth_mem[of 0 "wp_workers s"] by auto
  ultimately have "0 < wp_pending s"
    using assms(1,3,4) by (auto simp: wp_inv_def wp_awake_def)
  with asleep show ?thesis
    using started_from_asleep[OF assms(2,3,4)] by blast
next
  case False
  then obtain i w where i: "wp_at s i w" "w \<noteq> Blocked"
    using some_other_worker by metis
  have "w \<noteq> Exited"
    using i assms(1,3) nth_mem[of i "wp_workers s"] by (auto simp: wp_inv_def wp_awake_def)
  then show ?thesis
    using i started_from_entering[OF assms(2,3,4)] started_from_checking[OF assms(2,3,4)]
      started_from_running[OF assms(2,3,4)] by (cases w) blast+
qed

text \<open>After the stop, every step of a worker brings it closer to its end and leaves the queue alone.\<close>

fun weight :: "'j wstate \<Rightarrow> nat" where
  "weight Exited = 0"
| "weight (Running j) = 2"
| "weight _ = 1"

lemma total_less:
  "i < length (wp_workers s) \<Longrightarrow> weight w' < weight (wp_workers s ! i) \<Longrightarrow>
    total weight (wp_set i w' s) < total weight s"
  using total_set[of i s "wp_workers s ! i" weight w'] by simp

lemma work_stopped:
  assumes "wp_work s t" and "wp_stop s"
  shows "total weight t < total weight s" and "wp_stop t" and "wp_jobs t = wp_jobs s"
    and "wp_started t = wp_started s" and "wp_phase t = wp_phase s" and "wp_crashed t = wp_crashed s"
    and "length (wp_workers t) = length (wp_workers s)"
  using assms by (auto elim!: wp_workE simp: wp_check_def wp_enter_def wp_run_def intro!: total_less)

lemma weight_bound: "total weight s \<le> 2 * length (wp_workers s)"
proof -
  have "sum_list (map weight ws) \<le> 2 * length ws" for ws :: "'a wstate list"
  proof (induction ws)
    case (Cons w ws)
    then show ?case by (cases w) auto
  qed simp
  then show ?thesis by (simp add: total_def)
qed

lemma work_bound: "(wp_work ^^ k) s t \<Longrightarrow> wp_stop s \<Longrightarrow> wp_stop t \<and> k + total weight t \<le> total weight s"
proof (induction k arbitrary: t)
  case (Suc k)
  then obtain u where "(wp_work ^^ k) s u" "wp_work u t" by auto
  with Suc.IH[of u] Suc.prems(2) work_stopped(1,2)[of u t] show ?case by auto
qed simp

lemma shutdown_run:
  assumes "wp_inv s" and "wp_phase s = Joining" and "\<not> wp_crashed s"
  shows "\<exists>t. wp_work\<^sup>*\<^sup>* s t \<and> set (wp_workers t) \<subseteq> {Exited} \<and> wp_phase t = Joining \<and> \<not> wp_crashed t \<and>
    wp_jobs t = wp_jobs s \<and> wp_started t = wp_started s"
  using assms
proof (induction "total weight s" arbitrary: s rule: less_induct)
  case less
  have stop: "wp_stop s" and awake: "Blocked \<notin> set (wp_workers s)"
    using less.prems by (auto simp: wp_inv_def wp_awake_def)
  show ?case
  proof (cases "set (wp_workers s) \<subseteq> {Exited}")
    case False
    then obtain i w where i: "wp_at s i w" "w \<noteq> Exited"
      using some_other_worker by metis
    have "w \<noteq> Blocked"
      using i(1) awake nth_mem by metis
    then obtain u where u: "wp_work s u"
      using worker_moves[OF less.prems(3) i(1) _ i(2)] by blast
    note props = work_stopped[OF u stop]
    obtain t where "wp_work\<^sup>*\<^sup>* u t" "set (wp_workers t) \<subseteq> {Exited}" "wp_phase t = Joining" "\<not> wp_crashed t"
        "wp_jobs t = wp_jobs u" "wp_started t = wp_started u"
      using less.hyps[OF props(1) work_inv[OF less.prems(1) u]] props less.prems by auto
    then show ?thesis
      using u props by (metis converse_rtranclp_into_rtranclp)
  qed (use less.prems in blast)
qed

section \<open>Properties\<close>

text \<open>
  C7. No job is lost, duplicated or overtaken. In every state a pool can reach, under every
  interleaving of its workers and of the threads that add jobs, the jobs submitted are those
  started, in the order of submission, followed by those queued; and the jobs started are those
  that have finished and those running, each once.
\<close>

theorem worker_pool_conserves_jobs:
  assumes "wp_new n = Inr s0" and "wp_step\<^sup>*\<^sup>* s0 s" and "wp_phase s \<noteq> Destroyed"
  shows "wp_submitted s = wp_started s @ wp_jobs s \<and>
    mset (wp_started s) = mset (wp_finished s) + sum_list (map running (wp_workers s))"
proof -
  have "wp_inv s"
    using wp.inv_reachable assms(1,2) by blast
  then show ?thesis
    using assms(3) by (simp add: wp_inv_def wp_history_def total_def)
qed

definition wp_demo :: "nat wpool" where
  "wp_demo = \<lparr>wp_jobs = [], wp_stop = False, wp_workers = [Checking, Checking], wp_pending = 0,
     wp_phase = Serving, wp_crashed = False, wp_submitted = [], wp_started = [], wp_finished = [],
     wp_discarded = []\<rparr>"

lemma wp_demo_new: "wp_new 2 = Inr wp_demo"
  by (simp add: wp_new_def wp_demo_def numeral_2_eq_2)

lemma wp_demo_push: "wp_step\<^sup>*\<^sup>* wp_demo (wp_push 7 wp_demo)"
  by (rule r_into_rtranclp, rule wp_step.push) (simp_all add: wp_demo_def)

theorem worker_pool_conserves_jobs_witness:
  "wp_submitted (wp_push 7 wp_demo) = wp_started (wp_push 7 wp_demo) @ wp_jobs (wp_push 7 wp_demo)"
  using worker_pool_conserves_jobs[OF wp_demo_new wp_demo_push] by (simp add: wp_push_def wp_demo_def)

text \<open>
  C6. No wake-up is lost. While jobs are queued and the pool is not stopped, a worker sleeps only if
  every queued job has a notification under way or an awake worker about to look at the queue; and
  the oldest job can always be started by steps of the pool itself.
\<close>

theorem worker_pool_no_lost_wakeup:
  assumes "wp_new n = Inr s0" and "0 < n" and "wp_step\<^sup>*\<^sup>* s0 s"
    and "\<not> wp_crashed s" and "\<not> wp_stop s" and "wp_jobs s = j # js"
  shows "(Blocked \<in> set (wp_workers s) \<longrightarrow>
      length (wp_jobs s) \<le> wp_pending s + length (filter (\<lambda>w. w = Entering) (wp_workers s))) \<and>
    (\<exists>t. wp_step\<^sup>*\<^sup>* s t \<and> wp_started t = wp_started s @ [j])"
proof -
  have inv: "wp_inv s"
    using wp.inv_reachable assms(1,3) by blast
  have count: "sum_list (map (\<lambda>w. if w = Entering then 1 else 0) ws) = length (filter (\<lambda>w. w = Entering) ws)"
    for ws :: "'a wstate list"
    by (induction ws) simp_all
  have size_step: "length (wp_workers u) = length (wp_workers t)" if "wp_step t u" for t u :: "'a wpool"
    using that by (auto elim!: wp_stepE wp_workE simp: wp_check_def wp_enter_def wp_run_def wp_push_def
        wp_notified_def wp_begin_stop_def wp_notify_all_def wp_joined_def)
  have "length (wp_workers s) = length (wp_workers s0)"
    using assms(3) by (induction rule: rtranclp_induct) (simp_all add: size_step)
  then have "wp_workers s \<noteq> []"
    using assms(1,2) by (auto simp: wp_new_def split: if_splits)
  with inv assms(4-6) have "\<exists>t. wp_step\<^sup>*\<^sup>* s t \<and> wp_started t = wp_started s @ [j]"
    by (intro job_startable)
  then show ?thesis
    using inv assms(5) by (simp add: wp_inv_def wp_awake_def total_def count)
qed

theorem worker_pool_no_lost_wakeup_witness:
  "\<exists>t. wp_step\<^sup>*\<^sup>* (wp_push 7 wp_demo) t \<and> wp_started t = wp_started (wp_push 7 wp_demo) @ [7]"
  using worker_pool_no_lost_wakeup[OF wp_demo_new _ wp_demo_push, of 7 "[]"] by (simp add: wp_push_def wp_demo_def)

text \<open>
  Shutting down ends. Once the destructor joins the workers, they can only make a bounded number
  of steps, two per worker, and they reach a state in which all have left and the destructor is
  over. No job that was queued when the pool was stopped is started: all of them are discarded.
\<close>

theorem worker_pool_shutdown:
  assumes "wp_new n = Inr s0" and "wp_step\<^sup>*\<^sup>* s0 s" and "wp_phase s = Joining" and "\<not> wp_crashed s"
  shows "(\<forall>k t. (wp_work ^^ k) s t \<longrightarrow> k \<le> 2 * length (wp_workers s)) \<and>
    (\<exists>t u. wp_work\<^sup>*\<^sup>* s t \<and> wp_step t u \<and> wp_phase u = Destroyed \<and>
       wp_discarded u = wp_jobs s \<and> wp_started u = wp_started s)"
proof (intro conjI allI impI)
  have inv: "wp_inv s"
    using wp.inv_reachable assms(1,2) by blast
  have stop: "wp_stop s"
    using inv assms(3) by (simp add: wp_inv_def wp_awake_def)
  show "k \<le> 2 * length (wp_workers s)" if "(wp_work ^^ k) s t" for k t
    using work_bound[OF that stop] weight_bound[of s] by linarith
  obtain t where t: "wp_work\<^sup>*\<^sup>* s t" "set (wp_workers t) \<subseteq> {Exited}" "wp_phase t = Joining" "\<not> wp_crashed t"
      "wp_jobs t = wp_jobs s" "wp_started t = wp_started s"
    using shutdown_run[OF inv assms(3,4)] by blast
  then have "wp_step t (wp_joined t)"
    by (intro wp_step.joined)
  then show "\<exists>t u. wp_work\<^sup>*\<^sup>* s t \<and> wp_step t u \<and> wp_phase u = Destroyed \<and> wp_discarded u = wp_jobs s \<and>
      wp_started u = wp_started s"
    using t by (intro exI[of _ t] exI[of _ "wp_joined t"]) (simp add: wp_joined_def)
qed

theorem worker_pool_shutdown_witness:
  "\<exists>s t u. wp_step\<^sup>*\<^sup>* wp_demo s \<and> wp_jobs s = [7] \<and> wp_work\<^sup>*\<^sup>* s t \<and> wp_step t u \<and>
     wp_phase u = Destroyed \<and> wp_discarded u = [7] \<and> wp_started u = []"
proof -
  let ?s1 = "wp_push 7 wp_demo"
  let ?s = "wp_notify_all (wp_begin_stop ?s1)"
  have "wp_step ?s1 (wp_begin_stop ?s1)"
    by (rule wp_step.begin_stop) (simp_all add: wp_push_def wp_demo_def)
  moreover have "wp_step (wp_begin_stop ?s1) ?s"
    by (rule wp_step.notify_all) (simp_all add: wp_push_def wp_demo_def wp_begin_stop_def)
  ultimately have run: "wp_step\<^sup>*\<^sup>* wp_demo ?s"
    using wp_demo_push by (meson rtranclp.rtrancl_into_rtrancl)
  have s: "wp_phase ?s = Joining" "\<not> wp_crashed ?s" "wp_jobs ?s = [7]" "wp_started ?s = []"
    by (simp_all add: wp_notify_all_def wp_begin_stop_def wp_push_def wp_demo_def)
  from conjunct2[OF worker_pool_shutdown[OF wp_demo_new run s(1,2)]] run s show ?thesis by metis
qed

end
