(* ===== verification/Persistent_Worker.thy ===== *)
theory Persistent_Worker
  imports Libftpp_Prelude "HOL-Library.Multiset" "HOL-Library.AList"
begin

text \<open>
  \<^verbatim>\<open>src/src/thread/persistent_worker\<close>: one thread that runs all its named tasks over and over. As for
  the worker pool, a step is a critical section, a notification or the run of a task. The pass over
  the tasks works on a copy, in the iteration order of an unordered map, which is any order.
  Exceptions of a task are caught and reported, so the run of a task always goes on.
\<close>

section \<open>State and operations\<close>

datatype 'f pw_pc = Locking | Waiting | Passing "(string \<times> 'f) list" | Left

record 'f pworker =
  pw_tasks :: "(string \<times> 'f) list"
  pw_running :: bool
  pw_pc :: "'f pw_pc"
  pw_notify :: bool \<comment> \<open>the destructor still has to notify\<close>
  pw_joined :: bool
  pw_log :: "(string \<times> 'f) list" \<comment> \<open>the tasks run so far\<close>

definition pw_new :: "'f pworker" where
  "pw_new = \<lparr>pw_tasks = [], pw_running = True, pw_pc = Locking, pw_notify = False, pw_joined = False, pw_log = []\<rparr>"

definition pw_wake :: "'f pworker \<Rightarrow> 'f pworker" where
  "pw_wake s = (if pw_pc s = Waiting then s\<lparr>pw_pc := Locking\<rparr> else s)"

definition pw_addTask :: "string \<Rightarrow> 'f \<Rightarrow> 'f pworker \<Rightarrow> 'f pworker" where
  "pw_addTask name job s = pw_wake (s\<lparr>pw_tasks := AList.update name job (pw_tasks s)\<rparr>)"

definition pw_removeTask :: "string \<Rightarrow> 'f pworker \<Rightarrow> 'f pworker" where
  "pw_removeTask name s = s\<lparr>pw_tasks := AList.delete name (pw_tasks s)\<rparr>"

text \<open>The critical section of the loop, given the order in which the copy is going to be walked.\<close>

definition pw_lock :: "(string \<times> 'f) list \<Rightarrow> 'f pworker \<Rightarrow> 'f pworker" where
  "pw_lock copy s =
     (if \<not> (\<not> pw_running s \<or> pw_tasks s \<noteq> []) then s\<lparr>pw_pc := Waiting\<rparr>
      else if \<not> pw_running s then s\<lparr>pw_pc := Left\<rparr>
      else s\<lparr>pw_pc := Passing copy\<rparr>)"

definition pw_run :: "string \<times> 'f \<Rightarrow> (string \<times> 'f) list \<Rightarrow> 'f pworker \<Rightarrow> 'f pworker" where
  "pw_run element rest s = s\<lparr>pw_log := pw_log s @ [element], pw_pc := Passing rest\<rparr>"

definition pw_again :: "'f pworker \<Rightarrow> 'f pworker" where
  "pw_again s = s\<lparr>pw_pc := (if pw_running s then Locking else Left)\<rparr>"

definition pw_begin_stop :: "'f pworker \<Rightarrow> 'f pworker" where
  "pw_begin_stop s = s\<lparr>pw_running := False, pw_notify := True\<rparr>"

definition pw_stop_notify :: "'f pworker \<Rightarrow> 'f pworker" where
  "pw_stop_notify s = pw_wake (s\<lparr>pw_notify := False\<rparr>)"

inductive pw_work :: "'f pworker \<Rightarrow> 'f pworker \<Rightarrow> bool" where
  lock: "pw_pc s = Locking \<Longrightarrow> mset copy = mset (pw_tasks s) \<Longrightarrow> pw_work s (pw_lock copy s)"
| run: "pw_pc s = Passing (element # rest) \<Longrightarrow> pw_work s (pw_run element rest s)"
| again: "pw_pc s = Passing [] \<Longrightarrow> pw_work s (pw_again s)"

inductive pw_step :: "'f pworker \<Rightarrow> 'f pworker \<Rightarrow> bool" where
  work: "pw_work s t \<Longrightarrow> pw_step s t"
| spurious: "pw_pc s = Waiting \<Longrightarrow> pw_step s (pw_wake s)"
| add: "pw_running s \<Longrightarrow> pw_step s (pw_addTask name job s)"
| remove: "pw_running s \<Longrightarrow> pw_step s (pw_removeTask name s)"
| begin_stop: "pw_running s \<Longrightarrow> pw_step s (pw_begin_stop s)"
| stop_notify: "pw_notify s \<Longrightarrow> pw_step s (pw_stop_notify s)"
| join: "\<not> pw_running s \<Longrightarrow> \<not> pw_notify s \<Longrightarrow> pw_pc s = Left \<Longrightarrow> pw_step s (s\<lparr>pw_joined := True\<rparr>)"

inductive_cases pw_workE: "pw_work s t"
inductive_cases pw_stepE: "pw_step s t"

section \<open>Invariant\<close>

text \<open>
  Names are unique. The thread sleeps only when there is nothing to do, or when the destructor is
  about to notify it; it leaves only when it is told to.
\<close>

definition pw_inv :: "'f pworker \<Rightarrow> bool" where
  [wf_defs]: "pw_inv s \<longleftrightarrow> distinct (map fst (pw_tasks s)) \<and>
     (pw_pc s = Waiting \<longrightarrow> pw_running s \<and> pw_tasks s = [] \<or> pw_notify s) \<and>
     (pw_notify s \<longrightarrow> \<not> pw_running s) \<and> (pw_pc s = Left \<longrightarrow> \<not> pw_running s) \<and>
     (pw_joined s \<longrightarrow> pw_pc s = Left)"

lemma pw_wake_inv:
  "distinct (map fst (pw_tasks s)) \<Longrightarrow> (pw_notify s \<longrightarrow> \<not> pw_running s) \<Longrightarrow> (pw_pc s = Left \<longrightarrow> \<not> pw_running s) \<Longrightarrow>
    (pw_joined s \<longrightarrow> pw_pc s = Left) \<Longrightarrow> pw_inv (pw_wake s)"
  by (auto simp: pw_inv_def pw_wake_def)

lemma pw_work_inv: "pw_inv s \<Longrightarrow> pw_work s t \<Longrightarrow> pw_inv t"
  by (erule pw_workE) (auto simp: pw_inv_def pw_lock_def pw_run_def pw_again_def)

lemma pw_step_inv:
  assumes "pw_inv s" and "pw_step s t"
  shows "pw_inv t"
  using assms(2)
proof cases
  case work
  then show ?thesis using assms(1) pw_work_inv by blast
next
  case spurious
  then show ?thesis using assms(1) pw_wake_inv[of s] by (simp add: pw_inv_def)
next
  case (add name job)
  then show ?thesis
    using assms(1) unfolding add(1) pw_addTask_def
    by (intro pw_wake_inv) (auto simp: pw_inv_def distinct_update)
next
  case (remove name)
  then show ?thesis
    using assms(1) by (auto simp: pw_inv_def pw_removeTask_def distinct_delete)
next
  case begin_stop
  then show ?thesis using assms(1) by (simp add: pw_inv_def pw_begin_stop_def)
next
  case stop_notify
  then show ?thesis
    using assms(1) unfolding stop_notify(1) pw_stop_notify_def by (intro pw_wake_inv) (auto simp: pw_inv_def)
next
  case join
  then show ?thesis using assms(1) by (simp add: pw_inv_def)
qed

lemma pw_new_inv: "pw_inv pw_new"
  by (simp add: pw_inv_def pw_new_def)

interpretation pw: transition_system pw_step "\<lambda>s. s = pw_new" pw_inv
  by unfold_locales (auto intro: pw_step_inv pw_new_inv)

section \<open>Progress\<close>

lemma pass_run:
  "pw_pc s = Passing (xs @ ys) \<Longrightarrow>
    pw_work\<^sup>*\<^sup>* s (s\<lparr>pw_log := pw_log s @ xs, pw_pc := Passing ys\<rparr>)"
proof (induction xs arbitrary: s)
  case (Cons x xs)
  let ?t = "pw_run x (xs @ ys) s"
  have "pw_work s ?t"
    using Cons.prems by (intro pw_work.run) simp
  moreover have "pw_work\<^sup>*\<^sup>* ?t (?t\<lparr>pw_log := pw_log ?t @ xs, pw_pc := Passing ys\<rparr>)"
    by (rule Cons.IH) (simp add: pw_run_def)
  ultimately show ?case
    by (simp add: pw_run_def converse_rtranclp_into_rtranclp)
next
  case Nil
  then show ?case by (cases s) simp
qed

lemma to_locking:
  assumes "pw_running s" and "pw_inv s" and "pw_tasks s \<noteq> []"
  obtains t where "pw_work\<^sup>*\<^sup>* s t" and "pw_pc t = Locking" and "pw_running t" and "pw_tasks t = pw_tasks s"
    and "\<exists>new. pw_log t = pw_log s @ new"
proof (cases "pw_pc s")
  case (Passing xs)
  let ?t = "s\<lparr>pw_log := pw_log s @ xs, pw_pc := Passing []\<rparr>"
  have "pw_work\<^sup>*\<^sup>* s ?t"
    using pass_run[of s xs "[]"] Passing by simp
  moreover have "pw_work ?t (pw_again ?t)"
    by (rule pw_work.again) simp
  ultimately show thesis
    using assms(1) by (intro that[of "pw_again ?t"]) (auto simp: pw_again_def)
qed (use assms that in \<open>auto simp: pw_inv_def\<close>)

text \<open>Every task is run in the next pass.\<close>

lemma full_pass:
  assumes "pw_running s" and "pw_inv s" and "pw_tasks s \<noteq> []"
  shows "\<exists>t pre. pw_work\<^sup>*\<^sup>* s t \<and> pw_log t = pw_log s @ pre @ pw_tasks s"
proof -
  obtain u new where u: "pw_work\<^sup>*\<^sup>* s u" "pw_pc u = Locking" "pw_running u" "pw_tasks u = pw_tasks s"
      "pw_log u = pw_log s @ new"
    using to_locking[OF assms] by metis
  let ?v = "pw_lock (pw_tasks s) u"
  have "pw_work u ?v"
    using u by (intro pw_work.lock) simp_all
  moreover have "pw_pc ?v = Passing (pw_tasks s @ [])" "pw_log ?v = pw_log u"
    using u assms(3) by (simp_all add: pw_lock_def)
  then have "pw_work\<^sup>*\<^sup>* ?v (?v\<lparr>pw_log := pw_log u @ pw_tasks s, pw_pc := Passing []\<rparr>)"
    using pass_run[of ?v "pw_tasks s" "[]"] by simp
  ultimately have "pw_work\<^sup>*\<^sup>* s (?v\<lparr>pw_log := pw_log u @ pw_tasks s, pw_pc := Passing []\<rparr>)"
    using u(1) by (meson converse_rtranclp_into_rtranclp rtranclp_trans)
  then show ?thesis
    using u(5) by (intro exI conjI) auto
qed

text \<open>Once it is stopped, the thread makes at most as many steps as tasks remain in the pass, and one.\<close>

fun pw_weight :: "'f pw_pc \<Rightarrow> nat" where
  "pw_weight Left = 0"
| "pw_weight Waiting = 0"
| "pw_weight Locking = 1"
| "pw_weight (Passing xs) = Suc (length xs)"

lemma work_notify: "pw_work s t \<Longrightarrow> pw_notify t = pw_notify s"
  by (erule pw_workE) (simp_all add: pw_lock_def pw_run_def pw_again_def)

lemma pw_work_stopped:
  assumes "pw_work s t" and "\<not> pw_running s"
  shows "pw_weight (pw_pc t) < pw_weight (pw_pc s)" and "\<not> pw_running t" and "pw_notify t = pw_notify s"
    and "pw_pc t \<noteq> Waiting"
  using assms by (auto elim!: pw_workE simp: pw_lock_def pw_run_def pw_again_def)

lemma stopped_bound:
  "(pw_work ^^ k) s t \<Longrightarrow> \<not> pw_running s \<Longrightarrow> \<not> pw_running t \<and> k + pw_weight (pw_pc t) \<le> pw_weight (pw_pc s)"
proof (induction k arbitrary: t)
  case (Suc k)
  then obtain u where "(pw_work ^^ k) s u" "pw_work u t" by auto
  with Suc.IH[of u] Suc.prems(2) pw_work_stopped(1,2)[of u t] show ?case by auto
qed simp

lemma stopped_leaves:
  assumes "\<not> pw_running s" and "pw_pc s \<noteq> Waiting"
  shows "\<exists>t. pw_work\<^sup>*\<^sup>* s t \<and> pw_pc t = Left \<and> \<not> pw_running t"
  using assms
proof (induction "pw_weight (pw_pc s)" arbitrary: s rule: less_induct)
  case less
  show ?case
  proof (cases "pw_pc s = Left")
    case False
    have "\<exists>u. pw_work s u"
    proof (cases "pw_pc s")
      case (Passing xs)
      then show ?thesis by (cases xs) (auto intro: pw_work.run pw_work.again)
    qed (use less.prems False in \<open>auto intro: pw_work.lock\<close>)
    then obtain u where u: "pw_work s u" by blast
    note props = pw_work_stopped[OF u less.prems(1)]
    obtain t where "pw_work\<^sup>*\<^sup>* u t" "pw_pc t = Left" "\<not> pw_running t"
      using less.hyps[OF props(1) props(2,4)] by blast
    then show ?thesis
      using u by (meson converse_rtranclp_into_rtranclp)
  qed (use less.prems in blast)
qed

section \<open>Properties\<close>

text \<open>
  In every state a persistent worker can reach while it runs: it sleeps only without tasks, it
  has not left, and by its own steps it runs every task it has, each once, in its next pass. Once
  the destructor has cleared the flag and notified, the thread makes a bounded number of steps, as
  many as tasks remain in its pass and one more, and leaves, so that joining it ends.
\<close>

theorem persistent_worker_progress:
  assumes "pw_step\<^sup>*\<^sup>* pw_new s"
  shows "(pw_running s \<longrightarrow> pw_pc s \<noteq> Left \<and> (pw_pc s = Waiting \<longrightarrow> pw_tasks s = []) \<and>
      (pw_tasks s \<noteq> [] \<longrightarrow> (\<exists>t xs. pw_work\<^sup>*\<^sup>* s t \<and> pw_log t = pw_log s @ xs @ pw_tasks s))) \<and>
    (\<not> pw_running s \<and> \<not> pw_notify s \<longrightarrow>
      (\<forall>k t. (pw_work ^^ k) s t \<longrightarrow> k \<le> pw_weight (pw_pc s)) \<and>
      (\<exists>t u. pw_work\<^sup>*\<^sup>* s t \<and> pw_step t u \<and> pw_joined u))"
proof -
  have inv: "pw_inv s"
    using pw.inv_reachable assms by blast
  have "\<exists>t u. pw_work\<^sup>*\<^sup>* s t \<and> pw_step t u \<and> pw_joined u" if stop: "\<not> pw_running s" "\<not> pw_notify s"
  proof -
    have "pw_pc s \<noteq> Waiting"
      using inv stop by (auto simp: pw_inv_def)
    with stop obtain t where t: "pw_work\<^sup>*\<^sup>* s t" "pw_pc t = Left" "\<not> pw_running t"
      using stopped_leaves by blast
    moreover have "pw_notify t = pw_notify s"
      using t(1) by (induction rule: rtranclp_induct) (simp_all add: work_notify)
    ultimately have "pw_step t (t\<lparr>pw_joined := True\<rparr>)"
      using stop by (intro pw_step.join) simp_all
    with t show ?thesis by (intro exI[of _ t] exI[of _ "t\<lparr>pw_joined := True\<rparr>"]) simp
  qed
  then show ?thesis
    using inv full_pass[of s] stopped_bound[of _ s] by (fastforce simp: pw_inv_def)
qed

theorem persistent_worker_progress_witness:
  "\<exists>t xs. pw_work\<^sup>*\<^sup>* (pw_addTask ''log'' (1 :: nat) pw_new) t \<and>
     pw_log t = pw_log (pw_addTask ''log'' 1 pw_new) @ xs @ [(''log'', 1)]"
proof -
  have "pw_step\<^sup>*\<^sup>* pw_new (pw_addTask ''log'' (1 :: nat) pw_new)"
    by (rule r_into_rtranclp, rule pw_step.add) (simp add: pw_new_def)
  from persistent_worker_progress[OF this] show ?thesis
    by (simp add: pw_addTask_def pw_new_def pw_wake_def)
qed

end
