(* ===== verification/Liveness.thy ===== *)
theory Liveness
  imports Worker_Pool Persistent_Worker
begin

text \<open>
  Liveness of the worker pool and of the persistent worker under a fair scheduler
  (\<^verbatim>\<open>src/src/thread/worker_pool\<close>, \<^verbatim>\<open>persistent_worker\<close>), in the locale \<open>fair_run\<close>. The actors of the pool
  are the worker threads, whose steps include running a job to its end, the notifications that
  calls of \<open>addJob\<close> still have to make, and a destructor once it was called; the persistent worker has its
  one thread. Nothing is assumed
  about which sleeping worker a notification wakes, about spurious wake-ups, or about who adds and
  removes jobs and when.
\<close>

section \<open>Actors of the pool\<close>

datatype wp_actor = Worker nat | Notifier | Destructor

inductive wp_act :: "wp_actor \<Rightarrow> 'j wpool \<Rightarrow> 'j wpool \<Rightarrow> bool" where
  "\<not> wp_crashed s \<Longrightarrow> wp_at s i Checking \<Longrightarrow> wp_act (Worker i) s (wp_check i s)"
| "\<not> wp_crashed s \<Longrightarrow> wp_at s i Entering \<Longrightarrow> wp_act (Worker i) s (wp_enter i s)"
| "\<not> wp_crashed s \<Longrightarrow> wp_at s i (Running j) \<Longrightarrow> wp_act (Worker i) s (wp_run i j s)"
| "\<not> wp_crashed s \<Longrightarrow> 0 < wp_pending s \<Longrightarrow> wp_at s i Blocked \<Longrightarrow>
    wp_act Notifier s (wp_notified (wp_set i Entering s))"
| "\<not> wp_crashed s \<Longrightarrow> 0 < wp_pending s \<Longrightarrow> Blocked \<notin> set (wp_workers s) \<Longrightarrow> wp_act Notifier s (wp_notified s)"
| "\<not> wp_crashed s \<Longrightarrow> wp_phase s = Stopping \<Longrightarrow> wp_act Destructor s (wp_notify_all s)"
| "\<not> wp_crashed s \<Longrightarrow> wp_phase s = Joining \<Longrightarrow> set (wp_workers s) \<subseteq> {Exited} \<Longrightarrow> wp_act Destructor s (wp_joined s)"

inductive_cases wp_act_workerE: "wp_act (Worker i) s t"
inductive_cases wp_act_notifierE: "wp_act Notifier s t"
inductive_cases wp_act_destructorE: "wp_act Destructor s t"

lemma act_step: "wp_act l s t \<Longrightarrow> wp_step s t"
  by (induction rule: wp_act.induct) (blast intro: wp_step.intros wp_work.intros)+

lemma worker_enabled:
  "\<not> wp_crashed s \<Longrightarrow> wp_at s i w \<Longrightarrow> w \<noteq> Blocked \<Longrightarrow> w \<noteq> Exited \<Longrightarrow> \<exists>t. wp_act (Worker i) s t"
  by (cases w) (blast intro: wp_act.intros)+

text \<open>Only a worker's own step moves it while it is awake.\<close>

lemma step_keeps_worker:
  assumes "wp_step s t" and "wp_at s i w" and "w \<noteq> Blocked" and "\<not> wp_act (Worker i) s t"
  shows "wp_at t i w"
proof -
  have other: "wp_at (wp_set k v s) i w" if "k \<noteq> i" for k v
    using assms(2) that by (simp add: wp_set_def)
  show ?thesis
    using assms(1)
  proof (cases rule: wp_step.cases)
    case work
    then show ?thesis
    proof (cases rule: wp_work.cases)
      case (check k)
      then show ?thesis using assms(4) other wp_act.intros(1) unfolding wp_check_def by metis
    next
      case (enter k)
      then have "k \<noteq> i" using assms(4) wp_act.intros(2) by metis
      then show ?thesis using other[of k] enter by (auto simp: wp_enter_def)
    next
      case (run k j)
      then have "k \<noteq> i" using assms(4) wp_act.intros(3) by metis
      then show ?thesis using other[of k] run by (auto simp: wp_run_def)
    qed
  next
    case (spurious k)
    then show ?thesis using assms(2,3) other by metis
  next
    case (notify_one k)
    then have "k \<noteq> i" using assms(2,3) by auto
    then show ?thesis using other[of k] notify_one by (auto simp: wp_notified_def)
  qed (use assms(2,3) in \<open>auto simp: wp_push_def wp_notified_def wp_begin_stop_def wp_notify_all_def wp_joined_def\<close>)
qed

text \<open>The histories only grow.\<close>

lemma step_grows:
  assumes "wp_step s t"
  shows "\<exists>xs. wp_submitted t = wp_submitted s @ xs" and "\<exists>xs. wp_started t = wp_started s @ xs"
    and "set (wp_finished s) \<subseteq> set (wp_finished t)" and "length (wp_workers t) = length (wp_workers s)"
  using assms by (auto elim!: wp_stepE wp_workE simp: wp_check_def wp_enter_def wp_run_def wp_push_def
      wp_notified_def wp_begin_stop_def wp_notify_all_def wp_joined_def)

lemma steps_grow:
  assumes "wp_step\<^sup>*\<^sup>* s t"
  shows "(\<exists>xs. wp_submitted t = wp_submitted s @ xs) \<and> (\<exists>xs. wp_started t = wp_started s @ xs) \<and>
    set (wp_finished s) \<subseteq> set (wp_finished t) \<and> length (wp_workers t) = length (wp_workers s)"
  using assms
proof (induction rule: rtranclp_induct)
  case (step t u)
  then show ?case
    using step_grows[OF step.hyps(2)] by fastforce
qed simp

lemma running_member: "j \<in># total running s \<Longrightarrow> \<exists>i. wp_at s i (Running j)"
proof -
  have "j \<in># sum_list (map running ws) \<Longrightarrow> Running j \<in> set ws" for ws
  proof (induction ws)
    case (Cons w ws)
    then show ?case by (cases w) auto
  qed simp
  then show "j \<in># total running s \<Longrightarrow> \<exists>i. wp_at s i (Running j)"
    by (auto simp: total_def in_set_conv_nth dest!: meta_spec[of _ "wp_workers s"])
qed

section \<open>Fair runs of a serving pool\<close>

text \<open>What holds in every fair run of a pool whose jobs do not throw.\<close>

locale pool_fair = fair_run wp_step wp_act \<sigma> for \<sigma> :: "nat \<Rightarrow> 'j wpool" +
  fixes n :: int
  assumes start: "wp_new n = Inr (\<sigma> 0)" and no_throw: "\<not> wp_crashed (\<sigma> k)"
begin

lemma inv_at: "wp_inv (\<sigma> k)"
  using wp.inv_reachable start run_steps[of 0 k] by blast

lemma grows:
  assumes "k \<le> m"
  obtains xs ys where "wp_submitted (\<sigma> m) = wp_submitted (\<sigma> k) @ xs" "wp_started (\<sigma> m) = wp_started (\<sigma> k) @ ys"
  using steps_grow[OF run_steps[OF assms]] by blast

text \<open>An awake worker eventually takes its next step.\<close>

lemma worker_eventually:
  assumes "wp_at (\<sigma> k) i w" and "w \<noteq> Blocked" and "w \<noteq> Exited"
  shows "\<exists>m\<ge>k. wp_at (\<sigma> m) i w \<and> wp_act (Worker i) (\<sigma> m) (\<sigma> (Suc m))"
proof (rule ensures[where P = "\<lambda>s. wp_at s i w"])
  show "\<exists>t. wp_act (Worker i) (\<sigma> m) t" if "wp_at (\<sigma> m) i w" for m
    using worker_enabled[OF no_throw that assms(2,3)] .
  show "wp_at (\<sigma> (Suc m)) i w"
    if "wp_at (\<sigma> m) i w" "wp_step (\<sigma> m) (\<sigma> (Suc m))" "\<not> wp_act (Worker i) (\<sigma> m) (\<sigma> (Suc m))" for m
    using step_keeps_worker[OF that(2,1) assms(2) that(3)] .
qed (rule assms(1))

end

text \<open>A pool with workers that is not destroyed.\<close>

locale pool_run = pool_fair +
  assumes workers: "0 < n" and serving: "\<not> wp_stop (\<sigma> k)"
begin

lemma some_worker: "wp_workers (\<sigma> k) \<noteq> []"
proof -
  have "length (wp_workers (\<sigma> k)) = length (wp_workers (\<sigma> 0))"
    using steps_grow[OF run_steps[of 0 k]] by simp
  moreover have "wp_workers (\<sigma> 0) \<noteq> []"
    using start[symmetric] workers by (simp add: wp_new_def split: if_splits)
  ultimately show ?thesis by auto
qed

lemma queue_at: "wp_submitted (\<sigma> k) = wp_started (\<sigma> k) @ wp_jobs (\<sigma> k)" "Exited \<notin> set (wp_workers (\<sigma> k))"
  using inv_at[of k] serving[of k] by (auto simp: wp_inv_def wp_history_def wp_awake_def)

text \<open>From every state of an awake worker the oldest job is started.\<close>

abbreviation progress :: "nat \<Rightarrow> bool" where
  "progress k \<equiv> \<exists>m\<ge>k. length (wp_started (\<sigma> k)) < length (wp_started (\<sigma> m))"

lemma started_mono: "k \<le> m \<Longrightarrow> length (wp_started (\<sigma> k)) \<le> length (wp_started (\<sigma> m))"
  by (erule grows) simp

lemma progress_later: "k \<le> m \<Longrightarrow> progress m \<Longrightarrow> progress k"
  using started_mono[of k m] by (meson le_less_trans le_trans)

lemma waiting: "\<not> progress k \<Longrightarrow> wp_jobs (\<sigma> k) \<noteq> [] \<Longrightarrow> k \<le> m \<Longrightarrow> wp_jobs (\<sigma> m) \<noteq> []"
proof -
  assume *: "\<not> progress k" "wp_jobs (\<sigma> k) \<noteq> []" "k \<le> m"
  obtain xs ys where "wp_submitted (\<sigma> m) = wp_submitted (\<sigma> k) @ xs" "wp_started (\<sigma> m) = wp_started (\<sigma> k) @ ys"
    using *(3) by (rule grows)
  moreover have "length (wp_started (\<sigma> m)) \<le> length (wp_started (\<sigma> k))"
    using *(1,3) by (simp add: not_less)
  ultimately show ?thesis
    using *(2) queue_at(1)[of k] queue_at(1)[of m] by auto
qed

lemma entering_progress:
  assumes "wp_jobs (\<sigma> k) \<noteq> []" and "wp_at (\<sigma> k) i Entering"
  shows "progress k"
proof (rule ccontr)
  assume stuck: "\<not> progress k"
  obtain m where m: "k \<le> m" "wp_at (\<sigma> m) i Entering" "wp_act (Worker i) (\<sigma> m) (\<sigma> (Suc m))"
    using worker_eventually[OF assms(2)] by blast
  then have "\<sigma> (Suc m) = wp_enter i (\<sigma> m)"
    by (auto elim: wp_act_workerE)
  then have "length (wp_started (\<sigma> (Suc m))) = Suc (length (wp_started (\<sigma> m)))"
    using waiting[OF stuck assms(1) m(1)] serving[of m] by (simp add: wp_enter_def)
  then show False
    using stuck started_mono[OF m(1)] m(1) by (metis le_Suc_eq less_Suc_eq_le)
qed

lemma checking_progress:
  assumes "wp_jobs (\<sigma> k) \<noteq> []" and "wp_at (\<sigma> k) i Checking"
  shows "progress k"
proof (rule ccontr)
  assume stuck: "\<not> progress k"
  obtain m where m: "k \<le> m" "wp_at (\<sigma> m) i Checking" "wp_act (Worker i) (\<sigma> m) (\<sigma> (Suc m))"
    using worker_eventually[OF assms(2)] by blast
  then have "wp_at (\<sigma> (Suc m)) i Entering"
    using serving[of m] by (auto elim!: wp_act_workerE simp: wp_check_def wp_set_def)
  then show False
    using stuck entering_progress[of "Suc m"] waiting[OF stuck assms(1), of "Suc m"] progress_later[of k "Suc m"] m(1)
    by (meson le_Suc_eq)
qed

lemma running_finishes:
  assumes "wp_at (\<sigma> k) i (Running j)"
  obtains m where "k \<le> m" "wp_at (\<sigma> (Suc m)) i Checking" "j \<in> set (wp_finished (\<sigma> (Suc m)))"
proof -
  obtain m where "k \<le> m" "wp_at (\<sigma> m) i (Running j)" "wp_act (Worker i) (\<sigma> m) (\<sigma> (Suc m))"
    using worker_eventually[OF assms] by blast
  then show thesis
    by (intro that[of m]) (auto elim!: wp_act_workerE simp: wp_run_def wp_set_def)
qed

lemma asleep_progress:
  assumes "wp_jobs (\<sigma> k) \<noteq> []" and "\<And>m. k \<le> m \<Longrightarrow> set (wp_workers (\<sigma> m)) \<subseteq> {Blocked}"
  shows "progress k"
proof (rule ccontr)
  assume stuck: "\<not> progress k"
  have asleep: "wp_at (\<sigma> m) 0 Blocked" if "k \<le> m" for m
    using assms(2)[OF that] some_worker[of m] by (metis length_greater_0_conv nth_mem singletonD subsetD)
  have "0 < wp_pending (\<sigma> m)" if "k \<le> m" for m
  proof -
    have "total (\<lambda>w. if w = Entering then 1 else 0 :: nat) (\<sigma> m) = 0"
      using assms(2)[OF that] by (auto simp: total_def)
    moreover have "Blocked \<in> set (wp_workers (\<sigma> m))"
      using asleep[OF that] nth_mem by metis
    ultimately have "length (wp_jobs (\<sigma> m)) \<le> wp_pending (\<sigma> m)"
      using inv_at[of m] serving[of m] by (simp add: wp_inv_def wp_awake_def)
    moreover have "0 < length (wp_jobs (\<sigma> m))"
      using waiting[OF stuck assms(1) that] by simp
    ultimately show ?thesis by linarith
  qed
  then have "\<exists>t. wp_act Notifier (\<sigma> m) t" if "k \<le> m" for m
    using that asleep[OF that] no_throw[of m] by (blast intro: wp_act.intros)
  then obtain m where m: "k \<le> m" "wp_act Notifier (\<sigma> m) (\<sigma> (Suc m))"
    using fair by blast
  then have "\<exists>i. wp_at (\<sigma> (Suc m)) i Entering"
    using asleep[OF m(1)] nth_mem[of 0 "wp_workers (\<sigma> m)"]
    by (auto elim!: wp_act_notifierE simp: wp_notified_def wp_set_def)
  then show False
    using assms(2)[of "Suc m"] m(1) nth_mem by fastforce
qed

lemma queue_progress:
  assumes "wp_jobs (\<sigma> k) \<noteq> []"
  shows "progress k"
proof (rule ccontr)
  assume stuck: "\<not> progress k"
  have "w = Blocked" if "k \<le> m" "wp_at (\<sigma> m) i w" for m i w
  proof (rule ccontr)
    assume awake: "w \<noteq> Blocked"
    note later = waiting[OF stuck assms] progress_later[of k] and at = that
    have "w \<noteq> Exited"
      using queue_at(2)[of m] that(2) nth_mem by metis
    with awake consider "w = Checking" | "w = Entering" | j where "w = Running j"
      by (cases w) blast+
    then show False
    proof cases
      case 3
      then obtain l where "m \<le> l" "wp_at (\<sigma> (Suc l)) i Checking"
        using running_finishes at(2) by metis
      then show ?thesis
        using checking_progress[of "Suc l" i] later[of "Suc l"] stuck at(1) by (meson le_trans le_SucI)
    qed (use checking_progress entering_progress later that stuck in blast)+
  qed
  then have "set (wp_workers (\<sigma> m)) \<subseteq> {Blocked}" if "k \<le> m" for m
    using that by (auto simp: in_set_conv_nth)
  then show False
    using asleep_progress[OF assms] stuck by blast
qed

lemma eventually_started: "\<exists>m\<ge>k. \<exists>xs. wp_started (\<sigma> m) = wp_submitted (\<sigma> k) @ xs"
proof -
  have "\<exists>m\<ge>k. p \<le> length (wp_started (\<sigma> m))" if "p \<le> length (wp_submitted (\<sigma> k))" for p
    using that
  proof (induction p)
    case (Suc p)
    then obtain m where m: "k \<le> m" "p \<le> length (wp_started (\<sigma> m))" by auto
    show ?case
    proof (cases "p = length (wp_started (\<sigma> m))")
      case True
      obtain xs where "wp_submitted (\<sigma> m) = wp_submitted (\<sigma> k) @ xs"
        using m(1) by (rule grows)
      then have "wp_jobs (\<sigma> m) \<noteq> []"
        using queue_at(1)[of m] Suc.prems True by (metis Suc_n_not_le_n append_Nil2 length_append le_add1 le_trans)
      then show ?thesis
        using queue_progress[of m] m(1) True by (meson Suc_leI le_trans)
    qed (use m in auto)
  qed auto
  then obtain m where m: "k \<le> m" "length (wp_submitted (\<sigma> k)) \<le> length (wp_started (\<sigma> m))" by blast
  obtain xs where "wp_submitted (\<sigma> m) = wp_submitted (\<sigma> k) @ xs"
    using m(1) by (rule grows)
  then have "\<exists>ys. wp_started (\<sigma> m) = wp_submitted (\<sigma> k) @ ys"
    using queue_at(1)[of m] m(2) by (metis append_eq_append_conv_if append_take_drop_id)
  with m(1) show ?thesis by blast
qed

lemma started_finishes:
  assumes "j \<in> set (wp_started (\<sigma> k))"
  shows "\<exists>m\<ge>k. j \<in> set (wp_finished (\<sigma> m))"
proof (cases "j \<in> set (wp_finished (\<sigma> k))")
  case False
  have "mset (wp_started (\<sigma> k)) = mset (wp_finished (\<sigma> k)) + total running (\<sigma> k)"
    using inv_at[of k] by (simp add: wp_inv_def wp_history_def)
  then have "j \<in># total running (\<sigma> k)"
    using assms False by (metis set_mset_mset union_iff)
  then obtain i where "wp_at (\<sigma> k) i (Running j)"
    using running_member[of j "\<sigma> k"] by blast
  then show ?thesis
    by (rule running_finishes) (blast intro: le_SucI)
qed blast

lemma all_finish: "set js \<subseteq> set (wp_started (\<sigma> k)) \<Longrightarrow> \<exists>m\<ge>k. set js \<subseteq> set (wp_finished (\<sigma> m))"
proof (induction js)
  case (Cons j js)
  obtain a b where ab: "k \<le> a" "set js \<subseteq> set (wp_finished (\<sigma> a))" "k \<le> b" "j \<in> set (wp_finished (\<sigma> b))"
    using Cons started_finishes[of j k] by auto
  have "set (wp_finished (\<sigma> a)) \<subseteq> set (wp_finished (\<sigma> (max a b)))" "set (wp_finished (\<sigma> b)) \<subseteq> set (wp_finished (\<sigma> (max a b)))"
    using steps_grow[OF run_steps[of a "max a b"]] steps_grow[OF run_steps[of b "max a b"]] by simp_all
  then show ?case
    using ab by (intro exI[of _ "max a b"]) auto
qed auto

lemma eventually_executed:
  "\<exists>m\<ge>k. (\<exists>xs. wp_started (\<sigma> m) = wp_submitted (\<sigma> k) @ xs) \<and> set (wp_submitted (\<sigma> k)) \<subseteq> set (wp_finished (\<sigma> m))"
proof -
  obtain a xs where a: "k \<le> a" "wp_started (\<sigma> a) = wp_submitted (\<sigma> k) @ xs"
    using eventually_started by blast
  obtain m where m: "a \<le> m" "set (wp_submitted (\<sigma> k)) \<subseteq> set (wp_finished (\<sigma> m))"
    using all_finish[of "wp_submitted (\<sigma> k)" a] a(2) by auto
  obtain ys where "wp_started (\<sigma> m) = wp_started (\<sigma> a) @ ys"
    using m(1) by (rule grows)
  then show ?thesis
    using a m by (intro exI[of _ m]) auto
qed

end

section \<open>A fair run\<close>

text \<open>One worker executes one job, goes to sleep, and is woken once more in vain.\<close>

definition demo_ops :: "(nat wpool \<Rightarrow> nat wpool) list" where
  "demo_ops = [wp_push 7, wp_check 0, wp_enter 0, wp_run 0 7, wp_check 0, wp_enter 0,
     \<lambda>s. wp_notified (wp_set 0 Entering s), wp_enter 0]"

definition demo_start :: "nat wpool" where
  "demo_start = \<lparr>wp_jobs = [], wp_stop = False, wp_workers = [Checking], wp_pending = 0,
     wp_phase = Serving, wp_crashed = False, wp_submitted = [], wp_started = [], wp_finished = [],
     wp_discarded = []\<rparr>"

definition demo_run :: "nat \<Rightarrow> nat wpool" where
  "demo_run k = foldl (\<lambda>s f. f s) demo_start (take k demo_ops)"

lemmas demo_defs = demo_run_def demo_ops_def demo_start_def wp_push_def wp_check_def wp_enter_def wp_run_def
  wp_notified_def wp_set_def

lemma demo_end: "8 \<le> k \<Longrightarrow> demo_run k = demo_run 8"
  by (simp add: demo_run_def demo_ops_def)

lemma demo_moment: "k < 8 \<Longrightarrow> k \<in> {0, 1, 2, 3, 4, 5, 6, 7}" for k :: nat
  by auto

lemma demo_step: "k < 8 \<Longrightarrow> wp_step (demo_run k) (demo_run (Suc k))"
proof -
  assume "k < 8"
  have "wp_step (demo_run 0) (wp_push 7 (demo_run 0))"
    by (rule wp_step.push) (simp_all add: demo_defs)
  moreover have "wp_step (demo_run 1) (wp_check 0 (demo_run 1))" "wp_step (demo_run 4) (wp_check 0 (demo_run 4))"
    by (rule wp_step.work, rule wp_work.check; simp add: demo_defs)+
  moreover have "wp_step (demo_run 2) (wp_enter 0 (demo_run 2))" "wp_step (demo_run 5) (wp_enter 0 (demo_run 5))"
    "wp_step (demo_run 7) (wp_enter 0 (demo_run 7))"
    by (rule wp_step.work, rule wp_work.enter; simp add: demo_defs)+
  moreover have "wp_step (demo_run 3) (wp_run 0 7 (demo_run 3))"
    by (rule wp_step.work, rule wp_work.run; simp add: demo_defs)
  moreover have "wp_step (demo_run 6) (wp_notified (wp_set 0 Entering (demo_run 6)))"
    by (rule wp_step.notify_one) (simp_all add: demo_defs)
  ultimately show ?thesis
    using demo_moment[OF \<open>k < 8\<close>] by (auto simp: demo_run_def demo_ops_def)
qed

lemma demo_idle: "\<not> wp_act l (demo_run 8) t"
  by (cases l) (auto elim!: wp_act_workerE wp_act_notifierE wp_act_destructorE simp: demo_defs)

interpretation demo: pool_run demo_run 1
proof
  show "wp_step (demo_run k) (demo_run (Suc k)) \<or> demo_run (Suc k) = demo_run k" for k
    using demo_step[of k] demo_end[of k] demo_end[of "Suc k"] by (cases "k < 8") simp_all
  show "\<exists>k\<ge>n. wp_act l (demo_run k) (demo_run (Suc k))" if "\<And>k. n \<le> k \<Longrightarrow> \<exists>t. wp_act l (demo_run k) t" for n l
    using that[of "max n 8"] demo_end[of "max n 8"] demo_idle[of l] by simp
  show "wp_new 1 = Inr (demo_run 0)"
    by (simp add: wp_new_def demo_defs)
  have "\<not> wp_stop (demo_run k) \<and> \<not> wp_crashed (demo_run k)" for k
  proof (cases "k < 8")
    case True
    then show ?thesis
      using demo_moment[OF True] by (auto simp: demo_defs)
  next
    case False
    then show ?thesis
      using demo_end[of k] by (simp add: demo_defs)
  qed
  then show "\<not> wp_stop (demo_run k)" "\<not> wp_crashed (demo_run k)" for k
    by blast+
qed simp

section \<open>Properties\<close>

text \<open>
  C15. Every job is executed. In a run of a pool with at least one worker that is not destroyed and whose
  jobs do not throw, under a fair scheduler and whoever adds jobs, there comes a time at which all
  jobs submitted so far have been started, in the order of their submission, and executed.
\<close>

theorem worker_pool_fair_progress:
  assumes "fair_run wp_step wp_act \<sigma>" and "wp_new n = Inr (\<sigma> 0)" and "0 < n"
    and "\<And>k. \<not> wp_stop (\<sigma> k) \<and> \<not> wp_crashed (\<sigma> k)"
  shows "\<exists>m\<ge>k. (\<exists>xs. wp_started (\<sigma> m) = wp_submitted (\<sigma> k) @ xs) \<and>
    set (wp_submitted (\<sigma> k)) \<subseteq> set (wp_finished (\<sigma> m))"
proof -
  have "pool_run \<sigma> n"
    using assms by (simp add: pool_run_def pool_run_axioms_def pool_fair_def pool_fair_axioms_def)
  then show ?thesis
    by (rule pool_run.eventually_executed)
qed

theorem worker_pool_fair_progress_witness:
  "\<exists>m\<ge>1. set (wp_submitted (demo_run 1)) \<subseteq> set (wp_finished (demo_run m)) \<and> wp_submitted (demo_run 1) = [7]"
proof -
  have "\<exists>m\<ge>1. (\<exists>xs. wp_started (demo_run m) = wp_submitted (demo_run 1) @ xs) \<and>
      set (wp_submitted (demo_run 1)) \<subseteq> set (wp_finished (demo_run m))"
    by (rule worker_pool_fair_progress[OF demo.fair_run_axioms demo.start])
      (simp_all add: demo.serving demo.no_throw)
  moreover have "wp_submitted (demo_run 1) = [7]"
    by (simp add: demo_defs)
  ultimately show ?thesis by auto
qed

section \<open>The persistent worker\<close>

lemma pw_work_enabled:
  assumes "pw_pc s \<noteq> Waiting" and "pw_pc s \<noteq> Left"
  shows "\<exists>t. pw_work s t"
proof (cases "pw_pc s")
  case (Passing xs)
  then show ?thesis by (cases xs) (auto intro: pw_work.run pw_work.again)
qed (use assms in \<open>auto intro: pw_work.lock\<close>)

lemma pw_step_pc:
  assumes "pw_step s t" and "\<not> pw_work s t" and "pw_pc s \<noteq> Waiting"
  shows "pw_pc t = pw_pc s" and "pw_log t = pw_log s"
  using assms by (auto elim!: pw_stepE simp: pw_wake_def pw_addTask_def pw_removeTask_def pw_begin_stop_def
      pw_stop_notify_def)

lemma pw_log_grows: "pw_step s t \<Longrightarrow> count (mset (pw_log s)) e \<le> count (mset (pw_log t)) e"
  by (auto elim!: pw_stepE pw_workE simp: pw_wake_def pw_addTask_def pw_removeTask_def pw_begin_stop_def
      pw_stop_notify_def pw_lock_def pw_run_def pw_again_def)

text \<open>A run that is not stopped, in which a task stays registered from some moment on.\<close>

locale pw_run_with = fair_run pw_step "\<lambda>_ :: unit. pw_work" \<sigma> for \<sigma> :: "nat \<Rightarrow> 'f pworker" +
  fixes n :: nat and task :: "string \<times> 'f"
  assumes pw_start: "\<sigma> 0 = pw_new" and pw_serving: "pw_running (\<sigma> k)"
    and registered: "n \<le> k \<Longrightarrow> task \<in> set (pw_tasks (\<sigma> k))"
begin

lemma pw_inv_at: "pw_inv (\<sigma> k)"
  using pw.inv_reachable[OF pw_start run_steps[of 0 k]] by simp

lemma pw_busy:
  assumes "n \<le> k"
  shows "pw_pc (\<sigma> k) \<noteq> Waiting" and "pw_pc (\<sigma> k) \<noteq> Left"
  using pw_inv_at[of k] pw_serving[of k] registered[OF assms] by (auto simp: pw_inv_def)

abbreviation runs :: "nat \<Rightarrow> nat" where
  "runs k \<equiv> count (mset (pw_log (\<sigma> k))) task"

lemma runs_mono: "k \<le> m \<Longrightarrow> runs k \<le> runs m"
proof (induction m rule: dec_induct)
  case (step m)
  then show ?case
    using run[of m] pw_log_grows[of "\<sigma> m" "\<sigma> (Suc m)" task] by auto
qed simp

text \<open>The thread eventually takes its next step.\<close>

lemma pw_eventually:
  assumes "n \<le> k"
  shows "\<exists>m\<ge>k. pw_pc (\<sigma> m) = pw_pc (\<sigma> k) \<and> pw_work (\<sigma> m) (\<sigma> (Suc m))"
proof (rule ensures[where P = "\<lambda>s. pw_pc s = pw_pc (\<sigma> k)"])
  show "\<exists>t. pw_work (\<sigma> m) t" if "k \<le> m" for m
    using pw_work_enabled pw_busy[of m] assms that by simp
  show "pw_pc (\<sigma> (Suc m)) = pw_pc (\<sigma> k)"
    if "k \<le> m" "pw_pc (\<sigma> m) = pw_pc (\<sigma> k)" "pw_step (\<sigma> m) (\<sigma> (Suc m))" "\<not> pw_work (\<sigma> m) (\<sigma> (Suc m))" for m
    using pw_step_pc(1)[OF that(3,4)] pw_busy(1)[of m] assms that(1,2) by simp
qed simp

text \<open>A pass that still has the task ahead runs it.\<close>

lemma pass_runs:
  "n \<le> k \<Longrightarrow> pw_pc (\<sigma> k) = Passing xs \<Longrightarrow> task \<in> set xs \<Longrightarrow> \<exists>m\<ge>k. runs k < runs m"
proof (induction xs arbitrary: k)
  case (Cons x xs)
  obtain m where m: "k \<le> m" "pw_pc (\<sigma> m) = Passing (x # xs)" "pw_work (\<sigma> m) (\<sigma> (Suc m))"
    using pw_eventually[OF Cons.prems(1)] Cons.prems(2) by auto
  then have next_state: "pw_pc (\<sigma> (Suc m)) = Passing xs" "pw_log (\<sigma> (Suc m)) = pw_log (\<sigma> m) @ [x]"
    by (auto elim!: pw_workE simp: pw_run_def)
  show ?case
  proof (cases "x = task")
    case True
    then have "runs k < runs (Suc m)"
      using next_state(2) runs_mono[OF m(1)] by simp
    then show ?thesis using m(1) by (meson le_SucI)
  next
    case False
    then obtain l where "Suc m \<le> l" "runs (Suc m) < runs l"
      using Cons.IH[of "Suc m"] Cons.prems(1,3) m(1) next_state(1) by fastforce
    then show ?thesis
      using runs_mono[of k "Suc m"] m(1) by (meson le_SucI le_less_trans le_trans)
  qed
qed simp

text \<open>Every pass ends, and the next one takes the task along.\<close>

lemma reaches_locking:
  assumes "n \<le> k"
  shows "\<exists>m\<ge>k. pw_pc (\<sigma> m) = Locking"
proof (cases "pw_pc (\<sigma> k)")
  case (Passing xs)
  then show ?thesis
    using assms
  proof (induction xs arbitrary: k)
    case Nil
    obtain m where "k \<le> m" "pw_pc (\<sigma> m) = Passing []" "pw_work (\<sigma> m) (\<sigma> (Suc m))"
      using pw_eventually[OF Nil.prems(2)] Nil.prems(1) by auto
    then show ?case
      using pw_serving[of m] by (intro exI[of _ "Suc m"]) (auto elim!: pw_workE simp: pw_again_def)
  next
    case (Cons x xs)
    obtain m where m: "k \<le> m" "pw_pc (\<sigma> m) = Passing (x # xs)" "pw_work (\<sigma> m) (\<sigma> (Suc m))"
      using pw_eventually[OF Cons.prems(2)] Cons.prems(1) by auto
    then have "pw_pc (\<sigma> (Suc m)) = Passing xs"
      by (auto elim!: pw_workE simp: pw_run_def)
    then show ?case
      using Cons.IH[of "Suc m"] Cons.prems(2) m(1) by (meson le_SucI le_trans)
  qed
qed (use pw_busy[OF assms] in auto)

lemma runs_again:
  assumes "n \<le> k"
  shows "\<exists>m\<ge>k. runs k < runs m"
proof -
  obtain a where a: "k \<le> a" "pw_pc (\<sigma> a) = Locking"
    using reaches_locking[OF assms] by blast
  then obtain m where m: "a \<le> m" "pw_pc (\<sigma> m) = Locking" "pw_work (\<sigma> m) (\<sigma> (Suc m))"
    using pw_eventually[of a] assms by auto
  have task: "task \<in> set (pw_tasks (\<sigma> m))"
    using registered[of m] assms a(1) m(1) by simp
  obtain copy where "\<sigma> (Suc m) = pw_lock copy (\<sigma> m)" "mset copy = mset (pw_tasks (\<sigma> m))"
    using m(2,3) by (auto elim: pw_workE)
  then have "pw_pc (\<sigma> (Suc m)) = Passing copy" "task \<in> set copy"
    using task pw_serving[of m] by (auto simp: pw_lock_def dest: mset_eq_setD)
  then obtain l where "Suc m \<le> l" "runs (Suc m) < runs l"
    using pass_runs[of "Suc m" copy] assms a(1) m(1) by auto
  then show ?thesis
    using runs_mono[of k "Suc m"] a(1) m(1) by (meson le_SucI le_less_trans le_trans)
qed

lemma runs_unbounded: "\<exists>m. N \<le> runs m"
proof (induction N)
  case (Suc N)
  then obtain m where "N \<le> runs m" by blast
  then have "N \<le> runs (max n m)"
    using runs_mono[of m "max n m"] by simp
  then show ?case
    using runs_again[of "max n m"] by (meson Suc_leI le_less_trans max.cobounded1)
qed simp

end

text \<open>A run: a task is added, and then the thread does all the steps.\<close>

definition tick_task :: "string \<times> nat" where
  "tick_task = (''tick'', 1)"

definition tick_next :: "nat pworker \<Rightarrow> nat pworker" where
  "tick_next s =
     (if pw_tasks s = [] then pw_addTask (fst tick_task) (snd tick_task) s
      else case pw_pc s of
        Passing (x # xs) \<Rightarrow> pw_run x xs s
      | Passing [] \<Rightarrow> pw_again s
      | _ \<Rightarrow> pw_lock (pw_tasks s) s)"

primrec tick_run :: "nat \<Rightarrow> nat pworker" where
  "tick_run 0 = pw_new"
| "tick_run (Suc k) = tick_next (tick_run k)"

definition tick_inv :: "nat pworker \<Rightarrow> bool" where
  "tick_inv s \<longleftrightarrow> pw_tasks s = [tick_task] \<and> pw_running s \<and> pw_pc s \<in> {Locking, Passing [tick_task], Passing []}"

lemma tick_inv_next:
  assumes "tick_inv s"
  shows "tick_inv (tick_next s) \<and> pw_work s (tick_next s)"
proof -
  have s: "pw_tasks s = [tick_task]" "pw_running s"
    using assms by (simp_all add: tick_inv_def)
  consider "pw_pc s = Locking" | "pw_pc s = Passing [tick_task]" | "pw_pc s = Passing []"
    using assms by (auto simp: tick_inv_def)
  then show ?thesis
  proof cases
    case 1
    then have "tick_next s = pw_lock (pw_tasks s) s"
      using s by (simp add: tick_next_def)
    then show ?thesis
      using 1 s pw_work.lock[of s "pw_tasks s"] by (simp add: tick_inv_def pw_lock_def)
  next
    case 2
    then have "tick_next s = pw_run tick_task [] s"
      using s by (simp add: tick_next_def)
    then show ?thesis
      using 2 s pw_work.run[of s tick_task "[]"] by (simp add: tick_inv_def pw_run_def)
  next
    case 3
    then have "tick_next s = pw_again s"
      using s by (simp add: tick_next_def)
    then show ?thesis
      using 3 s pw_work.again[of s] by (simp add: tick_inv_def pw_again_def)
  qed
qed

lemma tick_inv_at: "tick_inv (tick_run (Suc k))"
proof (induction k)
  case 0
  show ?case by (simp add: tick_inv_def tick_next_def pw_new_def pw_addTask_def pw_wake_def tick_task_def)
qed (use tick_inv_next in simp)

lemma tick_step:
  "pw_step (tick_run k) (tick_run (Suc k))" "0 < k \<Longrightarrow> pw_work (tick_run k) (tick_run (Suc k))"
proof -
  show work: "pw_work (tick_run k) (tick_run (Suc k))" if "0 < k"
    using tick_inv_next[OF tick_inv_at[of "k - 1"]] that by simp
  show "pw_step (tick_run k) (tick_run (Suc k))"
  proof (cases k)
    case 0
    then show ?thesis
      using pw_step.add[of pw_new "fst tick_task" "snd tick_task"] by (simp add: tick_next_def pw_new_def)
  qed (use work in \<open>auto intro: pw_step.work\<close>)
qed

interpretation ticking: pw_run_with tick_run 1 tick_task
proof
  show "pw_step (tick_run k) (tick_run (Suc k)) \<or> tick_run (Suc k) = tick_run k" for k
    using tick_step(1) by blast
  show "\<exists>k\<ge>n. pw_work (tick_run k) (tick_run (Suc k))" for n
    using tick_step(2)[of "Suc n"] by (intro exI[of _ "Suc n"]) simp
  show "pw_running (tick_run k)" for k
    using tick_inv_at[of "k - 1"] by (cases k) (simp_all add: tick_inv_def pw_new_def)
  show "tick_task \<in> set (pw_tasks (tick_run k))" if "1 \<le> k" for k
    using tick_inv_at[of "k - 1"] that by (simp add: tick_inv_def)
qed simp

text \<open>
  C26. A registered task is run again and again. In a run of a persistent worker that is not destroyed,
  under a fair scheduler, a task that stays registered from some moment on is run infinitely often,
  whatever other tasks are added and removed and whatever they throw.
\<close>

theorem persistent_worker_fair:
  assumes "fair_run pw_step (\<lambda>_ :: unit. pw_work) \<sigma>" and "\<sigma> 0 = pw_new" and "\<And>k. pw_running (\<sigma> k)"
    and "\<And>k. n \<le> k \<Longrightarrow> (name, f) \<in> set (pw_tasks (\<sigma> k))"
  shows "\<exists>m. N \<le> count (mset (pw_log (\<sigma> m))) (name, f)"
proof -
  have "pw_run_with \<sigma> n (name, f)"
    using assms by (simp add: pw_run_with_def pw_run_with_axioms_def)
  then show ?thesis
    by (rule pw_run_with.runs_unbounded)
qed

theorem persistent_worker_fair_witness: "\<exists>m. 100 \<le> count (mset (pw_log (tick_run m))) (''tick'', 1)"
  by (rule persistent_worker_fair[OF ticking.fair_run_axioms ticking.pw_start ticking.pw_serving, of 1])
    (use ticking.registered in \<open>simp add: tick_task_def\<close>)

end
