(* ===== verification/Shutdown.thy ===== *)
theory Shutdown
  imports Liveness
begin

text \<open>
  Destroying a worker pool and a persistent worker under a fair scheduler
  (\<^verbatim>\<open>~WorkerPool\<close>, \<^verbatim>\<open>~PersistentWorker\<close>): the destructor returns. The theory \<open>Worker_Pool\<close> shows that it can
  return and that the workers only make a bounded number of steps; here it is shown to return in every
  fair run, whatever the other threads do in the meantime.
\<close>

section \<open>The pool\<close>

lemma stopped_step:
  assumes "wp_step s t" and "wp_stop s"
  shows "wp_stop t" and "wp_started t = wp_started s"
  using assms by (auto elim!: wp_stepE wp_workE simp: wp_check_def wp_enter_def wp_run_def wp_push_def
      wp_notified_def wp_begin_stop_def wp_notify_all_def wp_joined_def)

lemma phase_step:
  assumes "wp_step s t"
  shows "wp_phase s = Stopping \<Longrightarrow> wp_phase t = Stopping \<or> wp_act Destructor s t"
    and "wp_phase s = Joining \<Longrightarrow> wp_phase t = Joining \<or> wp_act Destructor s t"
    and "wp_phase s = Destroyed \<Longrightarrow> wp_jobs s = [] \<Longrightarrow> wp_phase t = Destroyed \<and> wp_jobs t = []"
  using assms by (auto elim!: wp_stepE wp_workE intro: wp_act.intros simp: wp_check_def wp_enter_def wp_run_def
      wp_push_def wp_notified_def wp_begin_stop_def)

text \<open>Nobody sleeps any more, so no step but the workers' own ones changes the workers.\<close>

lemma joining_weight:
  assumes "wp_inv s" and "wp_step s t" and "wp_phase s = Joining"
  shows "total weight t \<le> total weight s"
proof -
  have awake: "wp_workers s ! i \<noteq> Blocked" if "i < length (wp_workers s)" for i
    using assms(1,3) nth_mem[OF that] by (auto simp: wp_inv_def wp_awake_def)
  have stop: "wp_stop s"
    using assms(1,3) by (simp add: wp_inv_def wp_awake_def)
  show ?thesis
    using assms(2)
  proof (cases rule: wp_step.cases)
    case work
    then show ?thesis using work_stopped(1)[OF _ stop] by (simp add: less_imp_le)
  qed (use awake assms(3) in \<open>auto simp: wp_push_def wp_notified_def wp_begin_stop_def wp_joined_def\<close>)
qed

lemma exited_step:
  assumes "wp_step s t" and "set (wp_workers s) \<subseteq> {Exited}" and "wp_phase s = Joining"
  shows "set (wp_workers t) \<subseteq> {Exited}"
proof -
  have at: "wp_workers s ! i = Exited" if "i < length (wp_workers s)" for i
    using nth_mem[OF that] assms(2) by auto
  show ?thesis
    using assms(1)
    by (cases rule: wp_step.cases)
      (use assms(2,3) at in \<open>auto elim!: wp_workE simp: wp_push_def wp_notified_def wp_joined_def\<close>)
qed

context pool_fair
begin

lemma stopped_from:
  assumes "wp_stop (\<sigma> k)" and "k \<le> m"
  shows "wp_stop (\<sigma> m) \<and> wp_started (\<sigma> m) = wp_started (\<sigma> k)"
  using assms(2)
proof (induction m rule: dec_induct)
  case (step m)
  then show ?case
    using run[of m] stopped_step[of "\<sigma> m" "\<sigma> (Suc m)"] by auto
qed (simp add: assms(1))

lemma joining_until:
  assumes "wp_phase (\<sigma> k) = Joining" and "k \<le> m"
  shows "wp_phase (\<sigma> m) = Joining \<and> total weight (\<sigma> m) \<le> total weight (\<sigma> k) \<or>
    wp_phase (\<sigma> m) = Destroyed \<and> wp_jobs (\<sigma> m) = []"
  using assms(2)
proof (induction m rule: dec_induct)
  case (step m)
  consider "\<sigma> (Suc m) = \<sigma> m" | "wp_step (\<sigma> m) (\<sigma> (Suc m))"
    using run by blast
  then show ?case
  proof cases
    case 2
    then show ?thesis
      using step.IH phase_step(2,3)[OF 2] joining_weight[OF inv_at 2]
      by (auto elim!: wp_act_destructorE simp: wp_joined_def)
  qed (use step.IH in simp)
qed (simp add: assms(1))

lemma all_left_destroyed:
  assumes "wp_phase (\<sigma> k) = Joining" and "set (wp_workers (\<sigma> k)) \<subseteq> {Exited}"
  shows "\<exists>m\<ge>k. wp_phase (\<sigma> m) = Destroyed \<and> wp_jobs (\<sigma> m) = []"
proof -
  let ?P = "\<lambda>s. wp_phase s = Joining \<and> set (wp_workers s) \<subseteq> {Exited}"
  have "\<exists>m\<ge>k. ?P (\<sigma> m) \<and> wp_act Destructor (\<sigma> m) (\<sigma> (Suc m))"
  proof (rule ensures[where P = ?P])
    show "\<exists>t. wp_act Destructor (\<sigma> m) t" if "?P (\<sigma> m)" for m
      using that no_throw[of m] by (blast intro: wp_act.intros)
    show "?P (\<sigma> (Suc m))"
      if "?P (\<sigma> m)" "wp_step (\<sigma> m) (\<sigma> (Suc m))" "\<not> wp_act Destructor (\<sigma> m) (\<sigma> (Suc m))" for m
      using that phase_step(2)[OF that(2)] exited_step[OF that(2)] by blast
  qed (use assms in blast)
  then obtain m where "k \<le> m" "wp_phase (\<sigma> (Suc m)) = Destroyed \<and> wp_jobs (\<sigma> (Suc m)) = []"
    by (auto elim!: wp_act_destructorE simp: wp_joined_def)
  then show ?thesis by (meson le_SucI)
qed

lemma join_ends: "wp_phase (\<sigma> k) = Joining \<Longrightarrow> \<exists>m\<ge>k. wp_phase (\<sigma> m) = Destroyed \<and> wp_jobs (\<sigma> m) = []"
proof (induction "total weight (\<sigma> k)" arbitrary: k rule: less_induct)
  case less
  show ?case
  proof (cases "set (wp_workers (\<sigma> k)) \<subseteq> {Exited}")
    case False
    then obtain i w where i: "wp_at (\<sigma> k) i w" "w \<noteq> Exited"
      using some_other_worker by metis
    have "Blocked \<notin> set (wp_workers (\<sigma> k))"
      using inv_at[of k] less.prems by (simp add: wp_inv_def wp_awake_def)
    then have "w \<noteq> Blocked"
      using i(1) nth_mem by metis
    with i obtain m where m: "k \<le> m" "wp_act (Worker i) (\<sigma> m) (\<sigma> (Suc m))"
      using worker_eventually by metis
    then have work: "wp_work (\<sigma> m) (\<sigma> (Suc m))"
      by (auto elim!: wp_act_workerE intro: wp_work.intros)
    consider "wp_phase (\<sigma> m) = Destroyed \<and> wp_jobs (\<sigma> m) = []" | "wp_phase (\<sigma> m) = Joining" "total weight (\<sigma> m) \<le> total weight (\<sigma> k)"
      using joining_until[OF less.prems m(1)] by blast
    then show ?thesis
    proof cases
      case 2
      have "wp_stop (\<sigma> m)"
        using inv_at[of m] 2(1) by (simp add: wp_inv_def wp_awake_def)
      note props = work_stopped[OF work this]
      obtain l where "Suc m \<le> l" "wp_phase (\<sigma> l) = Destroyed \<and> wp_jobs (\<sigma> l) = []"
        using less.hyps[of "Suc m"] props(1,5) 2 by auto
      then show ?thesis
        using m(1) by (meson le_SucI le_trans Suc_leD)
    qed (use m(1) in blast)
  qed (use all_left_destroyed less.prems in blast)
qed

lemma stop_ends:
  assumes "wp_phase (\<sigma> k) = Stopping"
  shows "\<exists>m\<ge>k. wp_phase (\<sigma> m) = Destroyed \<and> wp_jobs (\<sigma> m) = []"
proof -
  have "\<exists>m\<ge>k. wp_phase (\<sigma> m) = Stopping \<and> wp_act Destructor (\<sigma> m) (\<sigma> (Suc m))"
  proof (rule ensures[where P = "\<lambda>s. wp_phase s = Stopping"])
    show "\<exists>t. wp_act Destructor (\<sigma> m) t" if "wp_phase (\<sigma> m) = Stopping" for m
      using that no_throw[of m] by (blast intro: wp_act.intros)
  qed (use phase_step(1) assms in blast)+
  then obtain m where m: "k \<le> m" "wp_phase (\<sigma> (Suc m)) = Joining"
    by (auto elim!: wp_act_destructorE simp: wp_notify_all_def)
  then obtain l where "Suc m \<le> l" "wp_phase (\<sigma> l) = Destroyed \<and> wp_jobs (\<sigma> l) = []"
    using join_ends[of "Suc m"] by blast
  then show ?thesis
    using m(1) by (meson le_SucI le_trans Suc_leD)
qed

lemma destroyed_at:
  assumes "wp_phase (\<sigma> m) = Destroyed"
  shows "wp_submitted (\<sigma> m) = wp_started (\<sigma> m) @ wp_jobs (\<sigma> m) @ wp_discarded (\<sigma> m)"
    and "mset (wp_finished (\<sigma> m)) = mset (wp_started (\<sigma> m))"
proof -
  have left: "set (wp_workers (\<sigma> m)) \<subseteq> {Exited}"
    using inv_at[of m] assms by (simp add: wp_inv_def wp_awake_def)
  have "sum_list (map running ws) = {#}" if "set ws \<subseteq> {Exited}" for ws :: "'j wstate list"
    using that by (induction ws) auto
  then have "total running (\<sigma> m) = {#}"
    using left by (simp add: total_def)
  then show "wp_submitted (\<sigma> m) = wp_started (\<sigma> m) @ wp_jobs (\<sigma> m) @ wp_discarded (\<sigma> m)"
    "mset (wp_finished (\<sigma> m)) = mset (wp_started (\<sigma> m))"
    using inv_at[of m] by (simp_all add: wp_inv_def wp_history_def)
qed

end

text \<open>A run: a job is added, the destructor is called before it is taken, the worker leaves.\<close>

definition stop_ops :: "(nat wpool \<Rightarrow> nat wpool) list" where
  "stop_ops = [wp_push 7, wp_notified, wp_check 0, wp_begin_stop, wp_notify_all, wp_enter 0, wp_joined]"

definition stop_run :: "nat \<Rightarrow> nat wpool" where
  "stop_run k = foldl (\<lambda>s f. f s) demo_start (take k stop_ops)"

lemmas stop_defs = stop_run_def stop_ops_def demo_start_def wp_push_def wp_check_def wp_enter_def wp_notified_def
  wp_begin_stop_def wp_notify_all_def wp_joined_def wp_set_def

lemma stop_end: "7 \<le> k \<Longrightarrow> stop_run k = stop_run 7"
  by (simp add: stop_run_def stop_ops_def)

lemma stop_moment: "k < 7 \<Longrightarrow> k \<in> {0, 1, 2, 3, 4, 5, 6}" for k :: nat
  by auto

lemma stop_step: "k < 7 \<Longrightarrow> wp_step (stop_run k) (stop_run (Suc k))"
proof -
  assume "k < 7"
  have "wp_step (stop_run 0) (wp_push 7 (stop_run 0))"
    by (rule wp_step.push) (simp_all add: stop_defs)
  moreover have "wp_step (stop_run 1) (wp_notified (stop_run 1))"
    by (rule wp_step.notify_none) (simp_all add: stop_defs)
  moreover have "wp_step (stop_run 2) (wp_check 0 (stop_run 2))"
    by (rule wp_step.work, rule wp_work.check; simp add: stop_defs)
  moreover have "wp_step (stop_run 3) (wp_begin_stop (stop_run 3))"
    by (rule wp_step.begin_stop) (simp_all add: stop_defs)
  moreover have "wp_step (stop_run 4) (wp_notify_all (stop_run 4))"
    by (rule wp_step.notify_all) (simp_all add: stop_defs)
  moreover have "wp_step (stop_run 5) (wp_enter 0 (stop_run 5))"
    by (rule wp_step.work, rule wp_work.enter; simp add: stop_defs)
  moreover have "wp_step (stop_run 6) (wp_joined (stop_run 6))"
    by (rule wp_step.joined) (simp_all add: stop_defs)
  ultimately show ?thesis
    using stop_moment[OF \<open>k < 7\<close>] by (auto simp: stop_run_def stop_ops_def)
qed

lemma stop_idle: "\<not> wp_act l (stop_run 7) t"
  by (cases l) (auto elim!: wp_act_workerE wp_act_notifierE wp_act_destructorE simp: stop_defs)

interpretation stopping: pool_fair stop_run 1
proof
  show "wp_step (stop_run k) (stop_run (Suc k)) \<or> stop_run (Suc k) = stop_run k" for k
    using stop_step[of k] stop_end[of k] stop_end[of "Suc k"] by (cases "k < 7") simp_all
  show "\<exists>k\<ge>n. wp_act l (stop_run k) (stop_run (Suc k))" if "\<And>k. n \<le> k \<Longrightarrow> \<exists>t. wp_act l (stop_run k) t" for n l
    using that[of "max n 7"] stop_end[of "max n 7"] stop_idle[of l] by simp
  show "wp_new 1 = Inr (stop_run 0)"
    by (simp add: wp_new_def stop_defs)
  show "\<not> wp_crashed (stop_run k)" for k
  proof (cases "k < 7")
    case True
    then show ?thesis
      using stop_moment[OF True] by (auto simp: stop_defs)
  next
    case False
    then show ?thesis
      using stop_end[of k] by (simp add: stop_defs)
  qed
qed

text \<open>
  C8. Destroying a pool ends. In a fair run of a pool whose jobs do not throw, when its destructor has
  been called, there comes a time at which it is over. From the call on no job is started; every job that was
  started has then been executed, once; all others have been discarded, in the order of their submission.
\<close>

theorem worker_pool_fair_shutdown:
  assumes "fair_run wp_step wp_act \<sigma>" and "wp_new n = Inr (\<sigma> 0)" and "\<And>k. \<not> wp_crashed (\<sigma> k)"
    and "wp_phase (\<sigma> k) \<in> {Stopping, Joining}"
  shows "\<exists>m\<ge>k. wp_phase (\<sigma> m) = Destroyed \<and> wp_started (\<sigma> m) = wp_started (\<sigma> k) \<and>
    mset (wp_finished (\<sigma> m)) = mset (wp_started (\<sigma> k)) \<and>
    wp_submitted (\<sigma> m) = wp_started (\<sigma> k) @ wp_discarded (\<sigma> m)"
proof -
  have fair: "pool_fair \<sigma> n"
    using assms(1-3) by (simp add: pool_fair_def pool_fair_axioms_def)
  obtain m where m: "k \<le> m" "wp_phase (\<sigma> m) = Destroyed" "wp_jobs (\<sigma> m) = []"
    using pool_fair.stop_ends[OF fair] pool_fair.join_ends[OF fair] assms(4) by blast
  have "wp_stop (\<sigma> k)"
    using pool_fair.inv_at[OF fair, of k] assms(4) by (auto simp: wp_inv_def wp_awake_def)
  then have "wp_started (\<sigma> m) = wp_started (\<sigma> k)"
    using pool_fair.stopped_from[OF fair _ m(1)] by blast
  then show ?thesis
    using m pool_fair.destroyed_at[OF fair m(2)] by (intro exI[of _ m]) simp
qed

theorem worker_pool_fair_shutdown_witness:
  "\<exists>m\<ge>4. wp_phase (stop_run m) = Destroyed \<and> wp_started (stop_run m) = [] \<and> wp_discarded (stop_run m) = [7]"
proof -
  have "wp_phase (stop_run 4) \<in> {Stopping, Joining}" "wp_started (stop_run 4) = []" "wp_submitted (stop_run 4) = [7]"
    by (simp_all add: stop_defs)
  then obtain m where m: "4 \<le> m" "wp_phase (stop_run m) = Destroyed" "wp_started (stop_run m) = []"
      "wp_submitted (stop_run m) = wp_discarded (stop_run m)"
    using worker_pool_fair_shutdown[OF stopping.fair_run_axioms stopping.start stopping.no_throw, of 4] by auto
  moreover have "wp_submitted (stop_run m) = [7]"
  proof (cases "m < 7")
    case True
    then show ?thesis
      using stop_moment[OF True] m(1) by (auto simp: stop_defs)
  next
    case False
    then show ?thesis
      using stop_end[of m] by (simp add: stop_defs)
  qed
  ultimately show ?thesis by metis
qed

section \<open>The persistent worker\<close>

datatype pw_actor = Looper | Destroyer

inductive pw_act :: "pw_actor \<Rightarrow> 'f pworker \<Rightarrow> 'f pworker \<Rightarrow> bool" where
  "pw_work s t \<Longrightarrow> pw_act Looper s t"
| "pw_notify s \<Longrightarrow> pw_act Destroyer s (pw_stop_notify s)"
| "\<not> pw_running s \<Longrightarrow> \<not> pw_notify s \<Longrightarrow> pw_pc s = Left \<Longrightarrow> pw_act Destroyer s (s\<lparr>pw_joined := True\<rparr>)"

inductive_cases pw_act_looperE: "pw_act Looper s t"
inductive_cases pw_act_destroyerE: "pw_act Destroyer s t"

text \<open>The tasks that the current pass still has to run.\<close>

fun pw_rest :: "'f pw_pc \<Rightarrow> (string \<times> 'f) list" where
  "pw_rest (Passing xs) = xs"
| "pw_rest _ = []"

text \<open>After the flag was cleared nothing is added to what is run.\<close>

lemma pw_stopped_step:
  assumes "pw_step s t" and "\<not> pw_running s"
  shows "\<not> pw_running t" and "pw_log t @ pw_rest (pw_pc t) = pw_log s @ pw_rest (pw_pc s)"
    and "\<not> pw_notify s \<Longrightarrow> \<not> pw_notify t" and "pw_joined s \<Longrightarrow> pw_joined t"
    and "pw_notify s \<Longrightarrow> pw_notify t \<or> pw_act Destroyer s t"
  using assms by (auto elim!: pw_stepE pw_workE intro: pw_act.intros simp: pw_wake_def pw_stop_notify_def pw_lock_def
      pw_run_def pw_again_def split: if_splits)

text \<open>Once it was also notified, only the thread's own steps and the join are left.\<close>

lemma pw_notified_step:
  assumes "pw_step s t" and "\<not> pw_running s" and "\<not> pw_notify s" and "pw_pc s \<noteq> Waiting"
  shows "pw_pc t = pw_pc s \<or> pw_act Looper s t" and "pw_joined t = pw_joined s \<or> pw_act Destroyer s t"
  using assms by (auto elim!: pw_stepE pw_workE intro: pw_act.intros pw_work.intros simp: pw_lock_def
      pw_run_def pw_again_def)

locale pw_fair = fair_run pw_step pw_act \<sigma> for \<sigma> :: "nat \<Rightarrow> 'f pworker" +
  assumes pw_begin: "\<sigma> 0 = pw_new"
begin

lemma pw_inv_at: "pw_inv (\<sigma> k)"
  using pw.inv_reachable[OF pw_begin run_steps[of 0 k]] by simp

lemma pw_stopped_from:
  assumes "\<not> pw_running (\<sigma> k)" and "k \<le> m"
  shows "\<not> pw_running (\<sigma> m) \<and> pw_log (\<sigma> m) @ pw_rest (pw_pc (\<sigma> m)) = pw_log (\<sigma> k) @ pw_rest (pw_pc (\<sigma> k)) \<and>
    (\<not> pw_notify (\<sigma> k) \<longrightarrow> \<not> pw_notify (\<sigma> m))"
  using assms(2)
proof (induction m rule: dec_induct)
  case (step m)
  then show ?case
    using run[of m] pw_stopped_step[of "\<sigma> m" "\<sigma> (Suc m)"] by (metis (no_types, lifting))
qed (simp add: assms(1))

lemma pw_notified_eventually:
  assumes "\<not> pw_running (\<sigma> k)"
  shows "\<exists>m\<ge>k. \<not> pw_notify (\<sigma> m)"
proof (cases "pw_notify (\<sigma> k)")
  case True
  have "\<exists>m\<ge>k. (pw_notify (\<sigma> m) \<and> \<not> pw_running (\<sigma> m)) \<and> pw_act Destroyer (\<sigma> m) (\<sigma> (Suc m))"
  proof (rule ensures[where P = "\<lambda>s. pw_notify s \<and> \<not> pw_running s"])
    show "\<exists>t. pw_act Destroyer (\<sigma> m) t" if "pw_notify (\<sigma> m) \<and> \<not> pw_running (\<sigma> m)" for m
      using that by (blast intro: pw_act.intros)
  qed (use True assms pw_stopped_step(1,5) in blast)+
  then obtain m where "k \<le> m" "\<not> pw_notify (\<sigma> (Suc m))"
    by (auto elim!: pw_act_destroyerE simp: pw_stop_notify_def pw_wake_def)
  then show ?thesis by (meson le_SucI)
qed blast

lemma pw_leaves:
  "\<not> pw_running (\<sigma> k) \<Longrightarrow> \<not> pw_notify (\<sigma> k) \<Longrightarrow> \<exists>m\<ge>k. pw_pc (\<sigma> m) = Left"
proof (induction "pw_weight (pw_pc (\<sigma> k))" arbitrary: k rule: less_induct)
  case less
  let ?P = "\<lambda>s. \<not> pw_running s \<and> \<not> pw_notify s \<and> pw_pc s = pw_pc (\<sigma> k)"
  have awake: "pw_pc (\<sigma> k) \<noteq> Waiting"
    using pw_inv_at[of k] less.prems by (auto simp: pw_inv_def)
  show ?case
  proof (cases "pw_pc (\<sigma> k) = Left")
    case False
    have "\<exists>m\<ge>k. ?P (\<sigma> m) \<and> pw_act Looper (\<sigma> m) (\<sigma> (Suc m))"
    proof (rule ensures[where P = ?P])
      show "\<exists>t. pw_act Looper (\<sigma> m) t" if "?P (\<sigma> m)" for m
        using pw_work_enabled[of "\<sigma> m"] that awake False by (auto intro: pw_act.intros)
      show "?P (\<sigma> (Suc m))"
        if "?P (\<sigma> m)" "pw_step (\<sigma> m) (\<sigma> (Suc m))" "\<not> pw_act Looper (\<sigma> m) (\<sigma> (Suc m))" for m
        using that pw_stopped_step(1,3)[OF that(2)] pw_notified_step(1)[OF that(2)] awake by simp
    qed (use less.prems in simp)
    then obtain m where m: "k \<le> m" "?P (\<sigma> m)" "pw_work (\<sigma> m) (\<sigma> (Suc m))"
      by (auto elim: pw_act_looperE)
    then obtain l where "Suc m \<le> l" "pw_pc (\<sigma> l) = Left"
      using less.hyps[of "Suc m"] pw_work_stopped[OF m(3)] by auto
    then show ?thesis
      using m(1) by (meson le_SucI le_trans Suc_leD)
  qed blast
qed

lemma pw_joins:
  assumes "\<not> pw_running (\<sigma> k)"
  shows "\<exists>m\<ge>k. pw_joined (\<sigma> m) \<and> pw_log (\<sigma> m) = pw_log (\<sigma> k) @ pw_rest (pw_pc (\<sigma> k))"
proof -
  let ?P = "\<lambda>s. \<not> pw_running s \<and> \<not> pw_notify s \<and> pw_pc s = Left"
  obtain a where a: "k \<le> a" "\<not> pw_notify (\<sigma> a)" "\<not> pw_running (\<sigma> a)"
    using pw_notified_eventually[OF assms] pw_stopped_from[OF assms] by blast
  then obtain b where b: "a \<le> b" "pw_pc (\<sigma> b) = Left"
    using pw_leaves by blast
  have "\<exists>m\<ge>b. ?P (\<sigma> m) \<and> pw_act Destroyer (\<sigma> m) (\<sigma> (Suc m))"
  proof (rule ensures[where P = ?P])
    show "\<exists>t. pw_act Destroyer (\<sigma> m) t" if "?P (\<sigma> m)" for m
      using that by (blast intro: pw_act.intros)
    show "?P (\<sigma> (Suc m))"
      if "?P (\<sigma> m)" "pw_step (\<sigma> m) (\<sigma> (Suc m))" "\<not> pw_act Destroyer (\<sigma> m) (\<sigma> (Suc m))" for m
      using that pw_stopped_step(1,3)[OF that(2)] pw_notified_step(1)[OF that(2)]
      by (auto elim!: pw_act_looperE pw_workE)
  qed (use b pw_stopped_from[OF a(3) b(1)] a(2) in blast)
  then obtain m where m: "b \<le> m" "?P (\<sigma> m)" "pw_joined (\<sigma> (Suc m))" "pw_pc (\<sigma> (Suc m)) = Left"
    by (auto elim!: pw_act_destroyerE)
  then show ?thesis
    using pw_stopped_from[OF assms, of "Suc m"] a(1) b(1) by (intro exI[of _ "Suc m"]) simp
qed

end

text \<open>A run: a task is added and its pass begins; the destructor is called before the task is run.\<close>

definition leave_ops :: "(nat pworker \<Rightarrow> nat pworker) list" where
  "leave_ops = [pw_addTask ''tick'' 1, pw_lock [(''tick'', 1)], pw_begin_stop, pw_run (''tick'', 1) [],
     pw_stop_notify, pw_again, pw_joined_update (\<lambda>_. True)]"

definition leave_run :: "nat \<Rightarrow> nat pworker" where
  "leave_run k = foldl (\<lambda>s f. f s) pw_new (take k leave_ops)"

lemmas leave_defs = leave_run_def leave_ops_def pw_new_def pw_addTask_def pw_wake_def pw_lock_def pw_begin_stop_def
  pw_run_def pw_stop_notify_def pw_again_def

lemma leave_end: "7 \<le> k \<Longrightarrow> leave_run k = leave_run 7"
  by (simp add: leave_run_def leave_ops_def)

lemma leave_step: "k < 7 \<Longrightarrow> pw_step (leave_run k) (leave_run (Suc k))"
proof -
  assume "k < 7"
  have "pw_step (leave_run 0) (pw_addTask ''tick'' 1 (leave_run 0))"
    by (rule pw_step.add) (simp add: leave_defs)
  moreover have "pw_step (leave_run 1) (pw_lock [(''tick'', 1)] (leave_run 1))"
    by (rule pw_step.work, rule pw_work.lock) (simp_all add: leave_defs)
  moreover have "pw_step (leave_run 2) (pw_begin_stop (leave_run 2))"
    by (rule pw_step.begin_stop) (simp add: leave_defs)
  moreover have "pw_step (leave_run 3) (pw_run (''tick'', 1) [] (leave_run 3))"
    by (rule pw_step.work, rule pw_work.run) (simp add: leave_defs)
  moreover have "pw_step (leave_run 4) (pw_stop_notify (leave_run 4))"
    by (rule pw_step.stop_notify) (simp add: leave_defs)
  moreover have "pw_step (leave_run 5) (pw_again (leave_run 5))"
    by (rule pw_step.work, rule pw_work.again) (simp add: leave_defs)
  moreover have "pw_step (leave_run 6) ((leave_run 6)\<lparr>pw_joined := True\<rparr>)"
    by (rule pw_step.join) (simp_all add: leave_defs)
  ultimately show ?thesis
    using stop_moment[OF \<open>k < 7\<close>] by (auto simp: leave_run_def leave_ops_def)
qed

interpretation leaving: pw_fair leave_run
proof
  show "pw_step (leave_run k) (leave_run (Suc k)) \<or> leave_run (Suc k) = leave_run k" for k
    using leave_step[of k] leave_end[of k] leave_end[of "Suc k"] by (cases "k < 7") simp_all
  show "\<exists>k\<ge>n. pw_act l (leave_run k) (leave_run (Suc k))" if "\<And>k. n \<le> k \<Longrightarrow> \<exists>t. pw_act l (leave_run k) t" for n l
  proof (cases l)
    case Looper
    then show ?thesis
      using that[of "max n 7"] leave_end[of "max n 7"] by (auto elim!: pw_act_looperE pw_workE simp: leave_defs)
  next
    case Destroyer
    have "leave_run 7 = (leave_run 7)\<lparr>pw_joined := True\<rparr>"
      by (simp add: leave_defs)
    then have "pw_act Destroyer (leave_run 7) (leave_run 7)"
      using pw_act.intros(3)[of "leave_run 7"] by (simp add: leave_defs)
    then show ?thesis
      using Destroyer leave_end[of "max n 7"] leave_end[of "Suc (max n 7)"] by (intro exI[of _ "max n 7"]) simp
  qed
qed (simp add: leave_run_def)

text \<open>
  C27. Destroying a persistent worker ends. In a fair run, when the destructor has cleared the flag, there comes
  a time at which it has joined the thread. Until then exactly the tasks are run that were left of the pass under way,
  none after it, whatever the tasks throw.
\<close>

theorem persistent_worker_fair_shutdown:
  assumes "fair_run pw_step pw_act \<sigma>" and "\<sigma> 0 = pw_new" and "\<not> pw_running (\<sigma> k)"
  shows "\<exists>m\<ge>k. pw_joined (\<sigma> m) \<and>
    pw_log (\<sigma> m) = pw_log (\<sigma> k) @ (case pw_pc (\<sigma> k) of Passing rest \<Rightarrow> rest | _ \<Rightarrow> [])"
proof -
  have "pw_fair \<sigma>"
    using assms(1,2) by (simp add: pw_fair_def pw_fair_axioms_def)
  moreover have "pw_rest (pw_pc s) = (case pw_pc s of Passing rest \<Rightarrow> rest | _ \<Rightarrow> [])" for s :: "'a pworker"
    by (cases "pw_pc s") simp_all
  ultimately show ?thesis
    using pw_fair.pw_joins[of \<sigma> k] assms(3) by simp
qed

theorem persistent_worker_fair_shutdown_witness:
  "\<exists>m\<ge>3. pw_joined (leave_run m) \<and> pw_log (leave_run m) = [(''tick'', 1)]"
proof -
  have "\<not> pw_running (leave_run 3)"
    by (simp add: leave_defs)
  from persistent_worker_fair_shutdown[OF leaving.fair_run_axioms leaving.pw_begin this] show ?thesis
    by (simp add: leave_defs)
qed

end
