(* ===== verification/IO_Stream.thy ===== *)
theory IO_Stream
  imports Libftpp_Prelude
begin

text \<open>
  \<^verbatim>\<open>src/src/thread/thread_safe_iostream\<close> and \<^verbatim>\<open>src/src/thread/thread\<close>: a console stream with a line
  buffer and a prefix per thread, and the thread wrapper that owns one. What has been written to
  \<^verbatim>\<open>std::cout\<close> is a string; every write of an operation happens under the mutex all streams share, so
  operations append whole blocks to it.
\<close>

section \<open>State and operations\<close>

record io_stream =
  io_buffer :: string
  io_prefix :: string

definition io_new :: io_stream where
  "io_new = \<lparr>io_buffer = [], io_prefix = []\<rparr>"

abbreviation newline :: char where
  "newline \<equiv> CHR 0x0A"

definition io_setPrefix :: "string \<Rightarrow> io_stream \<Rightarrow> io_stream" where
  "io_setPrefix prefix s = s\<lparr>io_prefix := prefix\<rparr>"

definition io_flushBuffer :: "io_stream \<times> string \<Rightarrow> io_stream \<times> string" where
  "io_flushBuffer so =
     (let content = io_buffer (fst so)
      in if content \<noteq> [] then ((fst so)\<lparr>io_buffer := []\<rparr>, snd so @ io_prefix (fst so) @ content) else so)"

text \<open>The operator for manipulators such as \<^verbatim>\<open>std::endl\<close>, given what the manipulator does to the output.\<close>

definition io_manip :: "(string \<Rightarrow> string) \<Rightarrow> io_stream \<times> string \<Rightarrow> io_stream \<times> string" where
  "io_manip funct so = (let so1 = io_flushBuffer so in (fst so1, funct (snd so1)))"

definition endl :: "string \<Rightarrow> string" where
  "endl out = out @ [newline]"

text \<open>\<open>line.find('\n', cursor)\<close>.\<close>

definition io_find :: "string \<Rightarrow> nat \<Rightarrow> nat option" where
  "io_find line cursor =
     (let k = length (takeWhile (\<lambda>c. c \<noteq> newline) (drop cursor line))
      in if cursor + k < length line then Some (cursor + k) else None)"

function io_loop :: "string \<Rightarrow> string \<Rightarrow> nat \<Rightarrow> string \<Rightarrow> nat \<times> string" where
  "io_loop prefix line cursor out =
     (case io_find line cursor of
        None \<Rightarrow> (cursor, out)
      | Some pos \<Rightarrow>
          io_loop prefix line (pos + 1) (out @ prefix @ take (pos - cursor) (drop cursor line) @ [newline]))"
  by pat_completeness auto
termination
  by (relation "measure (\<lambda>(prefix, line, cursor, out). length line - cursor)")
    (auto simp: io_find_def Let_def split: if_splits)

text \<open>The operator for values, given the characters the value is printed as.\<close>

definition io_put :: "string \<Rightarrow> io_stream \<times> string \<Rightarrow> io_stream \<times> string" where
  "io_put value so =
     (let s = (fst so)\<lparr>io_buffer := io_buffer (fst so) @ value\<rparr>;
          line = io_buffer s
      in if io_find line 0 = None then (s, snd so)
         else case io_loop (io_prefix s) line 0 (snd so) of
           (cursor, out) \<Rightarrow>
             (s\<lparr>io_buffer := []\<rparr>, if cursor < length line then out @ drop cursor line else out))"

text \<open>
  Reading a value: \<open>parse\<close> is the formatted extraction of the value's type, which gives the value or
  fails, and the input it leaves. On failure the rest of the line is skipped and reading starts again.
\<close>

definition io_ignore :: "string \<Rightarrow> string" where
  "io_ignore input = drop (min (length (takeWhile (\<lambda>c. c \<noteq> newline) input) + 1) 2147483647) input"

partial_function (option) io_get ::
  "(string \<Rightarrow> 'v option \<times> string) \<Rightarrow> string \<Rightarrow> string \<Rightarrow> ('v \<times> string \<times> string) option" where
  "io_get parse input out =
     (case parse input of
        (Some v, rest) \<Rightarrow> Some (v, rest, out)
      | (None, rest) \<Rightarrow> io_get parse (io_ignore rest) (out @ ''Invalid input !'' @ [newline]))"

definition io_prompt ::
  "(string \<Rightarrow> 'v option \<times> string) \<Rightarrow> string \<Rightarrow> string \<Rightarrow> string \<Rightarrow> ('v \<times> string \<times> string) option" where
  "io_prompt parse question input out = io_get parse input (out @ question)"

section \<open>The thread wrapper\<close>

text \<open>
  \<open>th_thread\<close> is the joinable thread, if there is one. Joining waits for the function to end; the
  history lists the runs that were started and those that were joined.
\<close>

record 'f thread =
  th_funct :: 'f
  th_thread :: "nat option"
  th_stream :: io_stream
  th_started :: "nat list"
  th_joined :: "nat list"

definition th_new :: "string \<Rightarrow> 'f \<Rightarrow> 'f thread" where
  "th_new name funct = \<lparr>th_funct = funct, th_thread = None,
     th_stream = io_setPrefix (name @ '': '') io_new, th_started = [], th_joined = []\<rparr>"

definition th_stop :: "'f thread \<Rightarrow> 'f thread" where
  "th_stop t =
     (case th_thread t of
        None \<Rightarrow> t
      | Some k \<Rightarrow> t\<lparr>th_thread := None, th_joined := th_joined t @ [k]\<rparr>)"

definition th_destructor :: "'f thread \<Rightarrow> 'f thread" where
  "th_destructor t = th_stop t"

definition th_start :: "'f thread \<times> string \<Rightarrow> 'f thread \<times> string" where
  "th_start to =
     (let t = fst to;
          to1 = (if th_thread t \<noteq> None
                 then (case io_put ''[ERROR] Thread already running [ERROR]'' (th_stream t, snd to) of
                         (st, out) \<Rightarrow> (th_stop (t\<lparr>th_stream := st\<rparr>), out))
                 else to);
          k = length (th_started (fst to1))
      in ((fst to1)\<lparr>th_thread := Some k, th_started := th_started (fst to1) @ [k]\<rparr>, snd to1))"

section \<open>Lines\<close>

text \<open>The complete lines of a text, and what follows the last newline.\<close>

fun lines :: "string \<Rightarrow> string list \<times> string" where
  "lines [] = ([], [])"
| "lines (c # cs) =
     (case lines cs of
        (ls, rest) \<Rightarrow>
          if c = newline then ([] # ls, rest)
          else case ls of [] \<Rightarrow> ([], c # rest) | l # ls' \<Rightarrow> ((c # l) # ls', rest))"

definition prefixed :: "string \<Rightarrow> string list \<Rightarrow> string" where
  "prefixed prefix ls = concat (map (\<lambda>l. prefix @ l @ [newline]) ls)"

lemma lines_no_newline: "newline \<notin> set cs \<Longrightarrow> lines cs = ([], cs)"
  by (induction cs) auto

lemma lines_append_line:
  "newline \<notin> set l \<Longrightarrow> lines (l @ newline # cs) = (l # fst (lines cs), snd (lines cs))"
  by (induction l) (auto split: prod.split)

lemma lines_text: "concat (map (\<lambda>l. l @ [newline]) (fst (lines cs))) @ snd (lines cs) = cs"
  by (induction cs) (auto split: prod.splits list.splits)

lemma lines_Nil_iff: "fst (lines cs) = [] \<longleftrightarrow> newline \<notin> set cs"
  by (induction cs) (auto split: prod.splits list.splits)

lemma lines_append:
  "lines (xs @ ys) = (fst (lines xs) @ fst (lines (snd (lines xs) @ ys)), snd (lines (snd (lines xs) @ ys)))"
proof (induction xs)
  case (Cons x xs)
  then show ?case by (auto split: prod.splits list.splits)
qed simp

section \<open>The output of a stream\<close>

lemma find_None: "io_find line cursor = None \<longleftrightarrow> newline \<notin> set (drop cursor line)"
proof -
  have "length (takeWhile (\<lambda>c. c \<noteq> newline) xs) = length xs \<longleftrightarrow> newline \<notin> set xs" for xs
    by (induction xs) auto
  moreover have "length (takeWhile (\<lambda>c. c \<noteq> newline) xs) \<le> length xs" for xs
    by (rule length_takeWhile_le)
  ultimately show ?thesis
    by (auto simp: io_find_def Let_def) (metis length_drop less_diff_conv add.commute nat_less_le)+
qed

lemma find_Some:
  assumes "io_find line cursor = Some pos"
  shows "cursor \<le> pos" and "pos < length line"
    and "drop cursor line = take (pos - cursor) (drop cursor line) @ newline # drop (pos + 1) line"
    and "newline \<notin> set (take (pos - cursor) (drop cursor line))"
proof -
  let ?xs = "drop cursor line"
  let ?k = "length (takeWhile (\<lambda>c. c \<noteq> newline) ?xs)"
  have pos: "pos = cursor + ?k" "pos < length line"
    using assms by (auto simp: io_find_def Let_def split: if_splits)
  then show "cursor \<le> pos" "pos < length line" by simp_all
  have k: "?k < length ?xs" using pos by simp
  have prefix: "take ?k ?xs = takeWhile (\<lambda>c. c \<noteq> newline) ?xs"
    by (metis takeWhile_eq_take)
  have "?xs ! ?k = newline"
    using nth_length_takeWhile[of "\<lambda>c. c \<noteq> newline" ?xs] k by simp
  then have "?xs = take ?k ?xs @ newline # drop (Suc ?k) ?xs"
    using id_take_nth_drop[OF k] by simp
  then show "?xs = take (pos - cursor) ?xs @ newline # drop (pos + 1) line"
    using pos(1) by (simp add: add.commute)
  show "newline \<notin> set (take (pos - cursor) ?xs)"
    using pos(1) prefix by (auto dest: set_takeWhileD)
qed

lemma loop_eq:
  "cursor \<le> length line \<Longrightarrow> io_loop prefix line cursor out =
    (length line - length (snd (lines (drop cursor line))), out @ prefixed prefix (fst (lines (drop cursor line))))"
proof (induction prefix line cursor out rule: io_loop.induct)
  case (1 prefix line cursor out)
  show ?case
  proof (cases "io_find line cursor")
    case None
    then have "lines (drop cursor line) = ([], drop cursor line)"
      using find_None lines_no_newline by blast
    with None 1(2) show ?thesis
      by (subst io_loop.simps) (simp add: prefixed_def)
  next
    case (Some pos)
    note found = find_Some[OF Some]
    have "lines (drop cursor line) = (take (pos - cursor) (drop cursor line) # fst (lines (drop (pos + 1) line)),
        snd (lines (drop (pos + 1) line)))"
      using found(3) lines_append_line[OF found(4)] by metis
    moreover have "io_loop prefix line (pos + 1) (out @ prefix @ take (pos - cursor) (drop cursor line) @ [newline]) =
        (length line - length (snd (lines (drop (pos + 1) line))),
         (out @ prefix @ take (pos - cursor) (drop cursor line) @ [newline]) @ prefixed prefix (fst (lines (drop (pos + 1) line))))"
      using 1(1)[OF Some] found(2) by simp
    ultimately show ?thesis
      by (subst io_loop.simps) (simp add: Some prefixed_def)
  qed
qed

lemma lines_rest: "\<exists>xs. cs = xs @ snd (lines cs)"
  using lines_text[of cs] by metis

lemma drop_rest: "drop (length cs - length (snd (lines cs))) cs = snd (lines cs)"
  using lines_rest[of cs] by (metis append_eq_conv_conj length_append diff_add_inverse2)

lemma put_eq:
  "io_put value (s, out) =
    (case lines (io_buffer s @ value) of
       ([], rest) \<Rightarrow> (s\<lparr>io_buffer := io_buffer s @ value\<rparr>, out)
     | (ls, rest) \<Rightarrow> (s\<lparr>io_buffer := []\<rparr>, out @ prefixed (io_prefix s) ls @ rest))"
proof -
  let ?line = "io_buffer s @ value"
  obtain ls rest where lr: "lines ?line = (ls, rest)" by (cases "lines ?line")
  show ?thesis
  proof (cases ls)
    case Nil
    then have "io_find ?line 0 = None"
      using lr lines_Nil_iff[of ?line] find_None[of ?line 0] by simp
    then show ?thesis using lr Nil by (simp add: io_put_def Let_def)
  next
    case (Cons l ls')
    then have "io_find ?line 0 \<noteq> None"
      using lr lines_Nil_iff[of ?line] find_None[of ?line 0] by simp
    moreover have "io_loop p ?line 0 out = (length ?line - length rest, out @ prefixed p ls)" for p
      using loop_eq[of 0 ?line p out] lr by simp
    moreover have "drop (length ?line - length rest) ?line = rest"
      using drop_rest[of ?line] lr by simp
    ultimately show ?thesis
      using lr Cons by (auto simp: io_put_def Let_def)
  qed
qed

section \<open>Several threads\<close>

text \<open>
  Threads \<open>t\<close> with a stream each put values in some interleaving. A value is a whole line, or part of
  a line, when it has no newline except possibly at its end.
\<close>

fun put_all :: "(nat \<times> string) list \<Rightarrow> (nat \<Rightarrow> io_stream) \<times> string \<Rightarrow> (nat \<Rightarrow> io_stream) \<times> string" where
  "put_all [] so = so"
| "put_all ((t, value) # vs) so =
     (case io_put value (fst so t, snd so) of (s', out) \<Rightarrow> put_all vs ((fst so)(t := s'), out))"

definition ends_line :: "string \<Rightarrow> bool" where
  "ends_line v \<longleftrightarrow> snd (lines v) = [] \<or> newline \<notin> set v"

definition text_of :: "nat \<Rightarrow> (nat \<times> 'a list) list \<Rightarrow> 'a list" where
  "text_of t vs = concat (map snd (filter (\<lambda>v. fst v = t) vs))"

definition block :: "(nat \<Rightarrow> io_stream) \<Rightarrow> nat \<times> string \<Rightarrow> string" where
  "block ss b = io_prefix (ss (fst b)) @ snd b @ [newline]"

lemma put_line_end:
  assumes "newline \<notin> set (io_buffer s)" and "ends_line value"
  shows "io_put value (s, out) = (s\<lparr>io_buffer := snd (lines (io_buffer s @ value))\<rparr>,
      out @ prefixed (io_prefix s) (fst (lines (io_buffer s @ value))))"
    and "newline \<notin> set (snd (lines (io_buffer s @ value)))"
proof -
  have tail: "newline \<notin> set (snd (lines cs))" for cs
    by (induction cs) (auto split: prod.splits list.splits)
  then show "newline \<notin> set (snd (lines (io_buffer s @ value)))" .
  show "io_put value (s, out) = (s\<lparr>io_buffer := snd (lines (io_buffer s @ value))\<rparr>,
      out @ prefixed (io_prefix s) (fst (lines (io_buffer s @ value))))"
  proof (cases "newline \<in> set value")
    case False
    then have "lines (io_buffer s @ value) = ([], io_buffer s @ value)"
      using assms(1) by (intro lines_no_newline) simp
    then show ?thesis by (simp add: put_eq prefixed_def)
  next
    case True
    have whole: "snd (lines (b @ v)) = []" if "snd (lines v) = []" "newline \<in> set v" for b v
    proof (induction b)
      case (Cons c b)
      have "fst (lines (b @ v)) \<noteq> []"
        using that(2) lines_Nil_iff[of "b @ v"] by simp
      with Cons show ?case by (auto split: prod.split list.split)
    qed (simp add: that)
    have "snd (lines (io_buffer s @ value)) = []"
      using True assms(2) whole by (auto simp: ends_line_def)
    moreover have "fst (lines (io_buffer s @ value)) \<noteq> []"
      using True lines_Nil_iff by simp
    ultimately show ?thesis
      by (cases "lines (io_buffer s @ value)") (simp add: put_eq split: list.split)
  qed
qed

lemma prefixed_blocks: "prefixed (io_prefix (ss t)) ls = concat (map (block ss) (map (Pair t) ls))"
  by (simp add: prefixed_def block_def comp_def)



text \<open>
  A value with text after its last newline breaks this: the text is printed at once, without the
  prefix, and the prefix appears in the middle of the line when the rest of it is put.
\<close>

theorem iostream_tail_unprefixed:
  assumes "newline \<notin> set (a @ b @ c)" and "b \<noteq> []" and "io_buffer s = []"
  shows "io_put (c @ [newline]) (io_put (a @ newline # b) (s, out)) =
    (s, out @ io_prefix s @ a @ newline # b @ io_prefix s @ c @ [newline])"
proof -
  have ab: "lines (a @ newline # b) = ([a], b)"
    using lines_append_line[of a b] lines_no_newline[of b] assms(1) by simp
  have c: "lines (c @ [newline]) = ([c], [])"
    using lines_append_line[of c "[]"] assms(1) by simp
  show ?thesis
    using assms(3) by (cases s) (simp add: put_eq ab c prefixed_def)
qed

text \<open>
  Reading at the end of the input never returns: the extraction fails without consuming anything,
  over and over.
\<close>

lemma get_nonempty:
  assumes "io_get parse input out = Some r"
  shows "parse [] = (None, []) \<longrightarrow> input \<noteq> []"
proof (rule io_get.raw_induct[of "\<lambda>parse input out r. parse [] = (None, []) \<longrightarrow> input \<noteq> []", OF _ assms])
  fix f :: "(string \<Rightarrow> 'a option \<times> string) \<Rightarrow> string \<Rightarrow> string \<Rightarrow> ('a \<times> string \<times> string) option" and parse input out y
  assume IH: "\<And>parse input out y. f parse input out = Some y \<Longrightarrow> parse [] = (None, []) \<longrightarrow> input \<noteq> []"
    and eq: "(case parse input of (None, rest) \<Rightarrow> f parse (io_ignore rest) (out @ ''Invalid input !'' @ [newline])
      | (Some v, rest) \<Rightarrow> Some (v, rest, out)) = Some y"
  show "parse [] = (None, []) \<longrightarrow> input \<noteq> []"
    using eq IH[of parse "[]"] by (cases y) (auto simp: io_ignore_def)
qed

lemma get_at_eof: "parse [] = (None, []) \<Longrightarrow> io_get parse [] out = None"
  using get_nonempty[of parse "[]" out] by (cases "io_get parse [] out") auto

text \<open>
  Every run of a thread object that was started is joined, in order, before the next one starts and
  when the object is destroyed.
\<close>

definition th_wf :: "'f thread \<Rightarrow> bool" where
  [wf_defs]: "th_wf t \<longleftrightarrow> th_started t = th_joined t @ (case th_thread t of None \<Rightarrow> [] | Some k \<Rightarrow> [k])"

lemma thread_joins:
  assumes "th_wf t"
  shows "th_wf (th_new name f) \<and> th_wf (fst (th_start (t, out))) \<and> th_wf (th_stop t) \<and>
    th_joined (fst (th_start (t, out))) = th_started t \<and> th_joined (th_destructor t) = th_started t"
  using assms
  by (auto simp: th_wf_def th_new_def th_start_def th_stop_def th_destructor_def Let_def split: option.splits prod.split)

end
