(* ===== verification/Logger.thy ===== *)
theory Logger
  imports IO_Stream "HOL-Library.List_Lexorder" "HOL-Library.Char_ord"
begin

text \<open>
  \<^verbatim>\<open>src/src/bonus/logger\<close>: messages with a level, written to a file or to the console. Files are a map
  from paths to contents; the answers of the file system, the clock and the working directory are
  an argument.
\<close>

section \<open>Levels\<close>

datatype log_level = DEBUG | INFO | WARNING | ERROR

fun level_nat :: "log_level \<Rightarrow> nat" where
  "level_nat DEBUG = 0"
| "level_nat INFO = 1"
| "level_nat WARNING = 2"
| "level_nat ERROR = 3"

lemma level_nat_inj: "level_nat a = level_nat b \<Longrightarrow> a = b"
  by (cases a; cases b) simp_all

instantiation log_level :: linorder
begin

definition less_eq_log_level :: "log_level \<Rightarrow> log_level \<Rightarrow> bool" where
  "less_eq_log_level a b \<longleftrightarrow> level_nat a \<le> level_nat b"

definition less_log_level :: "log_level \<Rightarrow> log_level \<Rightarrow> bool" where
  "less_log_level a b \<longleftrightarrow> level_nat a < level_nat b"

instance
  by standard (auto simp: less_eq_log_level_def less_log_level_def intro: level_nat_inj)

end

fun logLevelToString :: "log_level \<Rightarrow> string" where
  "logLevelToString DEBUG = ''DEBUG''"
| "logLevelToString INFO = ''INFO''"
| "logLevelToString WARNING = ''WARNING''"
| "logLevelToString ERROR = ''ERROR''"

section \<open>Time\<close>

text \<open>The broken-down time that \<^verbatim>\<open>localtime_r\<close> delivers, and its text by the format \<^verbatim>\<open>%Y-%m-%d | %H:%M:%S\<close>.\<close>

record tm =
  tm_year :: nat \<comment> \<open>since 1900\<close>
  tm_mon :: nat \<comment> \<open>since January\<close>
  tm_mday :: nat
  tm_hour :: nat
  tm_min :: nat
  tm_sec :: nat

definition pad2 :: "nat \<Rightarrow> string" where
  "pad2 n = (if n < 10 then ''0'' else []) @ to_string n"

definition lg_getCurrentTime :: "tm \<Rightarrow> string" where
  "lg_getCurrentTime localTime =
     to_string (1900 + tm_year localTime) @ ''-'' @ pad2 (tm_mon localTime + 1) @ ''-'' @ pad2 (tm_mday localTime) @
     '' | '' @ pad2 (tm_hour localTime) @ '':'' @ pad2 (tm_min localTime) @ '':'' @ pad2 (tm_sec localTime)"

section \<open>State and operations\<close>

record log_os =
  lo_getcwd :: "string option"
  lo_tm :: tm
  lo_is_dir :: "string \<Rightarrow> bool option" \<comment> \<open>\<open>None\<close> when \<^verbatim>\<open>stat\<close> fails\<close>
  lo_mkdir :: "string \<Rightarrow> bool" \<comment> \<open>created, or there already\<close>
  lo_open :: "string \<Rightarrow> bool"
  lo_errno_text :: string

abbreviation lo_time :: "log_os \<Rightarrow> string" where
  "lo_time os \<equiv> lg_getCurrentTime (lo_tm os)"

record logger =
  lg_currentLevel :: log_level
  lg_logFilename :: string
  lg_outputFilePath :: string
  lg_writer :: io_stream
  lg_logFile :: "string option" \<comment> \<open>the path of the open file\<close>

definition lg_getOutputPathFile :: "logger \<Rightarrow> string" where
  "lg_getOutputPathFile l = lg_outputFilePath l @ lg_logFilename l @ ''.log''"

definition lg_setLogLevel :: "log_level \<Rightarrow> logger \<Rightarrow> logger" where
  "lg_setLogLevel level l = l\<lparr>lg_currentLevel := level\<rparr>"

definition lg_setOutputFile :: "log_os \<Rightarrow> string \<Rightarrow> logger \<Rightarrow> unit res \<times> logger" where
  "lg_setOutputFile os filename l =
     (case lo_getcwd os of
        None \<Rightarrow> (throw (Runtime_error (''Current path for Output file could not be determined try to '' @
                  ''increase filename buffer size'' @ lo_errno_text os)), l)
      | Some cwd \<Rightarrow>
          (let l1 = l\<lparr>lg_logFilename := (if filename = [] then lo_time os else filename)\<rparr>;
               l2 = (if lg_outputFilePath l1 = [] then l1\<lparr>lg_outputFilePath := cwd @ ''/logs/''\<rparr> else l1);
               path = lg_outputFilePath l2;
               dirPath = (if path \<noteq> [] \<and> last path = CHR ''/'' then butlast path else path)
           in if lo_is_dir os dirPath = None \<and> \<not> lo_mkdir os dirPath
              then (throw (Runtime_error (''Could not create log directory: '' @ lo_errno_text os)), l2)
              else if lo_is_dir os dirPath = Some False
              then (throw (Runtime_error ''Log path exists but is not a directory''), l2)
              else if \<not> lo_open os (lg_getOutputPathFile l2)
              then (throw (Runtime_error (''Could not open log file: '' @ lg_logFilename l2 @ ''.log'')),
                    l2\<lparr>lg_logFile := None\<rparr>)
              else (Inr (), l2\<lparr>lg_logFile := Some (lg_getOutputPathFile l2)\<rparr>)))"

definition lg_new :: "log_os \<Rightarrow> string \<Rightarrow> log_level \<Rightarrow> unit res \<times> logger" where
  "lg_new os outputfile level = lg_setOutputFile os outputfile
     \<lparr>lg_currentLevel = level, lg_logFilename = [], lg_outputFilePath = [], lg_writer = io_new, lg_logFile = None\<rparr>"

text \<open>
  The static instance is constructed by the first call; when the constructor throws, the next call
  tries again.
\<close>

definition lg_instance :: "log_os \<Rightarrow> logger option \<Rightarrow> logger res \<times> logger option" where
  "lg_instance os inst =
     (case inst of
        Some l \<Rightarrow> (Inr l, inst)
      | None \<Rightarrow> (case lg_new os [] DEBUG of (Inl e, l) \<Rightarrow> (Inl e, None) | (Inr u, l) \<Rightarrow> (Inr l, Some l)))"

definition log_pieces :: "log_os \<Rightarrow> log_level \<Rightarrow> string \<Rightarrow> string list" where
  "log_pieces os level message =
     [''['', logLevelToString level, '']'', ''['', lo_time os, ''] '', message]"

definition lg_log ::
  "log_os \<Rightarrow> log_level \<Rightarrow> string \<Rightarrow> logger \<Rightarrow> (string \<Rightarrow> string option) \<Rightarrow> (string \<Rightarrow> string option)" where
  "lg_log os level message l files =
     (if level < lg_currentLevel l then files
      else case lg_logFile l of
        None \<Rightarrow> files
      | Some path \<Rightarrow>
          files(path \<mapsto> (case files path of None \<Rightarrow> [] | Some content \<Rightarrow> content) @
            endl (concat (log_pieces os level message))))"

definition lg_logConsole ::
  "log_os \<Rightarrow> log_level \<Rightarrow> string \<Rightarrow> logger \<times> string \<Rightarrow> logger \<times> string" where
  "lg_logConsole os level message lo =
     (if level < lg_currentLevel (fst lo) then lo
      else case io_manip endl (fold io_put (log_pieces os level message) (lg_writer (fst lo), snd lo)) of
        (st, out) \<Rightarrow> ((fst lo)\<lparr>lg_writer := st\<rparr>, out))"

text \<open>The destructor closes the file and flushes the writer; \<^verbatim>\<open>std::flush\<close> adds nothing to the output.\<close>

definition lg_destructor :: "logger \<times> string \<Rightarrow> logger \<times> string" where
  "lg_destructor lo =
     (case io_manip id (lg_writer (fst lo), snd lo) of
        (st, out) \<Rightarrow> ((fst lo)\<lparr>lg_logFile := None, lg_writer := st\<rparr>, out))"

section \<open>Properties\<close>

text \<open>Without a prefix a stream passes its text on unchanged.\<close>

lemma put_no_prefix:
  assumes "io_prefix (fst so) = []"
  shows "snd (io_put value so) @ io_buffer (fst (io_put value so)) = snd so @ io_buffer (fst so) @ value"
    and "io_prefix (fst (io_put value so)) = []"
proof -
  obtain s out where so: "so = (s, out)" by (cases so)
  obtain ls rest where lr: "lines (io_buffer s @ value) = (ls, rest)" by (cases "lines (io_buffer s @ value)")
  have "prefixed [] ls @ rest = io_buffer s @ value"
    using lines_text[of "io_buffer s @ value"] lr by (simp add: prefixed_def)
  then show "snd (io_put value so) @ io_buffer (fst (io_put value so)) = snd so @ io_buffer (fst so) @ value"
    "io_prefix (fst (io_put value so)) = []"
    using assms so by (auto simp: put_eq lr split: list.split)
qed

lemma puts_no_prefix:
  "io_prefix (fst so) = [] \<Longrightarrow>
    snd (fold io_put vs so) @ io_buffer (fst (fold io_put vs so)) = snd so @ io_buffer (fst so) @ concat vs \<and>
    io_prefix (fst (fold io_put vs so)) = []"
  by (induction vs arbitrary: so) (simp_all add: put_no_prefix)

text \<open>
  A message is written exactly when its level is at least the current one: \<open>log\<close> appends one
  line to the open file and touches no other file, and \<open>logConsole\<close> writes the same line to the
  console, even when the message has newlines; messages below the level change nothing. Nothing is
  left in the line buffer, so destroying the logger closes its file and prints nothing more.
\<close>

theorem logger_levels:
  assumes "io_prefix (lg_writer l) = []" and "io_buffer (lg_writer l) = []"
  shows "(level < lg_currentLevel l \<longrightarrow>
      lg_log os level message l files = files \<and> lg_logConsole os level message (l, out) = (l, out)) \<and>
    (lg_currentLevel l \<le> level \<longrightarrow>
      (\<forall>path content. lg_logFile l = Some path \<longrightarrow> files path = Some content \<longrightarrow>
        lg_log os level message l files = files(path \<mapsto> content @ ''['' @ logLevelToString level @ ''][''
          @ lo_time os @ ''] '' @ message @ [newline])) \<and>
      lg_logConsole os level message (l, out) = (l, out @ ''['' @ logLevelToString level @ ''][''
          @ lo_time os @ ''] '' @ message @ [newline])) \<and>
    lg_destructor (lg_logConsole os level message (l, out)) =
      ((fst (lg_logConsole os level message (l, out)))\<lparr>lg_logFile := None\<rparr>,
       snd (lg_logConsole os level message (l, out)))"
proof -
  let ?so = "fold io_put (log_pieces os level message) (lg_writer l, out)"
  have puts: "snd ?so @ io_buffer (fst ?so) = out @ concat (log_pieces os level message)" "io_prefix (fst ?so) = []"
    using puts_no_prefix[of "(lg_writer l, out)"] assms by simp_all
  then have manip: "snd (io_manip endl ?so) = out @ concat (log_pieces os level message) @ [newline]"
    "io_buffer (fst (io_manip endl ?so)) = []" "io_prefix (fst (io_manip endl ?so)) = []"
    by (auto simp: io_manip_def io_flushBuffer_def Let_def endl_def)
  then have "fst (io_manip endl ?so) = lg_writer l"
    using assms by (intro io_stream.equality) simp_all
  then have "lg_logConsole os level message (l, out) =
      (if lg_currentLevel l \<le> level then (l, out @ concat (log_pieces os level message) @ [newline]) else (l, out))"
    using manip(1) by (cases "io_manip endl ?so") (auto simp: lg_logConsole_def not_less split: prod.split)
  then show ?thesis
    using assms
    by (auto simp: lg_log_def log_pieces_def endl_def lg_destructor_def io_manip_def io_flushBuffer_def Let_def)
qed

definition demo_os :: log_os where
  "demo_os = \<lparr>lo_getcwd = Some ''/home'',
     lo_tm = \<lparr>tm_year = 125, tm_mon = 0, tm_mday = 9, tm_hour = 23, tm_min = 5, tm_sec = 7\<rparr>,
     lo_is_dir = (\<lambda>_. Some True), lo_mkdir = (\<lambda>_. False), lo_open = (\<lambda>_. True), lo_errno_text = ''2''\<rparr>"

lemma demo_time: "lo_time demo_os = ''2025-01-09 | 23:05:07''"
  by (simp add: demo_os_def) code_simp

theorem logger_levels_witness:
  "lg_logConsole demo_os ERROR ''boom''
     (\<lparr>lg_currentLevel = INFO, lg_logFilename = [], lg_outputFilePath = [], lg_writer = io_new, lg_logFile = None\<rparr>, []) =
   (\<lparr>lg_currentLevel = INFO, lg_logFilename = [], lg_outputFilePath = [], lg_writer = io_new, lg_logFile = None\<rparr>,
    ''[ERROR][2025-01-09 | 23:05:07] boom'' @ [newline])"
  using logger_levels[of "\<lparr>lg_currentLevel = INFO, lg_logFilename = [], lg_outputFilePath = [], lg_writer = io_new, lg_logFile = None\<rparr>"
      ERROR demo_os "''boom''" "\<lambda>_. None" "[]"]
  by (simp add: io_new_def less_eq_log_level_def demo_time)

text \<open>Opening a log file: on success the file that is open is the one whose path is reported.\<close>

lemma setOutputFile_open:
  assumes "lg_setOutputFile os filename l = (Inr (), l')"
  shows "lg_logFile l' = Some (lg_getOutputPathFile l')" and "lg_outputFilePath l' \<noteq> []"
    and "filename \<noteq> [] \<Longrightarrow> lg_logFilename l' = filename"
  using assms by (auto simp: lg_setOutputFile_def lg_getOutputPathFile_def Let_def split: option.splits if_splits)

lemma instance_stable: "lg_instance os inst = (Inr l, inst') \<Longrightarrow> inst' = Some l \<and> lg_instance os' inst' = (Inr l, inst')"
  by (auto simp: lg_instance_def split: option.splits prod.splits sum.splits)

text \<open>Digits of a two-digit number.\<close>

lemma zero_digit: "''0'' = [char_of (48 :: nat)]"
  by (simp add: char_of_def bit_simps)

lemma pad2_digits: "n < 100 \<Longrightarrow> pad2 n = [char_of (48 + n div 10), char_of (48 + n mod 10)]"
  unfolding pad2_def zero_digit by (simp add: to_string_digits)

lemma year_digits:
  assumes "1000 \<le> n" and "n < 10000"
  shows "to_string n = [char_of (48 + n div 1000), char_of (48 + n div 100 mod 10), char_of (48 + n div 10 mod 10), char_of (48 + n mod 10)]"
proof -
  have "n div 1000 < 10" "\<not> n < 10" "\<not> n div 10 < 10" "\<not> n div 100 < 10"
    using assms by simp_all
  then show ?thesis
    by (simp add: to_string_digits div_mult2_eq[symmetric])
qed

lemma digit_eq: "a < 10 \<Longrightarrow> b < 10 \<Longrightarrow> char_of (48 + a) = (char_of (48 + b) :: char) \<longleftrightarrow> a = b" for a b :: nat
  by (simp only: char_of_quasi_inj) simp

definition tm_ok :: "tm \<Rightarrow> bool" where
  [wf_defs]: "tm_ok t \<longleftrightarrow> tm_year t < 8100 \<and> tm_mon t < 12 \<and> tm_mday t \<le> 31 \<and> tm_hour t < 24 \<and> tm_min t < 60 \<and> tm_sec t \<le> 60"

lemma pad2_length [simp]: "n < 100 \<Longrightarrow> length (pad2 n) = 2"
  by (simp add: pad2_digits)

lemma pad2_inj: "m < 100 \<Longrightarrow> n < 100 \<Longrightarrow> pad2 m = pad2 n \<longleftrightarrow> m = n"
  by (auto simp: pad2_digits digit_eq simp del: char_of_quasi_inj) (metis mult_div_mod_eq)

lemma year_length: "y < 8100 \<Longrightarrow> length (to_string (1900 + y)) = 4"
  using year_digits[of "1900 + y"] by simp

lemma year_inj:
  assumes "y < 8100" and "z < 8100" and "to_string (1900 + y) = to_string (1900 + z)"
  shows "y = z"
proof -
  have value_of: "n = 1000 * (n div 1000) + 100 * (n div 100 mod 10) + 10 * (n div 10 mod 10) + n mod 10" for n :: nat
  proof -
    have "n div 10 div 10 = n div 100" "n div 100 div 10 = n div 1000"
      by (simp_all flip: div_mult2_eq)
    then show ?thesis
      using div_mult_mod_eq[of n 10] div_mult_mod_eq[of "n div 10" 10] div_mult_mod_eq[of "n div 100" 10] by linarith
  qed
  have "(1900 + y) div 1000 < 10" "(1900 + z) div 1000 < 10"
    using assms(1,2) by simp_all
  then have "1900 + y = 1900 + z"
    using assms value_of[of "1900 + y"] value_of[of "1900 + z"]
    by (simp add: year_digits digit_eq del: char_of_quasi_inj)
  then show ?thesis by simp
qed

lemma time_inj:
  assumes "tm_ok a" and "tm_ok b" and "lg_getCurrentTime a = lg_getCurrentTime b"
  shows "a = b"
proof -
  have "to_string (1900 + tm_year a) = to_string (1900 + tm_year b)" "pad2 (tm_mon a + 1) = pad2 (tm_mon b + 1)"
    "pad2 (tm_mday a) = pad2 (tm_mday b)" "pad2 (tm_hour a) = pad2 (tm_hour b)" "pad2 (tm_min a) = pad2 (tm_min b)"
    "pad2 (tm_sec a) = pad2 (tm_sec b)"
    using assms year_length[of "tm_year a"] year_length[of "tm_year b"]
    by (auto simp: lg_getCurrentTime_def tm_ok_def append_eq_append_conv)
  then show ?thesis
    using assms(1,2) year_inj[of "tm_year a" "tm_year b"] by (intro tm.equality) (auto simp: tm_ok_def pad2_inj)
qed

text \<open>Texts of times are ordered as the times: blocks of equal length, digit by digit.\<close>

lemma append_less:
  fixes a b c d :: "'a :: linorder list"
  shows "length a = length b \<Longrightarrow> a @ c < b @ d \<longleftrightarrow> a < b \<or> a = b \<and> c < d"
  by (induction a b rule: list_induct2) auto

lemma digit_less: "a < 10 \<Longrightarrow> b < 10 \<Longrightarrow> char_of (48 + a) < (char_of (48 + b) :: char) \<longleftrightarrow> a < b" for a b :: nat
  by (simp add: less_char_def)

lemma div_mod_less: "m < n \<longleftrightarrow> m div k < n div k \<or> m div k = n div k \<and> m mod k < n mod k" for m n k :: nat
proof (cases "m div k" "n div k" rule: linorder_cases)
  case less
  then have "m < n"
    using div_le_mono[of n m k] by linarith
  with less show ?thesis by blast
next
  case equal
  then have "m = k * (n div k) + m mod k" "n = k * (n div k) + n mod k"
    using mult_div_mod_eq[of k m] mult_div_mod_eq[of k n] by simp_all
  then have "m < n \<longleftrightarrow> m mod k < n mod k"
    by linarith
  then show ?thesis
    unfolding equal by (simp only: less_irrefl simp_thms)
next
  case greater
  then have "\<not> m < n"
    using div_le_mono[of m n k] by linarith
  with greater show ?thesis by linarith
qed

lemma div_mod_same: "m = n \<longleftrightarrow> m div k = n div k \<and> m mod k = n mod k" for m n k :: nat
  by (metis mult_div_mod_eq)

lemma four_digits_less:
  "m < n \<longleftrightarrow> m div 1000 < n div 1000 \<or> m div 1000 = n div 1000 \<and>
    (m div 100 mod 10 < n div 100 mod 10 \<or> m div 100 mod 10 = n div 100 mod 10 \<and>
      (m div 10 mod 10 < n div 10 mod 10 \<or> m div 10 mod 10 = n div 10 mod 10 \<and> m mod 10 < n mod 10))" for m n :: nat
proof -
  have eqs: "k div 10 div 10 = k div 100" "k div 100 div 10 = k div 1000" for k :: nat
    by (simp_all flip: div_mult2_eq)
  show ?thesis
    using div_mod_less[of m n 10] div_mod_less[of "m div 10" "n div 10" 10] div_mod_less[of "m div 100" "n div 100" 10]
      div_mod_same[of "m div 10" "n div 10" 10] div_mod_same[of "m div 100" "n div 100" 10]
    unfolding eqs by blast
qed

lemma pad2_less: "m < 100 \<Longrightarrow> n < 100 \<Longrightarrow> pad2 m < pad2 n \<longleftrightarrow> m < n"
  using div_mod_less[of m n 10] by (simp add: pad2_digits digit_less digit_eq del: char_of_quasi_inj)

lemma year_less:
  assumes "y < 8100" and "z < 8100"
  shows "to_string (1900 + y) < to_string (1900 + z) \<longleftrightarrow> y < z"
proof -
  let ?y = "1900 + y" and ?z = "1900 + z"
  have digits: "?y div 1000 < 10" "?z div 1000 < 10"
    using assms by simp_all
  then have "to_string ?y < to_string ?z \<longleftrightarrow> ?y < ?z"
    using assms unfolding four_digits_less[of ?y ?z]
    by (simp add: year_digits digit_less digit_eq del: char_of_quasi_inj)
  then show ?thesis by simp
qed

text \<open>The fields of a time, the most significant first.\<close>

definition tm_key :: "tm \<Rightarrow> nat list" where
  "tm_key t = [tm_year t, tm_mon t, tm_mday t, tm_hour t, tm_min t, tm_sec t]"

lemma time_less:
  assumes "tm_ok a" and "tm_ok b"
  shows "lg_getCurrentTime a < lg_getCurrentTime b \<longleftrightarrow> tm_key a < tm_key b"
  using assms year_length[of "tm_year a"] year_length[of "tm_year b"] year_inj[of "tm_year a" "tm_year b"]
  by (auto simp: lg_getCurrentTime_def tm_key_def tm_ok_def append_less year_less pad2_less pad2_inj)

lemma new_default:
  assumes "lg_new os [] level = (Inr (), l)"
  shows "\<exists>cwd. lo_getcwd os = Some cwd \<and> lg_getOutputPathFile l = cwd @ ''/logs/'' @ lo_time os @ ''.log'' \<and>
    lg_logFile l = Some (lg_getOutputPathFile l)"
  using assms by (auto simp: lg_new_def lg_setOutputFile_def lg_getOutputPathFile_def Let_def split: option.splits if_splits)



end
