(* ===== verification/Floating.thy ===== *)
theory Floating
  imports Complex_Main Libftpp_Prelude
begin

text \<open>
  Binary floating-point numbers as the vectors, the noise generator and the chronometer use them:
  IEEE 754 formats with a precision and a largest exponent, and rounding to nearest with ties to
  even. Every operation rounds its exact result once, as SSE arithmetic does on x86-64. A finite
  number is its real value; infinities carry their sign, and a NaN is one value, its bits are not
  kept. Nor is the sign of a zero, on which only a division by zero could depend: the code tests its
  divisors and never divides by one. Statements that deliver a finite number show that no overflow
  happened on the way.
\<close>

section \<open>Formats and rounding\<close>

record fmt =
  fm_prec :: nat
  fm_emax :: int

definition binary32 :: fmt where
  "binary32 = \<lparr>fm_prec = 24, fm_emax = 127\<rparr>"

definition binary64 :: fmt where
  "binary64 = \<lparr>fm_prec = 53, fm_emax = 1023\<rparr>"

definition fm_emin :: "fmt \<Rightarrow> int" where
  "fm_emin F = 1 - fm_emax F"

definition fm_wf :: "fmt \<Rightarrow> bool" where
  [wf_defs]: "fm_wf F \<longleftrightarrow> 0 < fm_prec F \<and> int (fm_prec F) < fm_emax F"

text \<open>The argument of \<open>Inf\<close> says whether the infinity is negative.\<close>

datatype fp = Fin real | Inf bool | NaN

text \<open>The nearest integer, the even one of two.\<close>

definition rne :: "real \<Rightarrow> int" where
  "rne x =
     (let f = \<lfloor>x\<rfloor>; d = x - of_int f
      in if d < 1 / 2 then f else if 1 / 2 < d then f + 1 else if even f then f else f + 1)"

text \<open>The exponent of a number, which subnormal numbers share with the smallest normal one.\<close>

definition fexp :: "fmt \<Rightarrow> real \<Rightarrow> int" where
  "fexp F x = (if x = 0 then fm_emin F else max (fm_emin F) \<lfloor>log 2 \<bar>x\<bar>\<rfloor>)"

definition ulp :: "fmt \<Rightarrow> real \<Rightarrow> real" where
  "ulp F x = 2 powi (fexp F x - int (fm_prec F) + 1)"

definition rnd :: "fmt \<Rightarrow> real \<Rightarrow> fp" where
  "rnd F x =
     (let y = of_int (rne (x / ulp F x)) * ulp F x
      in if \<bar>y\<bar> < 2 powi (fm_emax F + 1) then Fin y else Inf (x < 0))"

section \<open>Arithmetic\<close>

text \<open>The infinities follow the rules of the standard: what has no limit is a NaN.\<close>

fun fneg :: "fp \<Rightarrow> fp" where
  "fneg (Fin x) = Fin (- x)"
| "fneg (Inf s) = Inf (\<not> s)"
| "fneg NaN = NaN"

fun fadd :: "fmt \<Rightarrow> fp \<Rightarrow> fp \<Rightarrow> fp" where
  "fadd F (Fin x) (Fin y) = rnd F (x + y)"
| "fadd F (Fin x) (Inf t) = Inf t"
| "fadd F (Inf s) (Fin y) = Inf s"
| "fadd F (Inf s) (Inf t) = (if s = t then Inf s else NaN)"
| "fadd F NaN _ = NaN"
| "fadd F _ NaN = NaN"

definition fsub :: "fmt \<Rightarrow> fp \<Rightarrow> fp \<Rightarrow> fp" where
  "fsub F x y = fadd F x (fneg y)"

fun fmul :: "fmt \<Rightarrow> fp \<Rightarrow> fp \<Rightarrow> fp" where
  "fmul F (Fin x) (Fin y) = rnd F (x * y)"
| "fmul F (Fin x) (Inf t) = (if x = 0 then NaN else Inf ((x < 0) \<noteq> t))"
| "fmul F (Inf s) (Fin y) = (if y = 0 then NaN else Inf (s \<noteq> (y < 0)))"
| "fmul F (Inf s) (Inf t) = Inf (s \<noteq> t)"
| "fmul F NaN _ = NaN"
| "fmul F _ NaN = NaN"

text \<open>The code never divides by zero; the value given here for it is not used.\<close>

fun fdiv :: "fmt \<Rightarrow> fp \<Rightarrow> fp \<Rightarrow> fp" where
  "fdiv F (Fin x) (Fin y) = (if y = 0 then NaN else rnd F (x / y))"
| "fdiv F (Fin x) (Inf t) = Fin 0"
| "fdiv F (Inf s) (Fin y) = (if y = 0 then NaN else Inf (s \<noteq> (y < 0)))"
| "fdiv F (Inf s) (Inf t) = NaN"
| "fdiv F NaN _ = NaN"
| "fdiv F _ NaN = NaN"

text \<open>Equality of the language: a NaN differs from everything, itself included.\<close>

fun feq :: "fp \<Rightarrow> fp \<Rightarrow> bool" where
  "feq (Fin x) (Fin y) \<longleftrightarrow> x = y"
| "feq (Inf s) (Inf t) \<longleftrightarrow> s = t"
| "feq _ _ \<longleftrightarrow> False"

lemma fsub_Fin [simp]: "fsub F (Fin x) (Fin y) = rnd F (x - y)"
  by (simp add: fsub_def)

lemma feq_0 [simp]: "feq x (Fin 0) \<longleftrightarrow> x = Fin 0"
  by (cases x) auto

text \<open>Conversions: from an integer, between formats, and to \<open>int\<close>, which truncates and has to fit.\<close>

definition fl_of_int :: "fmt \<Rightarrow> int \<Rightarrow> fp" where
  "fl_of_int F i = rnd F (of_int i)"

fun fl_cvt :: "fmt \<Rightarrow> fp \<Rightarrow> fp" where
  "fl_cvt F (Fin x) = rnd F x"
| "fl_cvt F (Inf s) = Inf s"
| "fl_cvt F NaN = NaN"

definition trunc :: "real \<Rightarrow> int" where
  "trunc x = (if 0 \<le> x then \<lfloor>x\<rfloor> else \<lceil>x\<rceil>)"

fun fl_to_int :: "fp \<Rightarrow> int res" where
  "fl_to_int (Fin x) = (if - (2 ^ 31) \<le> trunc x \<and> trunc x < 2 ^ 31 then Inr (trunc x) else ub)"
| "fl_to_int (Inf s) = ub"
| "fl_to_int NaN = ub"

fun fl_floor :: "fp \<Rightarrow> fp" where
  "fl_floor (Fin x) = Fin (of_int \<lfloor>x\<rfloor>)"
| "fl_floor (Inf s) = Inf s"
| "fl_floor NaN = NaN"

section \<open>Facts about rounding\<close>

lemma rne_of_int [simp]: "rne (of_int n) = n"
  by (simp add: rne_def Let_def)

lemma rne_0 [simp]: "rne 0 = 0"
  using rne_of_int[of 0] by simp

lemma rne_bounds: "\<lfloor>x\<rfloor> \<le> rne x \<and> rne x \<le> \<lfloor>x\<rfloor> + 1"
  by (simp add: rne_def Let_def)

lemma rne_near: "\<bar>of_int (rne x) - x\<bar> \<le> 1 / 2"
  using of_int_floor_le[of x] floor_correct[of x] by (simp add: rne_def Let_def abs_if) linarith

lemma rne_le: "x \<le> of_int n \<Longrightarrow> rne x \<le> n"
proof -
  assume "x \<le> of_int n"
  then consider "x = of_int n" | "\<lfloor>x\<rfloor> < n"
    by (metis floor_less_iff order_le_less)
  then show ?thesis
    using rne_bounds[of x] by cases auto
qed

lemma rne_ge: "of_int n \<le> x \<Longrightarrow> n \<le> rne x"
  using rne_bounds[of x] by (meson le_floor_iff order_trans)

lemma rne_numeral [simp]: "rne (numeral n) = numeral n"
  using rne_of_int[of "numeral n"] by simp

lemma rne_mono:
  assumes "x \<le> y"
  shows "rne x \<le> rne y"
proof (cases "\<lfloor>x\<rfloor> = \<lfloor>y\<rfloor>")
  case True
  then show ?thesis
    using assms by (auto simp: rne_def Let_def)
next
  case False
  then have "\<lfloor>x\<rfloor> + 1 \<le> \<lfloor>y\<rfloor>"
    using floor_mono[OF assms] by linarith
  then show ?thesis
    using rne_bounds[of x] rne_bounds[of y] by linarith
qed

lemma ulp_pos [simp]: "0 < ulp F x"
  by (simp add: ulp_def)

lemma ulp_nonzero [simp]: "ulp F x \<noteq> 0"
  using ulp_pos[of F x] by linarith

lemma abs_ulp [simp]: "\<bar>ulp F x\<bar> = ulp F x"
  using ulp_pos[of F x] by linarith

lemma fexp_eq:
  assumes "2 powi k \<le> \<bar>x\<bar>" and "\<bar>x\<bar> < 2 powi (k + 1)" and "fm_emin F \<le> k"
  shows "fexp F x = k"
proof -
  have pos: "0 < \<bar>x\<bar>"
    using assms(1) by (smt (verit) zero_less_power_int)
  have "\<lfloor>log 2 \<bar>x\<bar>\<rfloor> = k"
    using assms(1,2) pos
    by (intro floor_eq2) (simp_all add: le_log_iff log_less_iff powr_real_of_int' powr_add power_int_add)
  then show ?thesis
    using assms(3) pos by (simp add: fexp_def)
qed

lemma fexp_le:
  assumes "\<bar>x\<bar> \<le> 2 powi k" and "fm_emin F \<le> k"
  shows "fexp F x \<le> k"
proof (cases "x = 0")
  case False
  then have "log 2 \<bar>x\<bar> \<le> k"
    using assms(1) by (simp add: log_le_iff powr_real_of_int')
  then show ?thesis
    using assms(2) False by (simp add: fexp_def floor_le_iff)
qed (use assms(2) in \<open>simp add: fexp_def\<close>)

lemma fexp_less:
  assumes "\<bar>x\<bar> < 2 powi k" and "fm_emin F < k"
  shows "fexp F x < k"
proof (cases "x = 0")
  case False
  then have "log 2 \<bar>x\<bar> < k"
    using assms(1) by (simp add: log_less_iff powr_real_of_int')
  then show ?thesis
    using assms(2) False by (simp add: fexp_def floor_less_iff)
qed (use assms(2) in \<open>simp add: fexp_def\<close>)

lemma powi_int: "0 \<le> k \<Longrightarrow> (2 :: real) powi k = of_int (2 ^ nat k)"
  by (simp add: power_int_def)

lemma powi_quot: "l \<le> k \<Longrightarrow> (2 :: real) powi k / 2 powi l = of_int (2 ^ nat (k - l))"
  using powi_int[of "k - l"] by (simp add: power_int_diff)

text \<open>Numbers of the format are not changed.\<close>

lemma rnd_exact:
  assumes "x = of_int m * 2 powi e" and "\<bar>m\<bar> < 2 ^ fm_prec F" and "fm_emin F - int (fm_prec F) + 1 \<le> e"
    and "\<bar>x\<bar> < 2 powi (fm_emax F + 1)"
  shows "rnd F x = Fin x"
proof -
  let ?q = "fexp F x - int (fm_prec F) + 1"
  have "\<bar>x\<bar> < 2 powi (int (fm_prec F) + e)"
  proof -
    have "\<bar>real_of_int m\<bar> < 2 ^ fm_prec F"
      using assms(2) by (metis of_int_abs of_int_less_numeral_power_cancel_iff)
    then show ?thesis
      using assms(1) by (simp add: abs_mult power_int_add)
  qed
  then have "?q \<le> e"
    using assms(3) fexp_less[of x "int (fm_prec F) + e" F] fexp_le[of x "int (fm_prec F) + e" F]
    by (cases "fm_emin F < int (fm_prec F) + e") auto
  then have "2 powi e / ulp F x = of_int (2 ^ nat (e - ?q))"
    unfolding ulp_def by (rule powi_quot)
  then have "x / ulp F x = of_int (m * 2 ^ nat (e - ?q))"
    unfolding of_int_mult by (metis assms(1) times_divide_eq_right)
  then have "of_int (rne (x / ulp F x)) * ulp F x = x"
    by (metis rne_of_int nonzero_divide_eq_eq ulp_nonzero)
  then show ?thesis
    using assms(4) by (simp add: rnd_def Let_def)
qed

lemma rnd_int:
  assumes "fm_wf F" and "\<bar>i\<bar> < 2 ^ fm_prec F"
  shows "rnd F (of_int i) = Fin (of_int i)"
proof (rule rnd_exact[of _ i 0])
  have "\<bar>real_of_int i\<bar> < 2 ^ fm_prec F"
    using assms(2) by (metis of_int_abs of_int_less_numeral_power_cancel_iff)
  also have "\<dots> \<le> 2 powi (fm_emax F + 1)"
    using assms(1) by (simp add: fm_wf_def power_int_increasing flip: power_int_of_nat)
  finally show "\<bar>real_of_int i\<bar> < 2 powi (fm_emax F + 1)" .
qed (use assms in \<open>auto simp: fm_wf_def fm_emin_def\<close>)

text \<open>Rounding does not leave a power of two.\<close>

lemma rnd_bound:
  assumes "fm_wf F" and "\<bar>x\<bar> \<le> 2 powi k" and "fm_emin F \<le> k" and "k \<le> fm_emax F"
  obtains y where "rnd F x = Fin y" and "\<bar>y\<bar> \<le> 2 powi k"
proof -
  let ?n = "k - (fexp F x - int (fm_prec F) + 1)"
  have "fexp F x - int (fm_prec F) + 1 \<le> k"
    using fexp_le[OF assms(2,3)] assms(1) by (simp add: fm_wf_def)
  then have top: "2 powi k / ulp F x = of_int (2 ^ nat ?n)"
    unfolding ulp_def by (rule powi_quot)
  have "- (2 powi k) / ulp F x \<le> x / ulp F x" "x / ulp F x \<le> 2 powi k / ulp F x"
    using assms(2) less_imp_le[OF ulp_pos[of F x]] by (intro divide_right_mono; simp)+
  then have "- of_int (2 ^ nat ?n) \<le> x / ulp F x" "x / ulp F x \<le> of_int (2 ^ nat ?n)"
    unfolding minus_divide_left[symmetric] top .
  then have "\<bar>rne (x / ulp F x)\<bar> \<le> 2 ^ nat ?n"
    using rne_le[of "x / ulp F x" "2 ^ nat ?n"] rne_ge[of "- (2 ^ nat ?n)" "x / ulp F x"] by simp
  then have "real_of_int \<bar>rne (x / ulp F x)\<bar> \<le> 2 powi k / ulp F x"
    unfolding top by (simp only: of_int_le_iff)
  then have y: "\<bar>of_int (rne (x / ulp F x)) * ulp F x\<bar> \<le> 2 powi k"
    by (simp add: abs_mult pos_le_divide_eq)
  also have "(2 :: real) powi k < 2 powi (fm_emax F + 1)"
    using assms(4) by (intro power_int_strict_increasing) simp_all
  finally show thesis
    using that y by (simp add: rnd_def Let_def)
qed

lemma rnd_0 [simp]: "rnd F 0 = Fin 0"
  by (simp add: rnd_def)

lemma rnd_error:
  assumes "rnd F x = Fin y"
  shows "\<bar>y - x\<bar> \<le> ulp F x / 2"
proof -
  have y: "y = of_int (rne (x / ulp F x)) * ulp F x"
    using assms by (simp add: rnd_def Let_def split: if_splits)
  have "y - x = (of_int (rne (x / ulp F x)) - x / ulp F x) * ulp F x"
    by (simp add: y left_diff_distrib)
  then have "\<bar>y - x\<bar> = \<bar>of_int (rne (x / ulp F x)) - x / ulp F x\<bar> * ulp F x"
    by (simp add: abs_mult)
  also have "\<dots> \<le> 1 / 2 * ulp F x"
    using rne_near[of "x / ulp F x"] less_imp_le[OF ulp_pos[of F x]] by (intro mult_right_mono)
  finally show ?thesis by simp
qed

lemma powi_fexp_le:
  assumes "2 powi fm_emin F \<le> \<bar>x\<bar>"
  shows "2 powi fexp F x \<le> \<bar>x\<bar>"
proof -
  have pos: "0 < \<bar>x\<bar>"
    using assms by (smt (verit) zero_less_power_int)
  then have "2 powi \<lfloor>log 2 \<bar>x\<bar>\<rfloor> \<le> \<bar>x\<bar>"
    by (simp flip: powr_real_of_int' le_log_iff)
  then show ?thesis
    using assms pos by (simp add: fexp_def max_def)
qed

text \<open>The relative error of rounding a normal number.\<close>

lemma rnd_relative:
  assumes "rnd F x = Fin y" and "2 powi fm_emin F \<le> \<bar>x\<bar>"
  shows "\<bar>y - x\<bar> \<le> \<bar>x\<bar> / 2 ^ fm_prec F"
proof -
  have "ulp F x / 2 = 2 powi fexp F x / 2 ^ fm_prec F"
    by (simp add: ulp_def power_int_add power_int_diff)
  also have "\<dots> \<le> \<bar>x\<bar> / 2 ^ fm_prec F"
    using powi_fexp_le[OF assms(2)] by (intro divide_right_mono) simp_all
  finally show ?thesis
    using rnd_error[OF assms(1)] by linarith
qed

lemma powi_emin_le_1: "fm_wf F \<Longrightarrow> (2 :: real) powi fm_emin F \<le> 1"
  using power_int_increasing[of "fm_emin F" 0 "2 :: real"] by (simp add: fm_wf_def fm_emin_def)

lemma formats_wf [simp]: "fm_wf binary32" "fm_wf binary64"
  by (simp_all add: fm_wf_def binary32_def binary64_def)

text \<open>Rounding keeps the sign, and its error is at most half a unit of the exponent.\<close>

lemma rnd_nonneg: "rnd F x = Fin y \<Longrightarrow> 0 \<le> x \<Longrightarrow> 0 \<le> y"
  using rne_ge[of 0 "x / ulp F x"] less_imp_le[OF ulp_pos[of F x]]
  by (auto simp: rnd_def Let_def split: if_splits)

lemma rnd_abs_error:
  assumes "rnd F x = Fin y" and "\<bar>x\<bar> \<le> 2 powi k" and "fm_emin F \<le> k"
  shows "\<bar>y - x\<bar> \<le> 2 powi (k - int (fm_prec F))"
proof -
  have "ulp F x \<le> 2 powi (k - int (fm_prec F) + 1)"
    using fexp_le[OF assms(2,3)] unfolding ulp_def by (intro power_int_increasing) simp_all
  then show ?thesis
    using rnd_error[OF assms(1)] by (simp add: power_int_add)
qed

section \<open>The ends of the range\<close>

text \<open>One bound for normal and subnormal results.\<close>

lemma rnd_any:
  assumes "fm_wf F" and "\<bar>x\<bar> \<le> 2 powi fm_emax F"
  obtains y where "rnd F x = Fin y" and "\<bar>y - x\<bar> \<le> \<bar>x\<bar> / 2 ^ fm_prec F + 2 powi (fm_emin F - int (fm_prec F))"
proof -
  have "fm_emin F \<le> fm_emax F"
    using assms(1) by (simp add: fm_wf_def fm_emin_def)
  then obtain y where y: "rnd F x = Fin y"
    using rnd_bound[OF assms] by blast
  have "\<bar>y - x\<bar> \<le> \<bar>x\<bar> / 2 ^ fm_prec F + 2 powi (fm_emin F - int (fm_prec F))"
  proof (cases "2 powi fm_emin F \<le> \<bar>x\<bar>")
    case True
    then show ?thesis
      using rnd_relative[OF y] zero_le_power_int[of "2 :: real" "fm_emin F - int (fm_prec F)"] by linarith
  next
    case False
    then show ?thesis
      using rnd_abs_error[OF y, of "fm_emin F"] by (simp add: add_increasing)
  qed
  with y show thesis
    by (rule that)
qed

lemma rnd_cases:
  obtains y where "rnd F x = Fin y" | "rnd F x = Inf (x < 0)"
proof (cases "\<bar>of_int (rne (x / ulp F x)) * ulp F x\<bar> < 2 powi (fm_emax F + 1)")
  case True
  then have "rnd F x = Fin (of_int (rne (x / ulp F x)) * ulp F x)"
    by (simp only: rnd_def Let_def if_True)
  then show thesis by (rule that(1))
next
  case False
  then have "rnd F x = Inf (x < 0)"
    by (simp only: rnd_def Let_def if_False)
  then show thesis by (rule that(2))
qed

lemma rnd_normal:
  assumes "fm_wf F" and "2 powi fm_emin F \<le> \<bar>x\<bar>" and "\<bar>x\<bar> \<le> 2 powi fm_emax F"
  obtains y where "rnd F x = Fin y" and "\<bar>y - x\<bar> \<le> \<bar>x\<bar> / 2 ^ fm_prec F"
proof -
  obtain y where "rnd F x = Fin y"
    using rnd_any[OF assms(1,3)] by blast
  then show thesis
    using that rnd_relative assms(2) by blast
qed

lemma rne_abs_le: "\<bar>x\<bar> \<le> of_int n \<Longrightarrow> \<bar>rne x\<bar> \<le> n"
  using rne_le[of x n] rne_ge[of "- n" x] by (simp add: abs_le_iff)

text \<open>A \<^verbatim>\<open>float\<close> becomes a \<^verbatim>\<open>double\<close> without a change.\<close>

lemma fexp_ge: "fm_emin F \<le> fexp F x"
  by (simp add: fexp_def)

lemma abs_less_fexp: "\<bar>x\<bar> < 2 powi (fexp F x + 1)"
proof (cases "x = 0")
  case False
  then have "\<bar>x\<bar> < 2 powi (\<lfloor>log 2 \<bar>x\<bar>\<rfloor> + 1)"
    by (simp flip: powr_real_of_int' log_less_iff)
  also have "\<dots> \<le> 2 powi (fexp F x + 1)"
    using False by (intro power_int_increasing) (simp_all add: fexp_def)
  finally show ?thesis .
qed simp

lemma float_to_double:
  assumes "rnd binary32 x = Fin y"
  shows "rnd binary64 y = Fin y"
proof (rule rnd_exact)
  let ?m = "rne (x / ulp binary32 x)" and ?e = "fexp binary32 x - int (fm_prec binary32) + 1"
  show "y = of_int ?m * 2 powi ?e"
    using assms by (simp add: rnd_def Let_def ulp_def split: if_splits)
  have "\<bar>x\<bar> \<le> 2 ^ 24 * ulp binary32 x"
    using abs_less_fexp[of x binary32] by (simp add: ulp_def binary32_def power_int_add power_int_diff)
  then have "\<bar>x / ulp binary32 x\<bar> \<le> of_int (2 ^ 24)"
    by (simp add: abs_divide pos_divide_le_eq)
  then have "\<bar>?m\<bar> \<le> 2 ^ 24"
    by (rule rne_abs_le)
  then show "\<bar>?m\<bar> < 2 ^ fm_prec binary64"
    by (simp add: binary64_def)
  show "fm_emin binary64 - int (fm_prec binary64) + 1 \<le> ?e"
    using fexp_ge[of binary32 x] by (simp add: fm_emin_def binary32_def binary64_def)
  have "\<bar>y\<bar> < 2 powi (fm_emax binary32 + 1)"
    using assms by (simp add: rnd_def Let_def split: if_splits)
  also have "\<dots> \<le> 2 powi (fm_emax binary64 + 1)"
    by (intro power_int_increasing) (simp_all add: binary32_def binary64_def)
  finally show "\<bar>y\<bar> < 2 powi (fm_emax binary64 + 1)" .
qed

lemma rne_abs_ge: "of_int n \<le> \<bar>x\<bar> \<Longrightarrow> n \<le> \<bar>rne x\<bar>"
  using rne_ge[of n x] rne_le[of x "- n"] by (cases "0 \<le> x") simp_all

lemma rnd_overflow:
  assumes "fm_wf F" and "2 powi (fm_emax F + 1) \<le> \<bar>x\<bar>"
  shows "rnd F x = Inf (x < 0)"
proof -
  let ?n = "2 ^ (fm_prec F - 1) :: int" and ?r = "rne (x / ulp F x)"
  have "fm_emin F \<le> fm_emax F + 1"
    using assms(1) by (simp add: fm_wf_def fm_emin_def)
  then have emin: "2 powi fm_emin F \<le> \<bar>x\<bar>"
    using assms(2) power_int_increasing[of "fm_emin F" "fm_emax F + 1" "2 :: real"] by linarith
  then have pos: "0 < \<bar>x\<bar>"
    by (smt (verit) zero_less_power_int)
  have "real_of_int (fm_emax F + 1) \<le> log 2 \<bar>x\<bar>"
    using assms(2) pos by (simp add: le_log_iff powr_real_of_int' del: of_int_add)
  then have e: "fm_emax F + 1 \<le> fexp F x"
    using pos by (simp add: fexp_def le_max_iff_disj le_floor_iff)
  have unit: "2 powi fexp F x = of_int ?n * ulp F x"
    using assms(1) by (cases "fm_prec F") (simp_all add: ulp_def fm_wf_def power_int_add power_int_diff)
  have "of_int ?n \<le> \<bar>x / ulp F x\<bar>"
    using powi_fexp_le[OF emin] unfolding unit by (simp add: abs_divide pos_le_divide_eq)
  then have "?n \<le> \<bar>?r\<bar>"
    by (rule rne_abs_ge)
  then have "real_of_int ?n * ulp F x \<le> \<bar>of_int ?r * ulp F x\<bar>"
    unfolding abs_mult abs_ulp by (intro mult_right_mono) (simp_all only: flip: of_int_abs, simp_all add: less_imp_le)
  moreover have "2 powi (fm_emax F + 1) \<le> (2 :: real) powi fexp F x"
    using e by (intro power_int_increasing) simp_all
  ultimately show ?thesis
    unfolding unit by (simp add: rnd_def Let_def)
qed

lemma rne_half: "\<bar>x\<bar> \<le> 1 / 2 \<Longrightarrow> rne x = 0"
proof -
  assume x: "\<bar>x\<bar> \<le> 1 / 2"
  then have "\<lfloor>x\<rfloor> = (if 0 \<le> x then 0 else - 1)"
    by (simp add: floor_eq_iff) linarith
  then show ?thesis
    using x by (simp add: rne_def Let_def) linarith
qed

lemma rnd_underflow:
  assumes "\<bar>x\<bar> \<le> 2 powi (fm_emin F - int (fm_prec F))" and "fm_wf F"
  shows "rnd F x = Fin 0"
proof -
  have "(2 :: real) powi (fm_emin F - int (fm_prec F)) \<le> 2 powi fm_emin F"
    by (intro power_int_increasing) simp_all
  then have "fexp F x \<le> fm_emin F"
    using assms(1) by (intro fexp_le) simp_all
  then have "ulp F x = 2 powi (fm_emin F - int (fm_prec F) + 1)"
    unfolding ulp_def by (simp add: fexp_def split: if_splits)
  then have "\<bar>x\<bar> \<le> ulp F x / 2"
    using assms(1) by (simp add: power_int_add)
  then have "\<bar>x / ulp F x\<bar> \<le> 1 / 2"
    by (simp add: abs_divide pos_divide_le_eq)
  then show ?thesis
    by (simp add: rnd_def rne_half)
qed

end
