(* ===== verification/Chronometre.thy ===== *)
theory Chronometre
  imports Floating
begin

text \<open>
  \<^verbatim>\<open>src/src/bonus/chronometre\<close>: time stamps taken in pairs. A reading of the system clock is the number
  of nanoseconds since the epoch, an argument; the class stores it as a \<^verbatim>\<open>double\<close>, which has 53 bits,
  while the number of nanoseconds needs 61 bits until the year 2043.
\<close>

section \<open>State and operations\<close>

record chronometre =
  ch_timestamps :: "fp list"
  ch_now :: int

definition ch_new :: chronometre where
  "ch_new = \<lparr>ch_timestamps = [], ch_now = 0\<rparr>"

definition ch_createTimestamp :: "int \<Rightarrow> chronometre \<Rightarrow> chronometre" where
  "ch_createTimestamp now c =
     c\<lparr>ch_now := now, ch_timestamps := ch_timestamps c @ [fl_of_int binary64 now]\<rparr>"

definition ch_start :: "int \<Rightarrow> chronometre \<Rightarrow> chronometre" where
  "ch_start now c = ch_createTimestamp now c"

definition ch_end :: "int \<Rightarrow> chronometre \<Rightarrow> chronometre res" where
  "ch_end now c =
     (if length (ch_timestamps c) = 0
      then throw (Logic_error ''Chronometre::end(): start() must be called before end()'')
      else Inr (ch_createTimestamp now c))"

definition ch_popLastChrono :: "chronometre \<Rightarrow> chronometre" where
  "ch_popLastChrono c =
     (if length (ch_timestamps c) > 1 then c\<lparr>ch_timestamps := butlast (butlast (ch_timestamps c))\<rparr> else c)"

definition ch_destructor :: "chronometre \<Rightarrow> chronometre" where
  "ch_destructor c = c\<lparr>ch_timestamps := []\<rparr>"

text \<open>The guard and the difference that all five functions begin with.\<close>

definition ch_difference :: "chronometre \<Rightarrow> fp res" where
  "ch_difference c =
     (let ts = ch_timestamps c
      in if length ts = 0 \<or> length ts mod 2 \<noteq> 0
         then throw (Logic_error ''Chronometre::getTime(): start() and end() must be called in pairs'')
         else Inr (fsub binary64 (last ts) (ts ! (length ts - 2))))"

definition ch_getTimeNanoseconds :: "chronometre \<Rightarrow> fp res" where
  "ch_getTimeNanoseconds c = ch_difference c"

definition ch_getTimeMicroseconds :: "chronometre \<Rightarrow> fp res" where
  "ch_getTimeMicroseconds c = map_sum id (\<lambda>d. fdiv binary64 d (Fin 1000)) (ch_difference c)"

definition ch_getTimeMilliseconds :: "chronometre \<Rightarrow> fp res" where
  "ch_getTimeMilliseconds c = map_sum id (\<lambda>d. fdiv binary64 d (Fin 1000000)) (ch_difference c)"

definition ch_getTimeSeconds :: "chronometre \<Rightarrow> fp res" where
  "ch_getTimeSeconds c = map_sum id (\<lambda>d. fdiv binary64 d (Fin 1000000000)) (ch_difference c)"

text \<open>\<^verbatim>\<open>std::to_string(double)\<close>: six decimals.\<close>

definition fixed6 :: "real \<Rightarrow> string" where
  "fixed6 x =
     (let n = nat (rne (\<bar>x\<bar> * 10 ^ 6)); frac = to_string (n mod 10 ^ 6)
      in (if x < 0 then ''-'' else []) @ to_string (n div 10 ^ 6) @ ''.'' @
         replicate (6 - length frac) (CHR ''0'') @ frac)"

fun fl_to_string :: "fp \<Rightarrow> string" where
  "fl_to_string (Fin x) = fixed6 x"
| "fl_to_string (Inf s) = (if s then ''-inf'' else ''inf'')"
| "fl_to_string NaN = ''nan''"

fun fl_less :: "fp \<Rightarrow> real \<Rightarrow> bool" where
  "fl_less (Fin x) y = (x < y)"
| "fl_less (Inf s) y = s"
| "fl_less NaN y = False"

text \<open>The unit of microseconds is written in UTF-8.\<close>

definition ch_getTimeString :: "chronometre \<Rightarrow> string res" where
  "ch_getTimeString c =
     map_sum id (\<lambda>d.
       if fl_less d 1000 then fl_to_string d @ '' ns''
       else if fl_less d 1000000 then fl_to_string (fdiv binary64 d (Fin 1000)) @ [CHR '' '', CHR 0xC2, CHR 0xB5, CHR ''s'']
       else if fl_less d 1000000000 then fl_to_string (fdiv binary64 d (Fin 1000000)) @ '' ms''
       else fl_to_string (fdiv binary64 d (Fin 1000000000)) @ '' s'') (ch_difference c)"

section \<open>Clock readings as doubles\<close>

text \<open>From 2006 to 2043 the number of nanoseconds lies between \<open>2 ^ 60\<close> and \<open>2 ^ 61\<close>.\<close>

definition this_era :: "int \<Rightarrow> bool" where
  "this_era now \<longleftrightarrow> 2 ^ 60 \<le> now \<and> now < 2 ^ 61"

lemma ulp_this_era:
  assumes "this_era now"
  shows "ulp binary64 (of_int now) = 256"
proof -
  have "fexp binary64 (of_int now) = 60"
    by (rule fexp_eq) (use assms in \<open>simp_all add: this_era_def power_int_def fm_emin_def binary64_def\<close>)
  then show ?thesis
    by (simp add: ulp_def binary64_def power_int_def)
qed

definition tick :: "int \<Rightarrow> int" where
  "tick now = rne (of_int now / 256)"

lemma stamp_this_era:
  assumes "this_era now"
  shows "fl_of_int binary64 now = Fin (of_int (256 * tick now))"
proof -
  have "\<bar>real_of_int now\<bar> \<le> 2 powi 61"
    using assms by (simp add: this_era_def power_int_def)
  then obtain y where "rnd binary64 (of_int now) = Fin y"
    by (rule rnd_bound[OF formats_wf(2)]) (simp_all add: fm_emin_def binary64_def)
  then show ?thesis
    by (auto simp: fl_of_int_def rnd_def Let_def ulp_this_era[OF assms] tick_def split: if_splits)
qed

lemma tick_near: "\<bar>256 * tick now - now\<bar> \<le> 128"
  using rne_near[of "of_int now / 256"] by (simp add: tick_def abs_le_iff field_simps)

lemma tick_range: "this_era now \<Longrightarrow> 2 ^ 52 \<le> tick now \<and> tick now \<le> 2 ^ 53"
  unfolding tick_def this_era_def by (intro conjI rne_ge rne_le) simp_all

lemma stamp_difference:
  assumes "this_era a" and "this_era b"
  shows "fsub binary64 (fl_of_int binary64 b) (fl_of_int binary64 a) = Fin (of_int (256 * (tick b - tick a)))"
proof -
  let ?d = "of_int (256 * tick b) - of_int (256 * tick a) :: real"
  have "rnd binary64 ?d = Fin ?d"
  proof (rule rnd_exact[of _ "tick b - tick a" 8])
    show m: "\<bar>tick b - tick a\<bar> < 2 ^ fm_prec binary64"
      using tick_range[OF assms(1)] tick_range[OF assms(2)] unfolding binary64_def by simp linarith
    have "\<bar>?d\<bar> < 2 powi 62"
      using tick_range[OF assms(1)] tick_range[OF assms(2)] by (simp add: power_int_def abs_less_iff)
    also have "\<dots> \<le> 2 powi (fm_emax binary64 + 1)"
      by (intro power_int_increasing) (simp_all add: binary64_def)
    finally show "\<bar>?d\<bar> < 2 powi (fm_emax binary64 + 1)" .
  qed (simp_all add: binary64_def fm_emin_def)
  then show ?thesis
    by (simp add: stamp_this_era assms right_diff_distrib)
qed

lemma difference_pair:
  assumes "even (length (ch_timestamps c))"
  shows "ch_end b (ch_start a c) = Inr (ch_createTimestamp b (ch_createTimestamp a c))"
    and "ch_difference (ch_createTimestamp b (ch_createTimestamp a c)) =
      Inr (fsub binary64 (fl_of_int binary64 b) (fl_of_int binary64 a))"
  using assms
  by (simp_all add: ch_end_def ch_start_def ch_createTimestamp_def ch_difference_def Let_def nth_append)

lemma difference_Inr:
  "(\<exists>x. map_sum id f (ch_difference c) = Inr x) \<longleftrightarrow> ch_timestamps c \<noteq> [] \<and> even (length (ch_timestamps c))"
  by (auto simp: ch_difference_def Let_def even_iff_mod_2_eq_zero)

lemma digits: "to_string 0 = ''0''" "to_string 256 = ''256''" "to_string 512 = ''512''" "to_string 768 = ''768''"
  "replicate 5 (CHR ''0'') = ''00000''"
  by code_simp+

lemma fixed6_ticks:
  "fixed6 0 = ''0.000000''" "fixed6 256 = ''256.000000''" "fixed6 512 = ''512.000000''" "fixed6 768 = ''768.000000''"
  by (simp_all add: fixed6_def Let_def digits)

section \<open>Properties\<close>

text \<open>
  The protocol of the chronometer. The elapsed time can be read, in every unit, exactly when time
  stamps have been taken in pairs; \<open>end\<close> throws exactly when nothing has been started; a measured
  interval is removed by \<open>popLastChrono\<close>, which never changes whether stamps are paired.
\<close>

theorem chronometre_pairs:
  shows "(let ok = ch_timestamps c \<noteq> [] \<and> even (length (ch_timestamps c))
      in ((\<exists>x. ch_getTimeNanoseconds c = Inr x) \<longleftrightarrow> ok) \<and> ((\<exists>x. ch_getTimeMicroseconds c = Inr x) \<longleftrightarrow> ok) \<and>
        ((\<exists>x. ch_getTimeMilliseconds c = Inr x) \<longleftrightarrow> ok) \<and> ((\<exists>x. ch_getTimeSeconds c = Inr x) \<longleftrightarrow> ok) \<and>
        ((\<exists>x. ch_getTimeString c = Inr x) \<longleftrightarrow> ok)) \<and>
    ((\<exists>e. ch_end b c = throw e) \<longleftrightarrow> ch_timestamps c = []) \<and>
    (\<exists>c'. ch_end b (ch_start a c) = Inr c' \<and> ch_timestamps (ch_popLastChrono c') = ch_timestamps c) \<and>
    (even (length (ch_timestamps (ch_popLastChrono c))) \<longleftrightarrow> even (length (ch_timestamps c)))"
proof (intro conjI)
  show "let ok = ch_timestamps c \<noteq> [] \<and> even (length (ch_timestamps c))
      in ((\<exists>x. ch_getTimeNanoseconds c = Inr x) \<longleftrightarrow> ok) \<and> ((\<exists>x. ch_getTimeMicroseconds c = Inr x) \<longleftrightarrow> ok) \<and>
        ((\<exists>x. ch_getTimeMilliseconds c = Inr x) \<longleftrightarrow> ok) \<and> ((\<exists>x. ch_getTimeSeconds c = Inr x) \<longleftrightarrow> ok) \<and>
        ((\<exists>x. ch_getTimeString c = Inr x) \<longleftrightarrow> ok)"
    unfolding Let_def ch_getTimeNanoseconds_def ch_getTimeMicroseconds_def ch_getTimeMilliseconds_def
      ch_getTimeSeconds_def ch_getTimeString_def
    using difference_Inr[of id c] by (simp add: difference_Inr sum.map_id0)
qed (auto simp: ch_end_def ch_start_def ch_createTimestamp_def ch_popLastChrono_def butlast_append)

theorem chronometre_pairs_witness:
  "\<exists>c'. ch_end 20 (ch_start 10 ch_new) = Inr c' \<and> ch_timestamps (ch_popLastChrono c') = []"
  using chronometre_pairs[of ch_new 20 10] by (simp add: ch_new_def)

text \<open>
  C36. The resolution of the chronometer is 256 nanoseconds, from 2006 to 2043: the time measured
  between two readings is a multiple of 256 ns that differs from the difference of the readings by
  at most 256 ns, and the other units are that number, divided with one rounding.
\<close>

theorem chronometre_resolution:
  assumes "even (length (ch_timestamps c))" and "this_era a" and "this_era b"
  shows "\<exists>c' k. ch_end b (ch_start a c) = Inr c' \<and> \<bar>256 * k - (b - a)\<bar> \<le> 256 \<and>
    ch_getTimeNanoseconds c' = Inr (Fin (of_int (256 * k))) \<and>
    ch_getTimeMicroseconds c' = Inr (rnd binary64 (of_int (256 * k) / 1000)) \<and>
    ch_getTimeMilliseconds c' = Inr (rnd binary64 (of_int (256 * k) / 1000000)) \<and>
    ch_getTimeSeconds c' = Inr (rnd binary64 (of_int (256 * k) / 1000000000))"
proof -
  have "\<bar>256 * (tick b - tick a) - (b - a)\<bar> \<le> 256"
    using tick_near[of a] tick_near[of b] unfolding right_diff_distrib by linarith
  then show ?thesis
    using difference_pair[OF assms(1), of b a] stamp_difference[OF assms(2,3)]
    by (intro exI[of _ "ch_createTimestamp b (ch_createTimestamp a c)"] exI[of _ "tick b - tick a"])
      (simp add: ch_getTimeNanoseconds_def ch_getTimeMicroseconds_def ch_getTimeMilliseconds_def ch_getTimeSeconds_def)
qed

theorem chronometre_resolution_witness:
  "\<exists>c' k. ch_end (2 ^ 60 + 1000) (ch_start (2 ^ 60) ch_new) = Inr c' \<and> \<bar>256 * k - 1000\<bar> \<le> 256 \<and>
    ch_getTimeNanoseconds c' = Inr (Fin (of_int (256 * k)))"
  using chronometre_resolution[of ch_new "2 ^ 60" "2 ^ 60 + 1000"] by (auto simp: ch_new_def this_era_def)

text \<open>
  What \<open>getTimeString\<close> prints for short intervals: for two readings less than 700 ns apart it is
  one of four texts, 0, 256, 512 or 768 ns, whatever the clock delivered.
\<close>

theorem chronometre_string:
  assumes "even (length (ch_timestamps c))" and "this_era a" and "this_era b" and "a \<le> b" and "b - a < 700"
  shows "\<exists>c'. ch_end b (ch_start a c) = Inr c' \<and>
    ch_getTimeString c' \<in> Inr ` {''0.000000 ns'', ''256.000000 ns'', ''512.000000 ns'', ''768.000000 ns''}"
proof -
  let ?c = "ch_createTimestamp b (ch_createTimestamp a c)"
  have "tick a \<le> tick b"
    using assms(4) unfolding tick_def by (intro rne_mono) simp
  moreover have "256 * tick b - 256 * tick a < 1024"
    using tick_near[of a] tick_near[of b] assms(5) by linarith
  ultimately have "tick b - tick a \<in> {0, 1, 2, 3}"
    by auto
  then obtain k where "k \<in> {0, 1, 2, 3}" "tick b - tick a = k"
    by blast
  moreover have "ch_difference ?c = Inr (Fin (of_int (256 * (tick b - tick a))))"
    using difference_pair(2)[OF assms(1)] stamp_difference[OF assms(2,3)] by simp
  ultimately show ?thesis
    using difference_pair(1)[OF assms(1), of b a]
    by (auto simp: ch_getTimeString_def fixed6_ticks)
qed

theorem chronometre_string_witness:
  "\<exists>c'. ch_end (2 ^ 60 + 100) (ch_start (2 ^ 60) ch_new) = Inr c' \<and>
    ch_getTimeString c' \<in> Inr ` {''0.000000 ns'', ''256.000000 ns'', ''512.000000 ns'', ''768.000000 ns''}"
  by (rule chronometre_string) (simp_all add: ch_new_def this_era_def)

end
