(* ===== verification/Mathematics.thy ===== *)
theory Mathematics
  imports Libftpp_Prelude "HOL-Library.Signed_Division"
begin

text \<open>
  \<^verbatim>\<open>src/src/mathematics\<close>: the coordinate-based random generator, and the vectors \<open>IVector2\<close> and \<open>IVector3\<close>
  for \<open>TType = int\<close>, in which an operation whose result does not fit 32 bits is undefined. The members
  that return a \<^verbatim>\<open>float\<close> are in \<open>Vector_Float\<close>.
\<close>

unbundle bit_operations_syntax

section \<open>Signed arithmetic\<close>

definition fits :: "nat \<Rightarrow> int \<Rightarrow> bool" where
  "fits w i \<longleftrightarrow> - (2 ^ (w - 1)) \<le> i \<and> i < 2 ^ (w - 1)"

text \<open>A result of type \<open>int\<close>.\<close>

definition ck :: "int \<Rightarrow> int res" where
  "ck i = (if fits 32 i then Inr i else ub)"

section \<open>Random2DCoordinateGenerator\<close>

text \<open>
  \<open>long long\<close> values are 64-bit words read as signed numbers; the hash of the standard library is an
  argument.
\<close>

record random2D =
  rg_seed :: "64 word"

definition rg_new :: "64 word \<Rightarrow> random2D" where
  "rg_new seed = \<lparr>rg_seed = seed\<rparr>"

definition rg_default :: "(64 word \<Rightarrow> 64 word) \<Rightarrow> 64 word \<Rightarrow> 32 word \<Rightarrow> 32 word \<Rightarrow> 64 word \<Rightarrow> random2D" where
  "rg_default ptr_hash now pid rnd addr = \<lparr>rg_seed = now XOR scast pid XOR scast rnd XOR ptr_hash addr\<rparr>"

definition rg_getSeed :: "random2D \<Rightarrow> 64 word" where
  "rg_getSeed g = rg_seed g"

definition rg_call :: "(64 word \<Rightarrow> 64 word) \<Rightarrow> random2D \<Rightarrow> 64 word \<Rightarrow> 64 word \<Rightarrow> 64 word res" where
  "rg_call hash g x y =
     (if fits 64 (sint x * 7) \<and> fits 64 (sint y * 13) \<and> fits 64 (sint x * 7 - sint y * 13)
      then Inr (hash (rg_seed g XOR word_of_int (sint x * 7 - sint y * 13))) else ub)"

section \<open>IVector2 and IVector3\<close>

record ivector2 =
  v2x :: int
  v2y :: int

record ivector3 =
  v3x :: int
  v3y :: int
  v3z :: int

definition v2_zero :: ivector2 where
  "v2_zero = \<lparr>v2x = 0, v2y = 0\<rparr>"

text \<open>A vector from component results, the first undefined one deciding.\<close>

definition mk2 :: "int res \<Rightarrow> int res \<Rightarrow> ivector2 res" where
  "mk2 a b = (case a of Inl e \<Rightarrow> Inl e | Inr x \<Rightarrow> (case b of Inl e \<Rightarrow> Inl e | Inr y \<Rightarrow> Inr \<lparr>v2x = x, v2y = y\<rparr>))"

definition mk3 :: "int res \<Rightarrow> int res \<Rightarrow> int res \<Rightarrow> ivector3 res" where
  "mk3 a b c =
     (case a of Inl e \<Rightarrow> Inl e
      | Inr x \<Rightarrow> (case b of Inl e \<Rightarrow> Inl e
      | Inr y \<Rightarrow> (case c of Inl e \<Rightarrow> Inl e | Inr z \<Rightarrow> Inr \<lparr>v3x = x, v3y = y, v3z = z\<rparr>)))"

definition v2_add :: "ivector2 \<Rightarrow> ivector2 \<Rightarrow> ivector2 res" where
  "v2_add a b = mk2 (ck (v2x a + v2x b)) (ck (v2y a + v2y b))"

definition v2_sub :: "ivector2 \<Rightarrow> ivector2 \<Rightarrow> ivector2 res" where
  "v2_sub a b = mk2 (ck (v2x a - v2x b)) (ck (v2y a - v2y b))"

definition v2_mul :: "ivector2 \<Rightarrow> ivector2 \<Rightarrow> ivector2 res" where
  "v2_mul a b = mk2 (ck (v2x a * v2x b)) (ck (v2y a * v2y b))"

definition v2_div :: "ivector2 \<Rightarrow> ivector2 \<Rightarrow> ivector2 res" where
  "v2_div a b =
     (if v2x b = 0 \<or> v2y b = 0
      then throw (Invalid_argument ''Division by zero: denominator has a zero component'')
      else mk2 (ck (v2x a sdiv v2x b)) (ck (v2y a sdiv v2y b)))"

definition v2_eq :: "ivector2 \<Rightarrow> ivector2 \<Rightarrow> bool" where
  "v2_eq a b \<longleftrightarrow> v2x a = v2x b \<and> v2y a = v2y b"

definition v2_neq :: "ivector2 \<Rightarrow> ivector2 \<Rightarrow> bool" where
  "v2_neq a b \<longleftrightarrow> \<not> v2_eq a b"

text \<open>The assignment operators change one component after the other.\<close>

definition v2_add_assign :: "ivector2 \<Rightarrow> ivector2 \<Rightarrow> ivector2 res" where
  "v2_add_assign a b =
     (case ck (v2x a + v2x b) of
        Inl e \<Rightarrow> Inl e
      | Inr x \<Rightarrow> (case ck (v2y a + v2y b) of Inl e \<Rightarrow> Inl e | Inr y \<Rightarrow> Inr (a\<lparr>v2x := x, v2y := y\<rparr>)))"

definition v2_sub_assign :: "ivector2 \<Rightarrow> ivector2 \<Rightarrow> ivector2 res" where
  "v2_sub_assign a b =
     (case ck (v2x a - v2x b) of
        Inl e \<Rightarrow> Inl e
      | Inr x \<Rightarrow> (case ck (v2y a - v2y b) of Inl e \<Rightarrow> Inl e | Inr y \<Rightarrow> Inr (a\<lparr>v2x := x, v2y := y\<rparr>)))"

definition v2_perp :: "ivector2 \<Rightarrow> ivector2 res" where
  "v2_perp a = mk2 (ck (- v2y a)) (Inr (v2x a))"

definition v3_add :: "ivector3 \<Rightarrow> ivector3 \<Rightarrow> ivector3 res" where
  "v3_add a b = mk3 (ck (v3x a + v3x b)) (ck (v3y a + v3y b)) (ck (v3z a + v3z b))"

definition v3_sub :: "ivector3 \<Rightarrow> ivector3 \<Rightarrow> ivector3 res" where
  "v3_sub a b = mk3 (ck (v3x a - v3x b)) (ck (v3y a - v3y b)) (ck (v3z a - v3z b))"

definition v3_mul :: "ivector3 \<Rightarrow> ivector3 \<Rightarrow> ivector3 res" where
  "v3_mul a b = mk3 (ck (v3x a * v3x b)) (ck (v3y a * v3y b)) (ck (v3z a * v3z b))"

definition v3_div :: "ivector3 \<Rightarrow> ivector3 \<Rightarrow> ivector3 res" where
  "v3_div a b =
     (if v3x b = 0 \<or> v3y b = 0 \<or> v3z b = 0
      then throw (Invalid_argument ''Division by zero: denominator has a zero component'')
      else mk3 (ck (v3x a sdiv v3x b)) (ck (v3y a sdiv v3y b)) (ck (v3z a sdiv v3z b)))"

definition v3_eq :: "ivector3 \<Rightarrow> ivector3 \<Rightarrow> bool" where
  "v3_eq a b \<longleftrightarrow> v3x a = v3x b \<and> v3y a = v3y b \<and> v3z a = v3z b"

definition v3_neq :: "ivector3 \<Rightarrow> ivector3 \<Rightarrow> bool" where
  "v3_neq a b \<longleftrightarrow> \<not> v3_eq a b"

definition v3_add_assign :: "ivector3 \<Rightarrow> ivector3 \<Rightarrow> ivector3 res" where
  "v3_add_assign a b =
     (case ck (v3x a + v3x b) of
        Inl e \<Rightarrow> Inl e
      | Inr x \<Rightarrow> (case ck (v3y a + v3y b) of
        Inl e \<Rightarrow> Inl e
      | Inr y \<Rightarrow> (case ck (v3z a + v3z b) of Inl e \<Rightarrow> Inl e | Inr z \<Rightarrow> Inr (a\<lparr>v3x := x, v3y := y, v3z := z\<rparr>))))"

definition v3_sub_assign :: "ivector3 \<Rightarrow> ivector3 \<Rightarrow> ivector3 res" where
  "v3_sub_assign a b =
     (case ck (v3x a - v3x b) of
        Inl e \<Rightarrow> Inl e
      | Inr x \<Rightarrow> (case ck (v3y a - v3y b) of
        Inl e \<Rightarrow> Inl e
      | Inr y \<Rightarrow> (case ck (v3z a - v3z b) of Inl e \<Rightarrow> Inl e | Inr z \<Rightarrow> Inr (a\<lparr>v3x := x, v3y := y, v3z := z\<rparr>))))"

text \<open>A difference of two products, each of which has to fit as well.\<close>

definition det2 :: "int \<Rightarrow> int \<Rightarrow> int \<Rightarrow> int \<Rightarrow> int res" where
  "det2 a b c d = (if fits 32 (a * b) \<and> fits 32 (c * d) then ck (a * b - c * d) else ub)"

definition v3_cross :: "ivector3 \<Rightarrow> ivector3 \<Rightarrow> ivector3 res" where
  "v3_cross a b =
     mk3 (det2 (v3y a) (v3z b) (v3z a) (v3y b)) (det2 (v3z a) (v3x b) (v3x a) (v3z b))
       (det2 (v3x a) (v3y b) (v3y a) (v3x b))"

section \<open>Facts about the vectors\<close>

text \<open>The exact inner products, as mathematical integers.\<close>

definition inner2 :: "ivector2 \<Rightarrow> ivector2 \<Rightarrow> int" where
  "inner2 a b = v2x a * v2x b + v2y a * v2y b"

definition inner3 :: "ivector3 \<Rightarrow> ivector3 \<Rightarrow> int" where
  "inner3 a b = v3x a * v3x b + v3y a * v3y b + v3z a * v3z b"

lemma mk2_Inr: "mk2 a b = Inr v \<longleftrightarrow> a = Inr (v2x v) \<and> b = Inr (v2y v)"
  by (cases v) (auto simp: mk2_def split: sum.splits)

lemma mk3_Inr: "mk3 a b c = Inr v \<longleftrightarrow> a = Inr (v3x v) \<and> b = Inr (v3y v) \<and> c = Inr (v3z v)"
  by (cases v) (auto simp: mk3_def split: sum.splits)

lemma ck_Inr: "ck i = Inr j \<longleftrightarrow> fits 32 i \<and> j = i"
  by (auto simp: ck_def)

lemma det2_Inr: "det2 a b c d = Inr j \<Longrightarrow> j = a * b - c * d"
  by (auto simp: det2_def ck_def split: if_splits)

lemma sdiv_mult_self:
  assumes "b \<noteq> 0"
  shows "(a * b) sdiv b = (a :: int)"
proof -
  have "\<bar>a * b\<bar> div \<bar>b\<bar> = \<bar>a\<bar>"
    using assms by (simp add: abs_mult)
  then show ?thesis
    using assms by (auto simp: signed_divide_int_def sgn_if zero_less_mult_iff)
qed

lemma assign_eq:
  "v2_add_assign u v = v2_add u v" "v2_sub_assign u v = v2_sub u v"
  "v3_add_assign a b = v3_add a b" "v3_sub_assign a b = v3_sub a b"
  by (simp_all add: v2_add_assign_def v2_sub_assign_def v3_add_assign_def v3_sub_assign_def v2_add_def
      v2_sub_def v3_add_def v3_sub_def mk2_def mk3_def split: sum.split)

section \<open>Properties\<close>

lemma word_of_int_inj:
  assumes "fits 64 i" and "fits 64 j" and "(word_of_int i :: 64 word) = word_of_int j"
  shows "i = j"
proof -
  have "sint (word_of_int i :: 64 word) = i" "sint (word_of_int j :: 64 word) = j"
    using assms(1,2) by (simp_all add: fits_def sint_sbintrunc' signed_take_bit_int_eq_self)
  then show ?thesis using assms(3) by metis
qed

lemma lattice_points:
  "x * 7 - y * 13 = x' * 7 - y' * 13 \<longleftrightarrow> (\<exists>k. x' = x + 13 * k \<and> y' = y + 7 * k)" for x y x' y' :: int
proof
  assume "x * 7 - y * 13 = x' * 7 - y' * 13"
  then show "\<exists>k. x' = x + 13 * k \<and> y' = y + 7 * k"
    by (intro exI[of _ "2 * (y' - y) - (x' - x)"] conjI) (simp_all add: algebra_simps)
qed auto

lemma xor_cancel: "(s XOR v :: 64 word) = s XOR w \<longleftrightarrow> v = w"
proof
  assume "s XOR v = s XOR w"
  then have "s XOR (s XOR v) = s XOR (s XOR w)" by simp
  then show "v = w" by (simp flip: xor.assoc)
qed simp

lemma cross_components:
  assumes "v3_cross a b = Inr c"
  shows "v3x c = v3y a * v3z b - v3z a * v3y b" and "v3y c = v3z a * v3x b - v3x a * v3z b"
    and "v3z c = v3x a * v3y b - v3y a * v3x b"
  using assms by (auto simp: v3_cross_def mk3_Inr dest!: det2_Inr)

text \<open>
  C40. The generator depends on the seed and on \<open>7 x - 13 y\<close> only. Wherever the products do not
  overflow, two coordinates get the same number, for every seed and every injective hash, exactly
  when they differ by a multiple of \<open>(13, 7)\<close>.
\<close>

theorem random2D_collisions:
  assumes "inj hash" and "rg_call hash g x y = Inr a" and "rg_call hash g x' y' = Inr b"
  shows "a = b \<longleftrightarrow> (\<exists>k. sint x' = sint x + 13 * k \<and> sint y' = sint y + 7 * k)"
proof -
  let ?d = "sint x * 7 - sint y * 13" and ?d' = "sint x' * 7 - sint y' * 13"
  have fit: "fits 64 ?d" "fits 64 ?d'" and ab: "a = hash (rg_seed g XOR word_of_int ?d)"
      "b = hash (rg_seed g XOR word_of_int ?d')"
    using assms(2,3) by (auto simp: rg_call_def split: if_splits)
  have "a = b \<longleftrightarrow> (word_of_int ?d :: 64 word) = word_of_int ?d'"
    unfolding ab inj_eq[OF assms(1)] by (rule xor_cancel)
  also have "\<dots> \<longleftrightarrow> ?d = ?d'"
    using word_of_int_inj[OF fit] by metis
  also have "\<dots> \<longleftrightarrow> (\<exists>k. sint x' = sint x + 13 * k \<and> sint y' = sint y + 7 * k)"
    by (rule lattice_points)
  finally show ?thesis .
qed

theorem random2D_collisions_witness:
  "rg_call id (rg_new 42) 10 20 = rg_call id (rg_new 42) 23 27"
proof -
  have a: "rg_call id (rg_new 42) 10 20 = Inr (42 XOR word_of_int (- 190))"
    and b: "rg_call id (rg_new 42) 23 27 = Inr (42 XOR word_of_int (- 190))"
    by (simp_all add: rg_call_def rg_new_def fits_def)
  have "(42 XOR word_of_int (- 190) :: 64 word) = 42 XOR word_of_int (- 190) \<longleftrightarrow>
      (\<exists>k. sint (23 :: 64 word) = sint (10 :: 64 word) + 13 * k \<and> sint (27 :: 64 word) = sint (20 :: 64 word) + 7 * k)"
    by (rule random2D_collisions[OF _ a b]) simp
  then show ?thesis using a b by simp
qed

text \<open>
  The vectors, for \<open>int\<close> components without overflow: the three-dimensional cross product is
  orthogonal to both factors and changes sign with their order, \<open>cross()\<close> of a plane vector is
  orthogonal to it, subtraction undoes addition, also in place, division undoes multiplication and
  throws exactly when a component of the divisor is zero.
\<close>

theorem vector_algebra:
  shows "(v3_cross a b = Inr c \<longrightarrow> inner3 a c = 0 \<and> inner3 b c = 0) \<and>
    (v3_cross a b = Inr c \<longrightarrow> v3_cross b a = Inr d \<longrightarrow> v3x d = - v3x c \<and> v3y d = - v3y c \<and> v3z d = - v3z c) \<and>
    (v2_perp u = Inr p \<longrightarrow> inner2 u p = 0) \<and>
    (fits 32 (v2x u) \<and> fits 32 (v2y u) \<longrightarrow> v2_add u v = Inr w \<longrightarrow> v2_sub w v = Inr u) \<and>
    (fits 32 (v2x u) \<and> fits 32 (v2y u) \<longrightarrow> v2x v \<noteq> 0 \<and> v2y v \<noteq> 0 \<longrightarrow> v2_mul u v = Inr w \<longrightarrow> v2_div w v = Inr u) \<and>
    (fits 32 (v3x a) \<and> fits 32 (v3y a) \<and> fits 32 (v3z a) \<longrightarrow> v3_add_assign a b = Inr c \<longrightarrow> v3_sub_assign c b = Inr a) \<and>
    ((\<exists>e. v2_div u v = throw e) \<longleftrightarrow> v2x v = 0 \<or> v2y v = 0) \<and> (v2_neq u v \<longleftrightarrow> u \<noteq> v) \<and> (v3_neq a b \<longleftrightarrow> a \<noteq> b)"
proof (intro conjI impI)
  show "inner3 a c = 0" "inner3 b c = 0" if "v3_cross a b = Inr c"
    by (simp_all add: inner3_def cross_components[OF that] algebra_simps)
  show "v3x d = - v3x c" "v3y d = - v3y c" "v3z d = - v3z c" if "v3_cross a b = Inr c" "v3_cross b a = Inr d"
    by (simp_all add: cross_components[OF that(1)] cross_components[OF that(2)])
  show "inner2 u p = 0" if "v2_perp u = Inr p"
    using that by (auto simp: v2_perp_def mk2_Inr ck_Inr inner2_def)
  show "v2_sub w v = Inr u" if "fits 32 (v2x u) \<and> fits 32 (v2y u)" "v2_add u v = Inr w"
    using that by (auto simp: v2_add_def v2_sub_def mk2_Inr ck_Inr)
  show "v2_div w v = Inr u"
    if "fits 32 (v2x u) \<and> fits 32 (v2y u)" "v2x v \<noteq> 0 \<and> v2y v \<noteq> 0" "v2_mul u v = Inr w"
    using that by (auto simp: v2_mul_def v2_div_def mk2_Inr ck_Inr sdiv_mult_self)
  show "v3_sub_assign c b = Inr a"
    if "fits 32 (v3x a) \<and> fits 32 (v3y a) \<and> fits 32 (v3z a)" "v3_add_assign a b = Inr c"
    using that by (auto simp: assign_eq v3_add_def v3_sub_def mk3_Inr ck_Inr)
  show "v2_neq u v \<longleftrightarrow> u \<noteq> v"
    by (cases u; cases v) (simp add: v2_neq_def v2_eq_def)
  show "v3_neq a b \<longleftrightarrow> a \<noteq> b"
    by (cases a; cases b) (simp add: v3_neq_def v3_eq_def)
  show "(\<exists>e. v2_div u v = throw e) \<longleftrightarrow> v2x v = 0 \<or> v2y v = 0"
    by (auto simp: v2_div_def mk2_def ck_def)
qed

theorem vector_algebra_witness:
  "v3_cross \<lparr>v3x = 1, v3y = 2, v3z = 3\<rparr> \<lparr>v3x = 4, v3y = 5, v3z = 6\<rparr> = Inr \<lparr>v3x = -3, v3y = 6, v3z = -3\<rparr> \<and>
   inner3 \<lparr>v3x = 1, v3y = 2, v3z = 3\<rparr> \<lparr>v3x = -3, v3y = 6, v3z = -3\<rparr> = 0"
proof -
  have c: "v3_cross \<lparr>v3x = 1, v3y = 2, v3z = 3\<rparr> \<lparr>v3x = 4, v3y = 5, v3z = 6\<rparr> = Inr \<lparr>v3x = -3, v3y = 6, v3z = -3\<rparr>"
    by (simp add: v3_cross_def mk3_def det2_def ck_def fits_def)
  with vector_algebra[of "\<lparr>v3x = 1, v3y = 2, v3z = 3\<rparr>" "\<lparr>v3x = 4, v3y = 5, v3z = 6\<rparr>"
      "\<lparr>v3x = -3, v3y = 6, v3z = -3\<rparr>"] show ?thesis by simp
qed

end
