(* ===== verification/Vector_Float.thy ===== *)
theory Vector_Float
  imports Floating Mathematics
begin

text \<open>
  The members of \<open>IVector2\<close> and \<open>IVector3\<close> (\<^verbatim>\<open>src/src/mathematics/IVector2\<close>, \<^verbatim>\<open>IVector3\<close>) that return or use
  \<^verbatim>\<open>float\<close>, for \<open>TType = int\<close>, and the two operations of \<open>IVector2<float>\<close> that the noise generator
  uses; the others are in \<open>Vector_Single\<close>. \<^verbatim>\<open>std::hypot\<close> is code of the C library and an argument; \<^verbatim>\<open>sqrt\<close> rounds correctly.
\<close>

section \<open>Operations\<close>

fun fl_sqrt :: "fp \<Rightarrow> fp" where
  "fl_sqrt (Fin x) = (if x < 0 then NaN else rnd binary64 (sqrt x))"
| "fl_sqrt (Inf s) = (if s then NaN else Inf False)"
| "fl_sqrt NaN = NaN"

definition v2_length :: "(fp \<Rightarrow> fp \<Rightarrow> fp) \<Rightarrow> ivector2 \<Rightarrow> fp" where
  "v2_length hypot a = fl_cvt binary32 (hypot (fl_of_int binary64 (v2x a)) (fl_of_int binary64 (v2y a)))"

definition v2_normalize :: "(fp \<Rightarrow> fp \<Rightarrow> fp) \<Rightarrow> ivector2 \<Rightarrow> ivector2 res" where
  "v2_normalize hypot a =
     (let len = v2_length hypot a
      in if len = Fin 0 then throw (Invalid_argument ''Cannot normalized zero vector'')
         else mk2 (fl_to_int (fdiv binary32 (fl_of_int binary32 (v2x a)) len))
                (fl_to_int (fdiv binary32 (fl_of_int binary32 (v2y a)) len)))"

text \<open>Sums of products of type \<open>int\<close>, converted to \<^verbatim>\<open>float\<close>.\<close>

definition ck_float :: "int res \<Rightarrow> fp res" where
  "ck_float r = map_sum id (fl_of_int binary32) r"

definition sum2 :: "int \<Rightarrow> int \<Rightarrow> int res" where
  "sum2 p q = (if fits 32 p \<and> fits 32 q then ck (p + q) else ub)"

definition sum3 :: "int \<Rightarrow> int \<Rightarrow> int \<Rightarrow> int res" where
  "sum3 p q r = (case sum2 p q of Inl e \<Rightarrow> Inl e | Inr s \<Rightarrow> if fits 32 r then ck (s + r) else ub)"

definition v2_dot_self :: "ivector2 \<Rightarrow> fp res" where
  "v2_dot_self a = ck_float (sum2 (v2x a * v2x a) (v2y a * v2y a))"

definition v2_dot :: "ivector2 \<Rightarrow> ivector2 \<Rightarrow> fp res" where
  "v2_dot a b = ck_float (sum2 (v2x a * v2x b) (v2y a * v2y b))"

definition v2_cross :: "ivector2 \<Rightarrow> ivector2 \<Rightarrow> fp res" where
  "v2_cross a b = ck_float (det2 (v2x a) (v2y b) (v2y a) (v2x b))"

definition v3_length :: "ivector3 \<Rightarrow> fp res" where
  "v3_length a =
     map_sum id (\<lambda>s. fl_cvt binary32 (fl_sqrt (fl_of_int binary64 s)))
       (sum3 (v3x a * v3x a) (v3y a * v3y a) (v3z a * v3z a))"

definition v3_normalize :: "ivector3 \<Rightarrow> ivector3 res" where
  "v3_normalize a =
     (case v3_length a of
        Inl e \<Rightarrow> Inl e
      | Inr len \<Rightarrow>
          (if len = Fin 0 then throw (Invalid_argument ''Cannot normalized zero vector'')
           else mk3 (fl_to_int (fdiv binary32 (fl_of_int binary32 (v3x a)) len))
                  (fl_to_int (fdiv binary32 (fl_of_int binary32 (v3y a)) len))
                  (fl_to_int (fdiv binary32 (fl_of_int binary32 (v3z a)) len))))"

definition v3_dot_self :: "ivector3 \<Rightarrow> fp res" where
  "v3_dot_self a = ck_float (sum3 (v3x a * v3x a) (v3y a * v3y a) (v3z a * v3z a))"

definition v3_dot :: "ivector3 \<Rightarrow> ivector3 \<Rightarrow> fp res" where
  "v3_dot a b = ck_float (sum3 (v3x a * v3x b) (v3y a * v3y b) (v3z a * v3z b))"

text \<open>\<open>IVector2<float>\<close>.\<close>

record fvector2 =
  f2x :: fp
  f2y :: fp

definition f2_sub_assign :: "fvector2 \<Rightarrow> fvector2 \<Rightarrow> fvector2" where
  "f2_sub_assign a b = a\<lparr>f2x := fsub binary32 (f2x a) (f2x b), f2y := fsub binary32 (f2y a) (f2y b)\<rparr>"

definition f2_dot :: "fvector2 \<Rightarrow> fvector2 \<Rightarrow> fp" where
  "f2_dot a b = fadd binary32 (fmul binary32 (f2x a) (f2x b)) (fmul binary32 (f2y a) (f2y b))"

section \<open>Rounding of machine integers\<close>

lemma int64_exact: "fits 32 i \<Longrightarrow> fl_of_int binary64 i = Fin (of_int i)"
  unfolding fl_of_int_def by (rule rnd_int[OF formats_wf(2)]) (auto simp: fits_def binary64_def)

lemma int32_near:
  assumes "fits 32 i"
  obtains y where "fl_of_int binary32 i = Fin y" and "\<bar>y - of_int i\<bar> \<le> \<bar>of_int i\<bar> / 2 ^ 24"
proof -
  have "\<bar>real_of_int i\<bar> \<le> 2 powi 31"
    using assms by (auto simp: fits_def power_int_def abs_le_iff)
  then obtain y where y: "rnd binary32 (of_int i) = Fin y"
    by (rule rnd_bound[OF formats_wf(1)]) (simp_all add: fm_emin_def binary32_def)
  show thesis
  proof (cases "i = 0")
    case True
    then show thesis using that by (simp add: fl_of_int_def)
  next
    case False
    then have "1 \<le> \<bar>real_of_int i\<bar>"
      by linarith
    then have "\<bar>y - of_int i\<bar> \<le> \<bar>of_int i\<bar> / 2 ^ fm_prec binary32"
      using powi_emin_le_1[OF formats_wf(1)] by (intro rnd_relative[OF y]) linarith
    then show thesis
      using that y by (simp add: fl_of_int_def binary32_def)
  qed
qed

text \<open>A component divided by the length, when the length is known up to its rounding.\<close>

lemma small_quotient:
  assumes "\<bar>r\<bar> \<le> 3 / 2"
  obtains q where "rnd binary32 r = Fin q" and "\<bar>q\<bar> \<le> \<bar>r\<bar> + 1 / 2 ^ 24" and "\<bar>q - r\<bar> \<le> 1 / 2 ^ 24"
proof -
  have "\<bar>r\<bar> \<le> 2 powi 1"
    using assms by simp
  then obtain q where q: "rnd binary32 r = Fin q"
    by (rule rnd_bound[OF formats_wf(1)]) (simp_all add: fm_emin_def binary32_def)
  have "fexp binary32 r < 1"
    using assms by (intro fexp_less) (simp_all add: fm_emin_def binary32_def)
  then have "ulp binary32 r \<le> 2 powi (- 23)"
    unfolding ulp_def by (intro power_int_increasing) (simp_all add: binary32_def)
  then have near: "\<bar>q - r\<bar> \<le> 1 / 2 ^ 24"
    using rnd_error[OF q] by (simp add: power_int_minus field_simps)
  then have "\<bar>q\<bar> \<le> \<bar>r\<bar> + 1 / 2 ^ 24"
    by linarith
  with q show thesis
    using near by (rule that)
qed

lemma component_quotient:
  assumes "fits 32 i" and "\<bar>len - L\<bar> \<le> L / 2 ^ 22" and "1 \<le> L" and "\<bar>of_int i\<bar> \<le> L"
  obtains q where "fdiv binary32 (fl_of_int binary32 i) (Fin len) = Fin q" and "\<bar>q\<bar> < 2"
    and "\<bar>of_int i\<bar> \<le> L * (1 - 1 / 2 ^ 14) \<Longrightarrow> \<bar>q\<bar> < 1"
proof -
  obtain y where y: "fl_of_int binary32 i = Fin y" "\<bar>y - of_int i\<bar> \<le> \<bar>of_int i\<bar> / 2 ^ 24"
    using assms(1) by (rule int32_near)
  have "L - len \<le> L / 2 ^ 22"
    using assms(2) by linarith
  then have len: "L * (1 - 1 / 2 ^ 22) \<le> len" "0 < len"
    using assms(3) by (simp_all add: field_simps)
  have quot: "\<bar>y / len\<bar> \<le> c * (1 + 1 / 2 ^ 20)" if "\<bar>of_int i\<bar> \<le> L * c" "0 \<le> c" for c
  proof -
    have "\<bar>y\<bar> \<le> \<bar>of_int i\<bar> + \<bar>y - of_int i\<bar>"
      by linarith
    also have "\<dots> \<le> \<bar>of_int i\<bar> * (1 + 1 / 2 ^ 24)"
      using y(2) unfolding distrib_left by simp
    also have "\<dots> \<le> L * c * (1 + 1 / 2 ^ 24)"
      using that(1) by (rule mult_right_mono) simp
    also have "\<dots> \<le> c * (1 + 1 / 2 ^ 20) * (L * (1 - 1 / 2 ^ 22))"
      using mult_nonneg_nonneg[OF order_trans[OF zero_le_one assms(3)] that(2)] by (simp add: field_simps)
    also have "\<dots> \<le> c * (1 + 1 / 2 ^ 20) * len"
      using len(1) that(2) by (intro mult_left_mono) simp_all
    finally show ?thesis
      using len(2) by (simp add: abs_divide pos_divide_le_eq)
  qed
  have "\<bar>y / len\<bar> \<le> 1 * (1 + 1 / 2 ^ 20)"
    by (rule quot) (use assms(4) in simp_all)
  also have "\<dots> \<le> 3 / 2"
    by simp
  finally have small: "\<bar>y / len\<bar> \<le> 3 / 2" .
  then obtain q where q: "rnd binary32 (y / len) = Fin q" "\<bar>q\<bar> \<le> \<bar>y / len\<bar> + 1 / 2 ^ 24"
    using small_quotient by blast
  show thesis
  proof (rule that)
    show "fdiv binary32 (fl_of_int binary32 i) (Fin len) = Fin q"
      using y(1) q(1) len(2) by simp
    show "\<bar>q\<bar> < 2"
      by (rule order_le_less_trans[OF order_trans[OF q(2) add_right_mono[OF small]]]) simp
    show "\<bar>q\<bar> < 1" if "\<bar>of_int i\<bar> \<le> L * (1 - 1 / 2 ^ 14)"
    proof -
      have "\<bar>y / len\<bar> \<le> (1 - 1 / 2 ^ 14) * (1 + 1 / 2 ^ 20)"
        by (rule quot[OF that]) simp
      from order_trans[OF q(2) add_right_mono[OF this]] show ?thesis
        by (rule order_le_less_trans) simp
    qed
  qed
qed

lemma trunc_small:
  assumes "\<bar>q\<bar> < 2"
  obtains t where "fl_to_int (Fin q) = Inr t" and "t \<in> {-1, 0, 1}" and "\<bar>q\<bar> < 1 \<Longrightarrow> t = 0"
proof -
  have t: "trunc q \<in> {-1, 0, 1}"
    using assms by (auto simp: trunc_def abs_less_iff floor_less_iff) linarith+
  moreover have "trunc q = 0" if "\<bar>q\<bar> < 1"
    using that by (auto simp: trunc_def abs_less_iff floor_eq_iff ceiling_eq_iff)
  ultimately show thesis
    by (intro that[of "trunc q"]) auto
qed

lemma int_component:
  assumes "fits 32 i" and "\<bar>len - L\<bar> \<le> L / 2 ^ 22" and "1 \<le> L" and "\<bar>of_int i\<bar> \<le> L"
  obtains t where "fl_to_int (fdiv binary32 (fl_of_int binary32 i) (Fin len)) = Inr t" and "t \<in> {-1, 0, 1}"
    and "\<bar>of_int i\<bar> \<le> L * (1 - 1 / 2 ^ 14) \<Longrightarrow> t = 0"
proof -
  obtain q where q: "fdiv binary32 (fl_of_int binary32 i) (Fin len) = Fin q" "\<bar>q\<bar> < 2"
      "\<bar>of_int i\<bar> \<le> L * (1 - 1 / 2 ^ 14) \<Longrightarrow> \<bar>q\<bar> < 1"
    using component_quotient[OF assms] by blast
  obtain t where "fl_to_int (Fin q) = Inr t" "t \<in> {-1, 0, 1}" "\<bar>q\<bar> < 1 \<Longrightarrow> t = 0"
    using trunc_small[OF q(2)] by blast
  then show thesis
    using that q by metis
qed

text \<open>A length computed in double precision and rounded to single.\<close>

lemma float_length:
  assumes "\<bar>h - L\<bar> \<le> L / 2 ^ 30" and "1 \<le> L" and "L \<le> 2 ^ 32"
  obtains len where "fl_cvt binary32 (Fin h) = Fin len" and "\<bar>len - L\<bar> \<le> L / 2 ^ 22"
proof -
  have "L / 2 ^ 30 \<le> L / 4"
    using assms(2) by simp
  then have h: "1 / 2 \<le> \<bar>h\<bar>" "\<bar>h\<bar> \<le> 2 * L"
    using assms(1,2) by linarith+
  then have "\<bar>h\<bar> \<le> 2 powi 33"
    using assms(3) by (simp add: power_int_def)
  then obtain len where len: "rnd binary32 h = Fin len"
    by (rule rnd_bound[OF formats_wf(1)]) (simp_all add: fm_emin_def binary32_def)
  have "2 powi fm_emin binary32 \<le> (1 / 2 :: real)"
    using power_int_increasing[of "fm_emin binary32" "- 1" "2 :: real"]
    by (simp add: fm_emin_def binary32_def power_int_minus)
  then have "\<bar>len - h\<bar> \<le> \<bar>h\<bar> / 2 ^ 24"
    using rnd_relative[OF len] h(1) by (simp add: binary32_def)
  also have "\<dots> \<le> 2 * L / 2 ^ 24"
    using h(2) by simp
  finally have "\<bar>len - L\<bar> \<le> 2 * L / 2 ^ 24 + L / 2 ^ 30"
    using assms(1) by linarith
  also have "\<dots> \<le> L / 2 ^ 22"
    using assms(2) by simp
  finally have "\<bar>len - L\<bar> \<le> L / 2 ^ 22" .
  then show thesis
    using that len by simp
qed

section \<open>Lengths of integer vectors\<close>

lemma fits_square:
  assumes "fits 32 i"
  shows "0 \<le> i * i" and "i * i \<le> 2 ^ 62"
proof -
  have "\<bar>i\<bar> * \<bar>i\<bar> \<le> 2 ^ 31 * 2 ^ 31"
    using assms by (intro mult_mono) (auto simp: fits_def)
  then show "i * i \<le> 2 ^ 62"
    by simp
qed simp

lemma int_sqrt_ge_1: "0 < n \<Longrightarrow> 1 \<le> sqrt (of_int n)"
  by simp

lemma int_sqrt_range:
  "0 \<le> n \<Longrightarrow> n \<noteq> 0 \<Longrightarrow> 1 \<le> sqrt (of_int n)"
  "n \<le> 2 ^ 62 + 2 ^ 62 \<Longrightarrow> sqrt (of_int n) \<le> 2 ^ 32"
proof -
  show "0 \<le> n \<Longrightarrow> n \<noteq> 0 \<Longrightarrow> 1 \<le> sqrt (of_int n)"
    by (intro int_sqrt_ge_1) simp
  assume "n \<le> 2 ^ 62 + 2 ^ 62"
  then have "real_of_int n \<le> of_int (2 ^ 64)"
    by (simp only: of_int_le_iff) simp
  then show "sqrt (of_int n) \<le> 2 ^ 32"
    by (intro real_le_lsqrt) (simp_all)
qed

lemma component_le_sqrt: "0 \<le> s \<Longrightarrow> \<bar>of_int i\<bar> \<le> sqrt (of_int (i * i + s))"
  by (intro real_le_rsqrt) (simp add: power2_eq_square)

text \<open>A component that the others reach up to a factor of 64 is well below the length.\<close>

lemma component_small:
  assumes "i * i \<le> 4096 * s"
  shows "\<bar>of_int i\<bar> \<le> sqrt (of_int (i * i + s)) * (1 - 1 / 2 ^ 14)"
proof -
  have arith: "X \<le> (X + S) * (1 - 1 / 2 ^ 14)\<^sup>2" if "X \<le> 4096 * S" "0 \<le> S" for X S :: real
    using that by (simp add: power2_eq_square field_simps)
  have "0 \<le> s"
    using assms zero_le_square[of i] by linarith
  moreover have "real_of_int (i * i) \<le> of_int (4096 * s)"
    using assms by (simp only: of_int_le_iff)
  ultimately have "real_of_int (i * i) \<le> (of_int (i * i) + of_int s) * (1 - 1 / 2 ^ 14)\<^sup>2"
    by (intro arith) simp_all
  then have "(of_int i)\<^sup>2 \<le> (of_int (i * i + s) :: real) * (1 - 1 / 2 ^ 14)\<^sup>2"
    by (simp only: of_int_add of_int_mult power2_eq_square)
  then have "\<bar>of_int i\<bar> \<le> sqrt (of_int (i * i + s) * (1 - 1 / 2 ^ 14)\<^sup>2)"
    by (intro real_le_rsqrt) simp
  then show ?thesis
    by (simp add: real_sqrt_mult)
qed

lemma abs_64_square: "\<bar>i\<bar> \<le> 64 * \<bar>j\<bar> \<Longrightarrow> i * i \<le> 4096 * (j * j)" for i j :: int
  using mult_mono[of "\<bar>i\<bar>" "64 * \<bar>j\<bar>" "\<bar>i\<bar>" "64 * \<bar>j\<bar>"] by simp

section \<open>The C library's hypot\<close>

text \<open>
  What is asked of \<^verbatim>\<open>hypot\<close>: the length of a vector of machine integers up to a relative error, which is
  far larger than the one unit in the last place that the documentation of the GNU C library states.
\<close>

locale hypot_lib =
  fixes hypot :: "fp \<Rightarrow> fp \<Rightarrow> fp"
  assumes hypot_near: "fits 32 i \<Longrightarrow> fits 32 j \<Longrightarrow>
    \<exists>h. hypot (Fin (of_int i)) (Fin (of_int j)) = Fin h \<and>
      \<bar>h - sqrt (of_int (i * i + j * j))\<bar> \<le> sqrt (of_int (i * i + j * j)) / 2 ^ 30"
begin

lemma length_near:
  assumes "fits 32 (v2x a)" and "fits 32 (v2y a)" and "inner2 a a \<noteq> 0"
  obtains len where "v2_length hypot a = Fin len"
    and "\<bar>len - sqrt (of_int (inner2 a a))\<bar> \<le> sqrt (of_int (inner2 a a)) / 2 ^ 22"
proof -
  obtain h where h: "hypot (Fin (of_int (v2x a))) (Fin (of_int (v2y a))) = Fin h"
      "\<bar>h - sqrt (of_int (inner2 a a))\<bar> \<le> sqrt (of_int (inner2 a a)) / 2 ^ 30"
    using hypot_near[OF assms(1,2)] by (auto simp: inner2_def)
  have "0 \<le> inner2 a a" "inner2 a a \<le> 2 ^ 62 + 2 ^ 62"
    using fits_square[OF assms(1)] fits_square[OF assms(2)] by (auto simp: inner2_def)
  then have "1 \<le> sqrt (of_int (inner2 a a))" "sqrt (of_int (inner2 a a)) \<le> 2 ^ 32"
    using assms(3) int_sqrt_range[of "inner2 a a"] by blast+
  with h(2) obtain len where "fl_cvt binary32 (Fin h) = Fin len"
      "\<bar>len - sqrt (of_int (inner2 a a))\<bar> \<le> sqrt (of_int (inner2 a a)) / 2 ^ 22"
    by (rule float_length)
  then show thesis
    using that h(1) by (simp add: v2_length_def int64_exact assms(1,2))
qed

lemma length_zero: "v2x a = 0 \<Longrightarrow> v2y a = 0 \<Longrightarrow> v2_length hypot a = Fin 0"
  using hypot_near[of 0 0] by (auto simp: v2_length_def fl_of_int_def fits_def)

lemma normalize_cases:
  assumes "fits 32 (v2x a)" and "fits 32 (v2y a)" and "inner2 a a \<noteq> 0"
  obtains u where "v2_normalize hypot a = Inr u" and "v2x u \<in> {-1, 0, 1}" and "v2y u \<in> {-1, 0, 1}"
    and "\<bar>v2x a\<bar> \<le> 64 * \<bar>v2y a\<bar> \<Longrightarrow> v2x u = 0" and "\<bar>v2y a\<bar> \<le> 64 * \<bar>v2x a\<bar> \<Longrightarrow> v2y u = 0"
proof -
  let ?L = "sqrt (of_int (inner2 a a))"
  obtain len where len: "v2_length hypot a = Fin len" "\<bar>len - ?L\<bar> \<le> ?L / 2 ^ 22"
    using assms by (rule length_near)
  have "0 \<le> inner2 a a"
    by (simp add: inner2_def)
  then have L: "1 \<le> ?L" "\<bar>of_int (v2x a)\<bar> \<le> ?L" "\<bar>of_int (v2y a)\<bar> \<le> ?L"
    using assms(3) int_sqrt_range(1)[of "inner2 a a"] component_le_sqrt[of "v2y a * v2y a" "v2x a"]
      component_le_sqrt[of "v2x a * v2x a" "v2y a"]
    by (simp_all add: inner2_def add.commute)
  obtain s where s: "fl_to_int (fdiv binary32 (fl_of_int binary32 (v2x a)) (Fin len)) = Inr s" "s \<in> {-1, 0, 1}"
      "\<bar>of_int (v2x a)\<bar> \<le> ?L * (1 - 1 / 2 ^ 14) \<Longrightarrow> s = 0"
    using int_component[OF assms(1) len(2) L(1,2)] by blast
  obtain t where t: "fl_to_int (fdiv binary32 (fl_of_int binary32 (v2y a)) (Fin len)) = Inr t" "t \<in> {-1, 0, 1}"
      "\<bar>of_int (v2y a)\<bar> \<le> ?L * (1 - 1 / 2 ^ 14) \<Longrightarrow> t = 0"
    using int_component[OF assms(2) len(2) L(1,3)] by blast
  have "len \<noteq> 0"
    using len(2) L(1) by (auto simp: field_simps)
  then have "v2_normalize hypot a = Inr \<lparr>v2x = s, v2y = t\<rparr>"
    using s(1) t(1) len(1) by (simp add: v2_normalize_def Let_def mk2_def)
  moreover have "s = 0" if "\<bar>v2x a\<bar> \<le> 64 * \<bar>v2y a\<bar>"
    using component_small[OF abs_64_square[OF that]] unfolding inner2_def[symmetric] by (rule s(3))
  moreover have "t = 0" if "\<bar>v2y a\<bar> \<le> 64 * \<bar>v2x a\<bar>"
    using component_small[OF abs_64_square[OF that]] unfolding add.commute[of "v2y a * v2y a"] inner2_def[symmetric]
    by (rule t(3))
  ultimately show thesis
    using s(2) t(2) by (intro that[of "\<lparr>v2x = s, v2y = t\<rparr>"]) simp_all
qed

end

text \<open>The correctly rounded function is one such \<^verbatim>\<open>hypot\<close>.\<close>

fun hypot_cr :: "fp \<Rightarrow> fp \<Rightarrow> fp" where
  "hypot_cr (Fin x) (Fin y) = rnd binary64 (sqrt (x\<^sup>2 + y\<^sup>2))"
| "hypot_cr (Inf s) _ = Inf False"
| "hypot_cr _ (Inf t) = Inf False"
| "hypot_cr _ _ = NaN"

lemma rnd64_sqrt:
  assumes "0 \<le> n" and "n \<le> 2 ^ 62 + 2 ^ 62"
  obtains h where "rnd binary64 (sqrt (of_int n)) = Fin h"
    and "\<bar>h - sqrt (of_int n)\<bar> \<le> sqrt (of_int n) / 2 ^ 30"
proof (cases "n = 0")
  case True
  then show thesis using that by simp
next
  case False
  have range: "1 \<le> sqrt (of_int n)" "sqrt (of_int n) \<le> 2 ^ 32"
    using int_sqrt_range[of n] assms False by blast+
  then have "\<bar>sqrt (of_int n)\<bar> \<le> 2 powi 32"
    by (simp add: power_int_def)
  then obtain h where h: "rnd binary64 (sqrt (of_int n)) = Fin h"
    by (rule rnd_bound[OF formats_wf(2)]) (simp_all add: fm_emin_def binary64_def)
  have "\<bar>h - sqrt (of_int n)\<bar> \<le> \<bar>sqrt (of_int n)\<bar> / 2 ^ fm_prec binary64"
    using powi_emin_le_1[OF formats_wf(2)] range(1) by (intro rnd_relative[OF h]) linarith
  also have "\<dots> \<le> sqrt (of_int n) / 2 ^ 30"
    using range(1) by (simp add: binary64_def)
  finally show thesis
    using that h by blast
qed

interpretation hypot_cr: hypot_lib hypot_cr
proof
  fix i j
  assume fits: "fits 32 i" "fits 32 j"
  have "0 \<le> i * i + j * j" "i * i + j * j \<le> 2 ^ 62 + 2 ^ 62"
    using fits_square[OF fits(1)] fits_square[OF fits(2)] by linarith+
  then obtain h where "rnd binary64 (sqrt (of_int (i * i + j * j))) = Fin h"
      "\<bar>h - sqrt (of_int (i * i + j * j))\<bar> \<le> sqrt (of_int (i * i + j * j)) / 2 ^ 30"
    by (rule rnd64_sqrt)
  then show "\<exists>h. hypot_cr (Fin (of_int i)) (Fin (of_int j)) = Fin h \<and>
      \<bar>h - sqrt (of_int (i * i + j * j))\<bar> \<le> sqrt (of_int (i * i + j * j)) / 2 ^ 30"
    by (simp add: power2_eq_square)
qed

section \<open>Properties\<close>

text \<open>
  Normalising a vector of integers. It throws exactly for the zero vector; otherwise no
  conversion overflows and every component of the result is -1, 0 or 1: the quotients are cut off to
  integers. As soon as neither component exceeds the other by more than a factor of 64 the result is
  the zero vector, so \<open>(3, 4)\<close> becomes \<open>(0, 0)\<close>. The length itself is right up to a relative error of
  \<open>2 ^ -22\<close>.
\<close>

theorem vector_normalize:
  assumes "hypot_lib hypot" and "fits 32 (v2x a)" and "fits 32 (v2y a)"
  shows "(v2x a = 0 \<and> v2y a = 0 \<longrightarrow>
      v2_normalize hypot a = throw (Invalid_argument ''Cannot normalized zero vector'')) \<and>
    (\<not> (v2x a = 0 \<and> v2y a = 0) \<longrightarrow>
      (\<exists>len u. v2_length hypot a = Fin len \<and>
        \<bar>len - sqrt (of_int (inner2 a a))\<bar> \<le> sqrt (of_int (inner2 a a)) / 2 ^ 22 \<and>
        v2_normalize hypot a = Inr u \<and> v2x u \<in> {-1, 0, 1} \<and> v2y u \<in> {-1, 0, 1} \<and>
        (\<bar>v2x a\<bar> \<le> 64 * \<bar>v2y a\<bar> \<and> \<bar>v2y a\<bar> \<le> 64 * \<bar>v2x a\<bar> \<longrightarrow> u = v2_zero)))"
proof (intro conjI impI)
  show "v2_normalize hypot a = throw (Invalid_argument ''Cannot normalized zero vector'')"
    if "v2x a = 0 \<and> v2y a = 0"
    using hypot_lib.length_zero[OF assms(1)] that by (simp add: v2_normalize_def)
  assume "\<not> (v2x a = 0 \<and> v2y a = 0)"
  then have pos: "inner2 a a \<noteq> 0"
    by (simp add: inner2_def sum_squares_eq_zero_iff)
  obtain len where len: "v2_length hypot a = Fin len"
      "\<bar>len - sqrt (of_int (inner2 a a))\<bar> \<le> sqrt (of_int (inner2 a a)) / 2 ^ 22"
    using hypot_lib.length_near[OF assms pos] by blast
  obtain u where "v2_normalize hypot a = Inr u" "v2x u \<in> {-1, 0, 1}" "v2y u \<in> {-1, 0, 1}"
      "\<bar>v2x a\<bar> \<le> 64 * \<bar>v2y a\<bar> \<Longrightarrow> v2x u = 0" "\<bar>v2y a\<bar> \<le> 64 * \<bar>v2x a\<bar> \<Longrightarrow> v2y u = 0"
    using hypot_lib.normalize_cases[OF assms pos] by blast
  then show "\<exists>len u. v2_length hypot a = Fin len \<and>
        \<bar>len - sqrt (of_int (inner2 a a))\<bar> \<le> sqrt (of_int (inner2 a a)) / 2 ^ 22 \<and>
        v2_normalize hypot a = Inr u \<and> v2x u \<in> {-1, 0, 1} \<and> v2y u \<in> {-1, 0, 1} \<and>
        (\<bar>v2x a\<bar> \<le> 64 * \<bar>v2y a\<bar> \<and> \<bar>v2y a\<bar> \<le> 64 * \<bar>v2x a\<bar> \<longrightarrow> u = v2_zero)"
    using len by (intro exI[of _ len] exI[of _ u]) (auto simp: v2_zero_def intro!: ivector2.equality)
qed

theorem vector_normalize_witness:
  "v2_normalize hypot_cr \<lparr>v2x = 3, v2y = 4\<rparr> = Inr v2_zero"
  using vector_normalize[OF hypot_cr.hypot_lib_axioms, of "\<lparr>v2x = 3, v2y = 4\<rparr>"] by (auto simp: fits_def)

lemma sum2_Inr: "sum2 p q = Inr s \<Longrightarrow> s = p + q \<and> fits 32 s"
  by (auto simp: sum2_def ck_def split: if_splits)

lemma sum3_Inr: "sum3 p q r = Inr s \<Longrightarrow> s = p + q + r \<and> fits 32 s"
  by (auto simp: sum3_def ck_def dest!: sum2_Inr split: if_splits sum.splits)

lemma det2_fits: "det2 a b c d = Inr s \<Longrightarrow> s = a * b - c * d \<and> fits 32 s"
  by (auto simp: det2_def ck_def split: if_splits)

lemma ck_float_cases:
  assumes "ck_float r = Inr x"
  obtains s y where "r = Inr s" and "x = fl_of_int binary32 s"
  using assms by (cases r) (auto simp: ck_float_def)

text \<open>An integer as a \<^verbatim>\<open>float\<close>: the nearest one, the integer itself below \<open>2 ^ 24\<close>.\<close>

definition float_of :: "int \<Rightarrow> fp \<Rightarrow> bool" where
  "float_of s x \<longleftrightarrow> (\<exists>y. x = Fin y \<and> \<bar>y - of_int s\<bar> \<le> \<bar>of_int s\<bar> / 2 ^ 24 \<and> (\<bar>s\<bar> < 2 ^ 24 \<longrightarrow> y = of_int s))"

lemma float_of_int: "fits 32 s \<Longrightarrow> float_of s (fl_of_int binary32 s)"
proof -
  assume "fits 32 s"
  then obtain y where y: "fl_of_int binary32 s = Fin y" "\<bar>y - of_int s\<bar> \<le> \<bar>of_int s\<bar> / 2 ^ 24"
    by (rule int32_near)
  moreover have "fl_of_int binary32 s = Fin (of_int s)" if "\<bar>s\<bar> < 2 ^ 24"
    unfolding fl_of_int_def using that by (intro rnd_int) (simp_all, simp add: binary32_def)
  ultimately show ?thesis
    by (auto simp: float_of_def)
qed

text \<open>
  Scalar products and areas. Wherever the sums and products fit an \<open>int\<close>, the products of plane
  and space vectors are the exact integer rounded to a \<^verbatim>\<open>float\<close>, hence exact below \<open>2 ^ 24\<close>; a sum or
  product that does not fit is undefined although the result type could hold it.
\<close>

theorem vector_products:
  shows "(\<forall>x. v2_dot u v = Inr x \<longrightarrow> float_of (inner2 u v) x) \<and>
    (\<forall>x. v2_dot_self u = Inr x \<longrightarrow> float_of (inner2 u u) x) \<and>
    (\<forall>x. v2_cross u v = Inr x \<longrightarrow> float_of (v2x u * v2y v - v2y u * v2x v) x) \<and>
    (\<forall>x. v3_dot a b = Inr x \<longrightarrow> float_of (inner3 a b) x) \<and>
    (\<forall>x. v3_dot_self a = Inr x \<longrightarrow> float_of (inner3 a a) x) \<and>
    (2 ^ 31 \<le> inner2 u u \<longrightarrow> v2_dot_self u = ub)"
proof (intro conjI allI impI)
  show "float_of (inner2 u v) x" if "v2_dot u v = Inr x" for x
    using that by (auto simp: v2_dot_def inner2_def elim!: ck_float_cases dest!: sum2_Inr intro: float_of_int)
  show "float_of (inner2 u u) x" if "v2_dot_self u = Inr x" for x
    using that by (auto simp: v2_dot_self_def inner2_def elim!: ck_float_cases dest!: sum2_Inr intro: float_of_int)
  show "float_of (v2x u * v2y v - v2y u * v2x v) x" if "v2_cross u v = Inr x" for x
    using that by (auto simp: v2_cross_def elim!: ck_float_cases dest!: det2_fits intro: float_of_int)
  show "float_of (inner3 a b) x" if "v3_dot a b = Inr x" for x
    using that by (auto simp: v3_dot_def inner3_def elim!: ck_float_cases dest!: sum3_Inr intro: float_of_int)
  show "float_of (inner3 a a) x" if "v3_dot_self a = Inr x" for x
    using that by (auto simp: v3_dot_self_def inner3_def elim!: ck_float_cases dest!: sum3_Inr intro: float_of_int)
  show "v2_dot_self u = ub" if "2 ^ 31 \<le> inner2 u u"
    using that by (auto simp: v2_dot_self_def sum2_def ck_def ck_float_def inner2_def fits_def)
qed

theorem vector_products_witness:
  "\<exists>x. v2_dot \<lparr>v2x = 3, v2y = 4\<rparr> \<lparr>v2x = 5, v2y = 6\<rparr> = Inr x \<and> x = Fin 39"
proof -
  obtain x where x: "v2_dot \<lparr>v2x = 3, v2y = 4\<rparr> \<lparr>v2x = 5, v2y = 6\<rparr> = Inr x"
    by (simp add: v2_dot_def sum2_def ck_def ck_float_def fits_def)
  with vector_products[of "\<lparr>v2x = 3, v2y = 4\<rparr>" "\<lparr>v2x = 5, v2y = 6\<rparr>"] have
    "float_of (inner2 \<lparr>v2x = 3, v2y = 4\<rparr> \<lparr>v2x = 5, v2y = 6\<rparr>) x" by blast
  then have "x = Fin 39"
    by (auto simp: float_of_def inner2_def)
  with x show ?thesis by blast
qed

text \<open>The same for space vectors: normalising one of integers leaves components -1, 0 and 1.\<close>

lemma v3_length_near:
  assumes "v3_length a = Inr x" and "inner3 a a \<noteq> 0"
  obtains len where "x = Fin len" and "\<bar>len - sqrt (of_int (inner3 a a))\<bar> \<le> sqrt (of_int (inner3 a a)) / 2 ^ 22"
proof -
  have s: "x = fl_cvt binary32 (fl_sqrt (fl_of_int binary64 (inner3 a a)))" "fits 32 (inner3 a a)"
    using assms(1) unfolding v3_length_def inner3_def
    by (cases "sum3 (v3x a * v3x a) (v3y a * v3y a) (v3z a * v3z a)"; auto dest!: sum3_Inr)+
  have nonneg: "0 \<le> inner3 a a"
    by (simp add: inner3_def)
  moreover have small: "inner3 a a \<le> 2 ^ 62 + 2 ^ 62"
    using s(2) by (simp add: fits_def)
  ultimately obtain h where h: "rnd binary64 (sqrt (of_int (inner3 a a))) = Fin h"
      "\<bar>h - sqrt (of_int (inner3 a a))\<bar> \<le> sqrt (of_int (inner3 a a)) / 2 ^ 30"
    by (rule rnd64_sqrt)
  obtain len where "fl_cvt binary32 (Fin h) = Fin len"
      "\<bar>len - sqrt (of_int (inner3 a a))\<bar> \<le> sqrt (of_int (inner3 a a)) / 2 ^ 22"
    using float_length[OF h(2)] int_sqrt_range[of "inner3 a a"] nonneg small assms(2) by blast
  then show thesis
    using that s h(1) nonneg by (simp add: int64_exact)
qed

lemma v3_normalize_cases:
  assumes "v3_length a = Inr x" and "inner3 a a \<noteq> 0"
    and "fits 32 (v3x a)" and "fits 32 (v3y a)" and "fits 32 (v3z a)"
  shows "\<exists>u. v3_normalize a = Inr u \<and> {v3x u, v3y u, v3z u} \<subseteq> {-1, 0, 1}"
proof -
  let ?L = "sqrt (of_int (inner3 a a))"
  obtain len where len: "x = Fin len" "\<bar>len - ?L\<bar> \<le> ?L / 2 ^ 22"
    using assms(1,2) by (rule v3_length_near)
  have "0 \<le> inner3 a a"
    by (simp add: inner3_def)
  then have L: "1 \<le> ?L"
    using assms(2) int_sqrt_range(1) by blast
  have comps: "\<bar>of_int (v3x a)\<bar> \<le> ?L" "\<bar>of_int (v3y a)\<bar> \<le> ?L" "\<bar>of_int (v3z a)\<bar> \<le> ?L"
    using component_le_sqrt[of "v3y a * v3y a + v3z a * v3z a" "v3x a"]
      component_le_sqrt[of "v3x a * v3x a + v3z a * v3z a" "v3y a"]
      component_le_sqrt[of "v3x a * v3x a + v3y a * v3y a" "v3z a"]
    by (simp_all add: inner3_def ac_simps)
  have "len \<noteq> 0"
    using len(2) L by (auto simp: field_simps)
  moreover obtain r s t where "fl_to_int (fdiv binary32 (fl_of_int binary32 (v3x a)) (Fin len)) = Inr r" "r \<in> {-1, 0, 1}"
      "fl_to_int (fdiv binary32 (fl_of_int binary32 (v3y a)) (Fin len)) = Inr s" "s \<in> {-1, 0, 1}"
      "fl_to_int (fdiv binary32 (fl_of_int binary32 (v3z a)) (Fin len)) = Inr t" "t \<in> {-1, 0, 1}"
    using int_component[OF assms(3) len(2) L comps(1)] int_component[OF assms(4) len(2) L comps(2)]
      int_component[OF assms(5) len(2) L comps(3)] by metis
  ultimately show ?thesis
    using assms(1) len(1) by (simp add: v3_normalize_def mk3_def)
qed

end
