(* ===== verification/Vector_Single.thy ===== *)
theory Vector_Single
  imports Vector_Float
begin

text \<open>
  \<open>IVector2<float>\<close> and \<open>IVector3<float>\<close> (\<^verbatim>\<open>src/src/mathematics/IVector2\<close>, \<^verbatim>\<open>IVector3\<close>), the instances the
  repository's own tests use: every operation in single precision, no operation undefined. The
  \<^verbatim>\<open>float\<close> overload of \<^verbatim>\<open>std::hypot\<close> is code of the C library and an argument.
\<close>

section \<open>IVector2\<close>

definition f2_new :: "fp \<Rightarrow> fp \<Rightarrow> fvector2" where
  "f2_new x y = \<lparr>f2x = x, f2y = y\<rparr>"

definition f2_zero :: fvector2 where
  "f2_zero = f2_new (Fin 0) (Fin 0)"

definition f2_add :: "fvector2 \<Rightarrow> fvector2 \<Rightarrow> fvector2" where
  "f2_add a b = f2_new (fadd binary32 (f2x a) (f2x b)) (fadd binary32 (f2y a) (f2y b))"

definition f2_sub :: "fvector2 \<Rightarrow> fvector2 \<Rightarrow> fvector2" where
  "f2_sub a b = f2_new (fsub binary32 (f2x a) (f2x b)) (fsub binary32 (f2y a) (f2y b))"

definition f2_mul :: "fvector2 \<Rightarrow> fvector2 \<Rightarrow> fvector2" where
  "f2_mul a b = f2_new (fmul binary32 (f2x a) (f2x b)) (fmul binary32 (f2y a) (f2y b))"

definition f2_div :: "fvector2 \<Rightarrow> fvector2 \<Rightarrow> fvector2 res" where
  "f2_div a b =
     (if feq (f2x b) (Fin 0) \<or> feq (f2y b) (Fin 0)
      then throw (Invalid_argument ''Division by zero: denominator has a zero component'')
      else Inr (f2_new (fdiv binary32 (f2x a) (f2x b)) (fdiv binary32 (f2y a) (f2y b))))"

definition f2_eq :: "fvector2 \<Rightarrow> fvector2 \<Rightarrow> bool" where
  "f2_eq a b \<longleftrightarrow> feq (f2x a) (f2x b) \<and> feq (f2y a) (f2y b)"

definition f2_neq :: "fvector2 \<Rightarrow> fvector2 \<Rightarrow> bool" where
  "f2_neq a b \<longleftrightarrow> \<not> f2_eq a b"

definition f2_add_assign :: "fvector2 \<Rightarrow> fvector2 \<Rightarrow> fvector2" where
  "f2_add_assign a b = a\<lparr>f2x := fadd binary32 (f2x a) (f2x b), f2y := fadd binary32 (f2y a) (f2y b)\<rparr>"

definition f2_length :: "(fp \<Rightarrow> fp \<Rightarrow> fp) \<Rightarrow> fvector2 \<Rightarrow> fp" where
  "f2_length hypotf a = hypotf (f2x a) (f2y a)"

definition f2_normalize :: "(fp \<Rightarrow> fp \<Rightarrow> fp) \<Rightarrow> fvector2 \<Rightarrow> fvector2 res" where
  "f2_normalize hypotf a =
     (let len = f2_length hypotf a
      in if feq len (Fin 0) then throw (Invalid_argument ''Cannot normalized zero vector'')
         else Inr (f2_new (fdiv binary32 (f2x a) len) (fdiv binary32 (f2y a) len)))"

definition f2_dot_self :: "fvector2 \<Rightarrow> fp" where
  "f2_dot_self a = fadd binary32 (fmul binary32 (f2x a) (f2x a)) (fmul binary32 (f2y a) (f2y a))"

definition f2_perp :: "fvector2 \<Rightarrow> fvector2" where
  "f2_perp a = f2_new (fneg (f2y a)) (f2x a)"

definition f2_cross :: "fvector2 \<Rightarrow> fvector2 \<Rightarrow> fp" where
  "f2_cross a b = fsub binary32 (fmul binary32 (f2x a) (f2y b)) (fmul binary32 (f2y a) (f2x b))"

section \<open>IVector3\<close>

record fvector3 =
  f3x :: fp
  f3y :: fp
  f3z :: fp

definition f3_new :: "fp \<Rightarrow> fp \<Rightarrow> fp \<Rightarrow> fvector3" where
  "f3_new x y z = \<lparr>f3x = x, f3y = y, f3z = z\<rparr>"

definition f3_zero :: fvector3 where
  "f3_zero = f3_new (Fin 0) (Fin 0) (Fin 0)"

definition f3_add :: "fvector3 \<Rightarrow> fvector3 \<Rightarrow> fvector3" where
  "f3_add a b =
     f3_new (fadd binary32 (f3x a) (f3x b)) (fadd binary32 (f3y a) (f3y b)) (fadd binary32 (f3z a) (f3z b))"

definition f3_sub :: "fvector3 \<Rightarrow> fvector3 \<Rightarrow> fvector3" where
  "f3_sub a b =
     f3_new (fsub binary32 (f3x a) (f3x b)) (fsub binary32 (f3y a) (f3y b)) (fsub binary32 (f3z a) (f3z b))"

definition f3_mul :: "fvector3 \<Rightarrow> fvector3 \<Rightarrow> fvector3" where
  "f3_mul a b =
     f3_new (fmul binary32 (f3x a) (f3x b)) (fmul binary32 (f3y a) (f3y b)) (fmul binary32 (f3z a) (f3z b))"

definition f3_div :: "fvector3 \<Rightarrow> fvector3 \<Rightarrow> fvector3 res" where
  "f3_div a b =
     (if feq (f3x b) (Fin 0) \<or> feq (f3y b) (Fin 0) \<or> feq (f3z b) (Fin 0)
      then throw (Invalid_argument ''Division by zero: denominator has a zero component'')
      else Inr (f3_new (fdiv binary32 (f3x a) (f3x b)) (fdiv binary32 (f3y a) (f3y b))
        (fdiv binary32 (f3z a) (f3z b))))"

definition f3_eq :: "fvector3 \<Rightarrow> fvector3 \<Rightarrow> bool" where
  "f3_eq a b \<longleftrightarrow> feq (f3x a) (f3x b) \<and> feq (f3y a) (f3y b) \<and> feq (f3z a) (f3z b)"

definition f3_neq :: "fvector3 \<Rightarrow> fvector3 \<Rightarrow> bool" where
  "f3_neq a b \<longleftrightarrow> \<not> f3_eq a b"

definition f3_add_assign :: "fvector3 \<Rightarrow> fvector3 \<Rightarrow> fvector3" where
  "f3_add_assign a b =
     a\<lparr>f3x := fadd binary32 (f3x a) (f3x b), f3y := fadd binary32 (f3y a) (f3y b),
       f3z := fadd binary32 (f3z a) (f3z b)\<rparr>"

definition f3_sub_assign :: "fvector3 \<Rightarrow> fvector3 \<Rightarrow> fvector3" where
  "f3_sub_assign a b =
     a\<lparr>f3x := fsub binary32 (f3x a) (f3x b), f3y := fsub binary32 (f3y a) (f3y b),
       f3z := fsub binary32 (f3z a) (f3z b)\<rparr>"

definition f3_dot :: "fvector3 \<Rightarrow> fvector3 \<Rightarrow> fp" where
  "f3_dot a b =
     fadd binary32 (fadd binary32 (fmul binary32 (f3x a) (f3x b)) (fmul binary32 (f3y a) (f3y b)))
       (fmul binary32 (f3z a) (f3z b))"

definition f3_dot_self :: "fvector3 \<Rightarrow> fp" where
  "f3_dot_self a =
     fadd binary32 (fadd binary32 (fmul binary32 (f3x a) (f3x a)) (fmul binary32 (f3y a) (f3y a)))
       (fmul binary32 (f3z a) (f3z a))"

text \<open>The sum of the squares is a \<^verbatim>\<open>float\<close>; the square root is the one of \<^verbatim>\<open>double\<close>.\<close>

definition f3_length :: "fvector3 \<Rightarrow> fp" where
  "f3_length a =
     fl_cvt binary32 (fl_sqrt (fl_cvt binary64
       (fadd binary32 (fadd binary32 (fmul binary32 (f3x a) (f3x a)) (fmul binary32 (f3y a) (f3y a)))
         (fmul binary32 (f3z a) (f3z a)))))"

definition f3_normalize :: "fvector3 \<Rightarrow> fvector3 res" where
  "f3_normalize a =
     (let len = f3_length a
      in if feq len (Fin 0) then throw (Invalid_argument ''Cannot normalized zero vector'')
         else Inr (f3_new (fdiv binary32 (f3x a) len) (fdiv binary32 (f3y a) len) (fdiv binary32 (f3z a) len)))"

definition f3_cross :: "fvector3 \<Rightarrow> fvector3 \<Rightarrow> fvector3" where
  "f3_cross a b =
     f3_new (fsub binary32 (fmul binary32 (f3y a) (f3z b)) (fmul binary32 (f3z a) (f3y b)))
       (fsub binary32 (fmul binary32 (f3z a) (f3x b)) (fmul binary32 (f3x a) (f3z b)))
       (fsub binary32 (fmul binary32 (f3x a) (f3y b)) (fmul binary32 (f3y a) (f3x b)))"

lemmas f2_defs = f2_new_def f2_zero_def f2_add_def f2_sub_def f2_mul_def f2_div_def f2_add_assign_def
  f2_sub_assign_def f2_dot_def f2_dot_self_def f2_perp_def f2_cross_def

lemmas f3_defs = f3_new_def f3_zero_def f3_add_def f3_sub_def f3_mul_def f3_div_def f3_add_assign_def
  f3_sub_assign_def f3_dot_def f3_dot_self_def f3_cross_def

section \<open>Lengths and quotients in single precision\<close>

text \<open>A component divided by the length, when the length is known up to a few roundings.\<close>

lemma unit_component:
  assumes "\<bar>len - L\<bar> \<le> L / 2 ^ 21" and "0 < L" and "\<bar>x\<bar> \<le> L"
  obtains q where "fdiv binary32 (Fin x) (Fin len) = Fin q" and "\<bar>q - x / L\<bar> \<le> 1 / 2 ^ 20"
proof -
  have "L / 2 ^ 21 \<le> L / 2"
    using assms(2) by simp
  then have len: "L / 2 \<le> len"
    using assms(1) by linarith
  then have pos: "0 < len"
    using assms(2) by linarith
  have low: "L - L / 2 ^ 21 \<le> len"
    using assms(1) by linarith
  have "x / len - x / L = x / L * ((L - len) / len)"
    using pos assms(2) by (simp add: field_simps)
  then have "\<bar>x / len - x / L\<bar> = \<bar>x\<bar> / L * (\<bar>len - L\<bar> / len)"
    using pos assms(2) by (simp add: abs_mult abs_divide abs_minus_commute)
  also have "\<dots> \<le> 1 * (1 / 2 ^ 20 - 1 / 2 ^ 22)"
  proof (intro mult_mono)
    have "(1 / 2 ^ 20 - 1 / 2 ^ 22) * (L * (1 - 1 / 2 ^ 21)) \<le> (1 / 2 ^ 20 - 1 / 2 ^ 22) * len"
      using low by (intro mult_left_mono) (simp_all add: right_diff_distrib)
    moreover have "L / 2 ^ 21 \<le> (1 / 2 ^ 20 - 1 / 2 ^ 22) * (L * (1 - 1 / 2 ^ 21))"
      using assms(2) by (simp add: field_simps)
    ultimately show "\<bar>len - L\<bar> / len \<le> 1 / 2 ^ 20 - 1 / 2 ^ 22"
      using assms(1) pos by (simp add: pos_divide_le_eq)
  qed (use assms(2,3) pos in simp_all)
  finally have near: "\<bar>x / len - x / L\<bar> \<le> 1 / 2 ^ 20 - 1 / 2 ^ 22"
    by simp
  have "\<bar>x / L\<bar> \<le> 1"
    using assms(2,3) by (simp add: abs_divide)
  moreover have "1 / 2 ^ 20 - 1 / 2 ^ 22 \<le> (1 / 2 :: real)"
    by simp
  ultimately have "\<bar>x / len\<bar> \<le> 3 / 2"
    using near by linarith
  then obtain q where q: "rnd binary32 (x / len) = Fin q" "\<bar>q - x / len\<bar> \<le> 1 / 2 ^ 24"
    using small_quotient by blast
  have "\<bar>q - x / L\<bar> \<le> 1 / 2 ^ 24 + (1 / 2 ^ 20 - 1 / 2 ^ 22)"
    using q(2) near by linarith
  also have "\<dots> \<le> 1 / 2 ^ 20"
    by simp
  finally have "\<bar>q - x / L\<bar> \<le> 1 / 2 ^ 20" .
  then show thesis
    using that q(1) pos by simp
qed

lemma rnd32_any:
  assumes "\<bar>x\<bar> \<le> 2 ^ 125"
  obtains y where "rnd binary32 x = Fin y" and "\<bar>y - x\<bar> \<le> \<bar>x\<bar> / 2 ^ 24 + 1 / 2 ^ 150"
proof -
  have "\<bar>x\<bar> \<le> 2 powi fm_emax binary32"
    using assms by (simp add: binary32_def power_int_def)
  then obtain y where y: "rnd binary32 x = Fin y"
      "\<bar>y - x\<bar> \<le> \<bar>x\<bar> / 2 ^ fm_prec binary32 + 2 powi (fm_emin binary32 - int (fm_prec binary32))"
    by (rule rnd_any[OF formats_wf(1)])
  have "fm_emin binary32 - int (fm_prec binary32) = - 150" "fm_prec binary32 = 24"
    by (simp_all add: fm_emin_def binary32_def)
  then show thesis
    using that[OF y(1)] y(2) by (simp only: power_int_minus power_int_numeral inverse_eq_divide)
qed

text \<open>The sum of three squares, each of which may be subnormal.\<close>

lemma sum_squares_near:
  assumes S: "S = X + Y + Z" and pos: "0 \<le> X" "0 \<le> Y" "0 \<le> Z" and range: "1 / 2 ^ 100 \<le> S" "S \<le> 2 ^ 120"
  obtains s where "fadd binary32 (fadd binary32 (rnd binary32 X) (rnd binary32 Y)) (rnd binary32 Z) = Fin s"
    and "rnd binary64 s = Fin s" and "\<bar>s - S\<bar> \<le> S / 2 ^ 22"
proof -
  define e :: real where "e = 1 / 2 ^ 150"
  have e: "0 \<le> e" "e \<le> S / 2 ^ 50"
    using range(1) by (simp_all add: e_def)
  have big: "4 * S \<le> 2 ^ 125" and slack: "S / 2 ^ 20 \<le> S" "0 \<le> S"
    using range(2) pos S by simp_all
  obtain x where x: "rnd binary32 X = Fin x" "\<bar>x - X\<bar> \<le> X / 2 ^ 24 + e"
    using rnd32_any[of X] S pos range(2) unfolding e_def by auto
  obtain y where y: "rnd binary32 Y = Fin y" "\<bar>y - Y\<bar> \<le> Y / 2 ^ 24 + e"
    using rnd32_any[of Y] S pos range(2) unfolding e_def by auto
  obtain z where z: "rnd binary32 Z = Fin z" "\<bar>z - Z\<bar> \<le> Z / 2 ^ 24 + e"
    using rnd32_any[of Z] S pos range(2) unfolding e_def by auto
  have xy: "\<bar>(x + y) - (X + Y)\<bar> \<le> (X + Y) / 2 ^ 24 + 2 * e"
    using x(2) y(2) unfolding add_divide_distrib by linarith
  then have "\<bar>x + y\<bar> \<le> X + Y + (X + Y) / 2 ^ 24 + 2 * e"
    using pos by linarith
  then have xy': "\<bar>x + y\<bar> \<le> S + S / 2 ^ 20"
    using e S pos by (simp add: field_simps)
  then have "\<bar>x + y\<bar> \<le> 2 ^ 125"
    using big slack by linarith
  then obtain q where q: "rnd binary32 (x + y) = Fin q" "\<bar>q - (x + y)\<bar> \<le> \<bar>x + y\<bar> / 2 ^ 24 + e"
    unfolding e_def by (rule rnd32_any)
  have "\<bar>(q + z) - S\<bar> \<le> S / 2 ^ 24 + 3 * e + (\<bar>x + y\<bar> / 2 ^ 24 + e)"
    using xy q(2) z(2) unfolding S add_divide_distrib by linarith
  also have "\<dots> \<le> 2 * S / 2 ^ 24 + S / 2 ^ 40"
    using xy' e by (simp add: field_simps)
  finally have qz: "\<bar>(q + z) - S\<bar> \<le> 2 * S / 2 ^ 24 + S / 2 ^ 40" .
  then have "\<bar>q + z\<bar> \<le> S + (2 * S / 2 ^ 24 + S / 2 ^ 40)"
    using slack(2) by linarith
  also have "\<dots> \<le> S + S / 2 ^ 20"
    using slack(2) by (simp add: field_simps)
  finally have qz': "\<bar>q + z\<bar> \<le> S + S / 2 ^ 20" .
  then have "\<bar>q + z\<bar> \<le> 2 ^ 125"
    using big slack by linarith
  then obtain s where s: "rnd binary32 (q + z) = Fin s" "\<bar>s - (q + z)\<bar> \<le> \<bar>q + z\<bar> / 2 ^ 24 + e"
    unfolding e_def by (rule rnd32_any)
  have "\<bar>s - S\<bar> \<le> 2 * S / 2 ^ 24 + S / 2 ^ 40 + (\<bar>q + z\<bar> / 2 ^ 24 + e)"
    using qz s(2) by linarith
  also have "\<dots> \<le> S / 2 ^ 22"
    using qz' e by (simp add: field_simps)
  finally show thesis
    using that[of s] x(1) y(1) z(1) q(1) s(1) float_to_double[OF s(1)] by simp
qed

lemma sqrt_near:
  assumes "\<bar>s - S\<bar> \<le> S * c" and "0 < S" and "0 \<le> s"
  shows "\<bar>sqrt s - sqrt S\<bar> \<le> sqrt S * c"
proof -
  have "\<bar>sqrt s - sqrt S\<bar> * sqrt S \<le> \<bar>sqrt s - sqrt S\<bar> * (sqrt s + sqrt S)"
    using assms(2,3) by (intro mult_left_mono) simp_all
  also have "\<dots> = \<bar>(sqrt s - sqrt S) * (sqrt s + sqrt S)\<bar>"
    using assms(2,3) by (simp add: abs_mult)
  also have "\<dots> = \<bar>s - S\<bar>"
    using assms(2,3) by (simp add: algebra_simps flip: real_sqrt_mult)
  also have "\<dots> \<le> sqrt S * c * sqrt S"
    using assms(1,2) by (simp add: ac_simps)
  finally show ?thesis
    using assms(2) by (simp add: mult.commute)
qed

text \<open>The length of a space vector whose square neither overflows nor loses its digits.\<close>

definition norm3 :: "real \<Rightarrow> real \<Rightarrow> real \<Rightarrow> real" where
  "norm3 x y z = sqrt (x\<^sup>2 + y\<^sup>2 + z\<^sup>2)"

definition f3_of :: "real \<Rightarrow> real \<Rightarrow> real \<Rightarrow> fvector3" where
  "f3_of x y z = f3_new (Fin x) (Fin y) (Fin z)"

lemma f3_of_sel [simp]: "f3x (f3_of x y z) = Fin x" "f3y (f3_of x y z) = Fin y" "f3z (f3_of x y z) = Fin z"
  by (simp_all add: f3_of_def f3_new_def)

lemma norm3_component: "\<bar>x\<bar> \<le> norm3 x y z" "\<bar>y\<bar> \<le> norm3 x y z" "\<bar>z\<bar> \<le> norm3 x y z"
  by (auto simp: norm3_def intro!: real_le_rsqrt)

text \<open>A square root taken in double precision and rounded to single.\<close>

lemma double_sqrt_near:
  assumes "1 / 2 ^ 52 \<le> r" and "r \<le> 2 ^ 62"
  obtains len where "fl_cvt binary32 (rnd binary64 r) = Fin len" and "\<bar>len - r\<bar> \<le> r / 2 ^ 23"
proof -
  have low: "2 powi fm_emin F \<le> \<bar>x\<bar>" if "1 / 2 ^ 53 \<le> x" "fm_emin F \<le> - 53" for F and x :: real
  proof -
    have "2 powi fm_emin F \<le> (2 :: real) powi - 53"
      using that(2) by (intro power_int_increasing) simp_all
    also have "\<dots> = 1 / 2 ^ 53"
      by (simp only: power_int_minus power_int_numeral inverse_eq_divide)
    finally show ?thesis
      using that(1) by linarith
  qed
  have high: "\<bar>x\<bar> \<le> 2 powi fm_emax F" if "0 \<le> x" "x \<le> 2 ^ 63" "63 \<le> fm_emax F" for F and x :: real
    using power_int_increasing[OF that(3), of "2 :: real"] that(1,2) unfolding power_int_numeral by simp
  have fmts: "fm_emin binary32 \<le> - 53" "63 \<le> fm_emax binary32" "fm_emin binary64 \<le> - 53" "63 \<le> fm_emax binary64"
    "fm_prec binary32 = 24" "fm_prec binary64 = 53"
    by (simp_all add: fm_emin_def binary32_def binary64_def)
  have r: "1 / 2 ^ 53 \<le> r" "0 \<le> r" "r \<le> 2 ^ 63"
    using assms by (simp_all add: field_simps)
  obtain h where h: "rnd binary64 r = Fin h" "\<bar>h - r\<bar> \<le> r / 2 ^ 53"
    by (rule rnd_normal[OF formats_wf(2) low[OF r(1) fmts(3)] high[OF r(2,3) fmts(4)], unfolded fmts abs_of_nonneg[OF r(2)]])
  have "r / 2 ^ 53 \<le> r / 2"
    using r(2) by simp
  then have "r / 2 \<le> h" "h \<le> 2 * r"
    using h(2) r(2) by linarith+
  then have h': "1 / 2 ^ 53 \<le> h" "0 \<le> h" "h \<le> 2 ^ 63"
    using assms r(2) by (simp_all add: field_simps)
  obtain len where len: "rnd binary32 h = Fin len" "\<bar>len - h\<bar> \<le> h / 2 ^ 24"
    by (rule rnd_normal[OF formats_wf(1) low[OF h'(1) fmts(1)] high[OF h'(2,3) fmts(2)], unfolded fmts abs_of_nonneg[OF h'(2)]])
  have "\<bar>len - r\<bar> \<le> h / 2 ^ 24 + r / 2 ^ 53"
    using h(2) len(2) by linarith
  also have "\<dots> \<le> (r + r / 2 ^ 53) / 2 ^ 24 + r / 2 ^ 53"
    using h(2) by (intro add_right_mono divide_right_mono) (linarith, simp)
  also have "\<dots> \<le> r / 2 ^ 23"
    using r(2) by (simp add: field_simps)
  finally show thesis
    using that[of len] h(1) len(1) by simp
qed

lemma f3_length_near:
  assumes "1 / 2 ^ 50 \<le> norm3 x y z" and "norm3 x y z \<le> 2 ^ 60"
  obtains len where "f3_length (f3_of x y z) = Fin len" and "\<bar>len - norm3 x y z\<bar> \<le> norm3 x y z / 2 ^ 21"
proof -
  let ?S = "x\<^sup>2 + y\<^sup>2 + z\<^sup>2" and ?L = "norm3 x y z"
  have L: "?S = ?L\<^sup>2" "0 < ?L"
    using order_less_le_trans[OF _ assms(1), of 0] by (simp_all add: norm3_def)
  have "(1 / 2 ^ 50)\<^sup>2 \<le> ?S" "?S \<le> (2 ^ 60)\<^sup>2"
    unfolding L(1) using assms by (intro power_mono; simp)+
  then have S: "1 / 2 ^ 100 \<le> ?S" "?S \<le> 2 ^ 120"
    by (simp_all add: power_divide flip: power_mult)
  obtain s where s: "fadd binary32 (fadd binary32 (rnd binary32 (x\<^sup>2)) (rnd binary32 (y\<^sup>2))) (rnd binary32 (z\<^sup>2)) = Fin s"
      "rnd binary64 s = Fin s" "\<bar>s - ?S\<bar> \<le> ?S / 2 ^ 22"
    by (rule sum_squares_near[OF refl _ _ _ S]) simp_all
  have pos: "0 < ?S"
    unfolding L(1) using L(2) by simp
  then have "?S / 2 ^ 22 \<le> ?S"
    by simp
  then have s': "0 \<le> s"
    using s(3) by linarith
  have near: "\<bar>sqrt s - ?L\<bar> \<le> ?L / 2 ^ 22"
    using sqrt_near[of s ?S "1 / 2 ^ 22"] s(3) pos s' by (simp add: norm3_def)
  moreover have "?L / 2 ^ 22 \<le> ?L / 2"
    using L(2) by simp
  ultimately have "?L / 2 \<le> sqrt s" "sqrt s \<le> 2 * ?L"
    by linarith+
  then have "1 / 2 ^ 52 \<le> sqrt s" "sqrt s \<le> 2 ^ 62"
    using assms by (simp_all add: field_simps)
  then obtain len where len: "fl_cvt binary32 (rnd binary64 (sqrt s)) = Fin len" "\<bar>len - sqrt s\<bar> \<le> sqrt s / 2 ^ 23"
    by (rule double_sqrt_near)
  have "\<bar>len - ?L\<bar> \<le> (?L + ?L / 2 ^ 22) / 2 ^ 23 + ?L / 2 ^ 22"
  proof -
    have "sqrt s / 2 ^ 23 \<le> (?L + ?L / 2 ^ 22) / 2 ^ 23"
      using near by (intro divide_right_mono) (linarith, simp)
    then show ?thesis
      using near len(2) by linarith
  qed
  also have "\<dots> \<le> ?L / 2 ^ 21"
    using L(2) by (simp add: field_simps)
  finally show thesis
    using that[of len] s(1,2) len(1) s' by (simp add: f3_length_def power2_eq_square)
qed

section \<open>The C library's hypotf\<close>

definition norm2 :: "real \<Rightarrow> real \<Rightarrow> real" where
  "norm2 x y = sqrt (x\<^sup>2 + y\<^sup>2)"

definition f2_of :: "real \<Rightarrow> real \<Rightarrow> fvector2" where
  "f2_of x y = f2_new (Fin x) (Fin y)"

text \<open>
  What is asked of \<^verbatim>\<open>hypotf\<close>: on \<^verbatim>\<open>float\<close> values whose length is a normal number, that length up to a
  relative error of a few units in the last place, and zero for the zero vector.
\<close>

definition is_float :: "real \<Rightarrow> bool" where
  "is_float x \<longleftrightarrow> rnd binary32 x = Fin x"

locale hypotf_lib =
  fixes hypotf :: "fp \<Rightarrow> fp \<Rightarrow> fp"
  assumes hypotf_near: "is_float x \<Longrightarrow> is_float y \<Longrightarrow> 1 / 2 ^ 126 \<le> norm2 x y \<Longrightarrow> norm2 x y \<le> 2 ^ 127 \<Longrightarrow>
      \<exists>h. hypotf (Fin x) (Fin y) = Fin h \<and> \<bar>h - norm2 x y\<bar> \<le> norm2 x y / 2 ^ 21"
    and hypotf_zero: "hypotf (Fin 0) (Fin 0) = Fin 0"
begin

lemma normalize_near:
  assumes "is_float x" and "is_float y" and "1 / 2 ^ 126 \<le> norm2 x y" and "norm2 x y \<le> 2 ^ 127"
  shows "\<exists>p q. f2_normalize hypotf (f2_of x y) = Inr (f2_of p q) \<and>
    \<bar>p - x / norm2 x y\<bar> \<le> 1 / 2 ^ 20 \<and> \<bar>q - y / norm2 x y\<bar> \<le> 1 / 2 ^ 20"
proof -
  let ?L = "norm2 x y"
  obtain len where len: "hypotf (Fin x) (Fin y) = Fin len" "\<bar>len - ?L\<bar> \<le> ?L / 2 ^ 21"
    using hypotf_near[OF assms] by blast
  have L: "0 < ?L" "\<bar>x\<bar> \<le> ?L" "\<bar>y\<bar> \<le> ?L"
    using order_less_le_trans[OF _ assms(3), of 0] by (auto simp: norm2_def intro!: real_le_rsqrt)
  obtain p where p: "fdiv binary32 (Fin x) (Fin len) = Fin p" "\<bar>p - x / ?L\<bar> \<le> 1 / 2 ^ 20"
    using unit_component[OF len(2) L(1,2)] by blast
  obtain q where q: "fdiv binary32 (Fin y) (Fin len) = Fin q" "\<bar>q - y / ?L\<bar> \<le> 1 / 2 ^ 20"
    using unit_component[OF len(2) L(1,3)] by blast
  have "len \<noteq> 0"
    using len(2) L(1) by (auto simp: field_simps)
  then have "f2_normalize hypotf (f2_of x y) = Inr (f2_of p q)"
    using len(1) p(1) q(1) by (simp add: f2_normalize_def f2_length_def f2_of_def f2_new_def del: fdiv.simps)
  with p(2) q(2) show ?thesis by blast
qed

lemma normalize_zero: "f2_normalize hypotf f2_zero = throw (Invalid_argument ''Cannot normalized zero vector'')"
  by (simp add: f2_normalize_def f2_length_def f2_zero_def f2_new_def hypotf_zero)

end

fun hypotf_cr :: "fp \<Rightarrow> fp \<Rightarrow> fp" where
  "hypotf_cr (Fin x) (Fin y) = rnd binary32 (sqrt (x\<^sup>2 + y\<^sup>2))"
| "hypotf_cr (Inf s) _ = Inf False"
| "hypotf_cr _ (Inf t) = Inf False"
| "hypotf_cr _ _ = NaN"

interpretation hypotf_cr: hypotf_lib hypotf_cr
proof
  fix x y
  assume L: "1 / 2 ^ 126 \<le> norm2 x y" "norm2 x y \<le> 2 ^ 127"
  have nonneg: "0 \<le> norm2 x y"
    by (simp add: norm2_def)
  have "fm_emin binary32 = - 126" "fm_emax binary32 = 127" "fm_prec binary32 = 24"
    by (simp_all add: fm_emin_def binary32_def)
  note fmts = this power_int_minus power_int_numeral inverse_eq_divide abs_of_nonneg[OF nonneg]
  obtain h where h: "rnd binary32 (norm2 x y) = Fin h" "\<bar>h - norm2 x y\<bar> \<le> norm2 x y / 2 ^ 24"
    using rnd_normal[OF formats_wf(1), of "norm2 x y", unfolded fmts, OF L] by blast
  have "norm2 x y / 2 ^ 24 \<le> norm2 x y / 2 ^ 21"
    using nonneg by simp
  then have "\<bar>h - norm2 x y\<bar> \<le> norm2 x y / 2 ^ 21"
    using h(2) by linarith
  then show "\<exists>h. hypotf_cr (Fin x) (Fin y) = Fin h \<and> \<bar>h - norm2 x y\<bar> \<le> norm2 x y / 2 ^ 21"
    using h(1) by (simp add: norm2_def)
qed simp

section \<open>Properties\<close>

lemma f3_normalize_near:
  assumes "1 / 2 ^ 50 \<le> norm3 x y z" and "norm3 x y z \<le> 2 ^ 60"
  shows "\<exists>p q r. f3_normalize (f3_of x y z) = Inr (f3_of p q r) \<and> \<bar>p - x / norm3 x y z\<bar> \<le> 1 / 2 ^ 20 \<and>
    \<bar>q - y / norm3 x y z\<bar> \<le> 1 / 2 ^ 20 \<and> \<bar>r - z / norm3 x y z\<bar> \<le> 1 / 2 ^ 20"
proof -
  let ?L = "norm3 x y z"
  obtain len where len: "f3_length (f3_of x y z) = Fin len" "\<bar>len - ?L\<bar> \<le> ?L / 2 ^ 21"
    using assms by (rule f3_length_near)
  have L: "0 < ?L"
    using order_less_le_trans[OF _ assms(1), of 0] by simp
  obtain p where p: "fdiv binary32 (Fin x) (Fin len) = Fin p" "\<bar>p - x / ?L\<bar> \<le> 1 / 2 ^ 20"
    using unit_component[OF len(2) L norm3_component(1)] by blast
  obtain q where q: "fdiv binary32 (Fin y) (Fin len) = Fin q" "\<bar>q - y / ?L\<bar> \<le> 1 / 2 ^ 20"
    using unit_component[OF len(2) L norm3_component(2)] by blast
  obtain r where r: "fdiv binary32 (Fin z) (Fin len) = Fin r" "\<bar>r - z / ?L\<bar> \<le> 1 / 2 ^ 20"
    using unit_component[OF len(2) L norm3_component(3)] by blast
  have "len \<noteq> 0"
    using len(2) L by (auto simp: field_simps)
  then have "f3_normalize (f3_of x y z) = Inr (f3_of p q r)"
    using len(1) p(1) q(1) r(1) by (simp add: f3_normalize_def f3_of_def f3_new_def del: fdiv.simps)
  with p(2) q(2) r(2) show ?thesis by blast
qed

text \<open>Sums of squares are not negative, and one infinite square makes the sum infinite.\<close>

fun nonneg_fp :: "fp \<Rightarrow> bool" where
  "nonneg_fp (Fin x) \<longleftrightarrow> 0 \<le> x"
| "nonneg_fp (Inf s) \<longleftrightarrow> \<not> s"
| "nonneg_fp NaN \<longleftrightarrow> False"

lemma rnd_nonneg_fp: "0 \<le> x \<Longrightarrow> nonneg_fp (rnd F x)"
proof -
  assume x: "0 \<le> x"
  show ?thesis
    by (rule rnd_cases[of F x]) (use x rnd_nonneg in auto)
qed

lemma fadd_nonneg_fp: "nonneg_fp a \<Longrightarrow> nonneg_fp b \<Longrightarrow> nonneg_fp (fadd F a b)"
  by (cases a; cases b) (simp_all add: rnd_nonneg_fp)

lemma fadd_infinite:
  "nonneg_fp a \<Longrightarrow> fadd F (Inf False) a = Inf False" "nonneg_fp a \<Longrightarrow> fadd F a (Inf False) = Inf False"
  by (cases a; simp)+

lemma square_overflow: "2 ^ 64 \<le> \<bar>x\<bar> \<Longrightarrow> rnd binary32 (x * x) = Inf False"
proof -
  assume "2 ^ 64 \<le> \<bar>x\<bar>"
  then have "2 ^ 64 * 2 ^ 64 \<le> \<bar>x\<bar> * \<bar>x\<bar>"
    by (intro mult_mono) simp_all
  then have "2 powi (fm_emax binary32 + 1) \<le> \<bar>x * x\<bar>"
    by (simp add: binary32_def)
  from rnd_overflow[OF formats_wf(1) this] show ?thesis
    by (simp add: not_less)
qed

lemma square_underflow: "\<bar>x\<bar> \<le> 1 / 2 ^ 75 \<Longrightarrow> rnd binary32 (x * x) = Fin 0"
proof -
  assume "\<bar>x\<bar> \<le> 1 / 2 ^ 75"
  then have "\<bar>x\<bar> * \<bar>x\<bar> \<le> 1 / 2 ^ 75 * (1 / 2 ^ 75)"
    by (intro mult_mono) simp_all
  also have "\<dots> = 2 powi (- 150)"
    unfolding power_int_minus power_int_numeral inverse_eq_divide by simp
  finally show ?thesis
    by (intro rnd_underflow[OF _ formats_wf(1)]) (simp add: abs_mult fm_emin_def binary32_def)
qed

lemma f3_length_infinite:
  assumes "2 ^ 64 \<le> \<bar>x\<bar> \<or> 2 ^ 64 \<le> \<bar>y\<bar> \<or> 2 ^ 64 \<le> \<bar>z\<bar>"
  shows "f3_length (f3_of x y z) = Inf False"
proof -
  have sq: "nonneg_fp (rnd binary32 (r * r))" for r
    by (simp add: rnd_nonneg_fp)
  have "fadd binary32 (fadd binary32 (rnd binary32 (x * x)) (rnd binary32 (y * y))) (rnd binary32 (z * z)) = Inf False"
    using assms square_overflow[of x] square_overflow[of y] square_overflow[of z]
    by (auto simp: fadd_infinite sq fadd_nonneg_fp)
  then show ?thesis
    by (simp add: f3_length_def)
qed

text \<open>
  C37. Normalising vectors of \<^verbatim>\<open>float\<close>. For a plane vector whose length is a normal number, and for a
  space vector of a length from \<open>2 ^ -50\<close> to \<open>2 ^ 60\<close>, the result is finite and every component differs from the
  component of the exact unit vector by at most \<open>2 ^ -20\<close>, which is below the tolerance \<open>1e-6\<close>
  of the tests. The zero vectors throw.
\<close>

theorem float_normalize:
  assumes "hypotf_lib hypotf"
  shows "(is_float x \<and> is_float y \<and> 1 / 2 ^ 126 \<le> norm2 x y \<and> norm2 x y \<le> 2 ^ 127 \<longrightarrow>
      (\<exists>p q. f2_normalize hypotf (f2_of x y) = Inr (f2_of p q) \<and>
        \<bar>p - x / norm2 x y\<bar> \<le> 1 / 2 ^ 20 \<and> \<bar>q - y / norm2 x y\<bar> \<le> 1 / 2 ^ 20)) \<and>
    (1 / 2 ^ 50 \<le> norm3 x y z \<and> norm3 x y z \<le> 2 ^ 60 \<longrightarrow>
      (\<exists>p q r. f3_normalize (f3_of x y z) = Inr (f3_of p q r) \<and> \<bar>p - x / norm3 x y z\<bar> \<le> 1 / 2 ^ 20 \<and>
        \<bar>q - y / norm3 x y z\<bar> \<le> 1 / 2 ^ 20 \<and> \<bar>r - z / norm3 x y z\<bar> \<le> 1 / 2 ^ 20)) \<and>
    f2_normalize hypotf f2_zero = throw (Invalid_argument ''Cannot normalized zero vector'') \<and>
    f3_normalize f3_zero = throw (Invalid_argument ''Cannot normalized zero vector'')"
proof (intro conjI impI)
  show "f3_normalize f3_zero = throw (Invalid_argument ''Cannot normalized zero vector'')"
    by (simp add: f3_normalize_def f3_length_def f3_zero_def f3_new_def)
qed (use hypotf_lib.normalize_near[OF assms] hypotf_lib.normalize_zero[OF assms] f3_normalize_near in blast)+

theorem float_normalize_witness:
  "\<exists>p q. f2_normalize hypotf_cr (f2_of 3 4) = Inr (f2_of p q) \<and> \<bar>p - 3 / 5\<bar> \<le> 1 / 2 ^ 20 \<and> \<bar>q - 4 / 5\<bar> \<le> 1 / 2 ^ 20"
proof -
  have "is_float 3" "is_float 4"
    using rnd_int[OF formats_wf(1), of 3] rnd_int[OF formats_wf(1), of 4] by (simp_all add: is_float_def binary32_def)
  moreover have "norm2 3 4 = 5"
    by (simp add: norm2_def)
  moreover have "(1 / 2 ^ 126 :: real) \<le> 5" "(5 :: real) \<le> 2 ^ 127"
    by simp_all
  ultimately show ?thesis
    using float_normalize[OF hypotf_cr.hypotf_lib_axioms, of 3 4] by metis
qed

text \<open>
  The range of \<open>IVector3<float>::normalize\<close>. The squares are summed in single precision. As soon as
  one component reaches \<open>2 ^ 64\<close> the length is infinite and the result is the zero vector; when all
  components are at most \<open>2 ^ -75\<close> the length is zero and the call throws, although the vector is not
  zero.
\<close>

theorem float_normalize_range:
  shows "(2 ^ 64 \<le> \<bar>x\<bar> \<or> 2 ^ 64 \<le> \<bar>y\<bar> \<or> 2 ^ 64 \<le> \<bar>z\<bar> \<longrightarrow> f3_normalize (f3_of x y z) = Inr f3_zero) \<and>
    (\<bar>x\<bar> \<le> 1 / 2 ^ 75 \<and> \<bar>y\<bar> \<le> 1 / 2 ^ 75 \<and> \<bar>z\<bar> \<le> 1 / 2 ^ 75 \<longrightarrow>
      f3_normalize (f3_of x y z) = throw (Invalid_argument ''Cannot normalized zero vector''))"
proof (intro conjI impI)
  assume "2 ^ 64 \<le> \<bar>x\<bar> \<or> 2 ^ 64 \<le> \<bar>y\<bar> \<or> 2 ^ 64 \<le> \<bar>z\<bar>"
  from f3_length_infinite[OF this] show "f3_normalize (f3_of x y z) = Inr f3_zero"
    by (simp add: f3_normalize_def f3_zero_def)
next
  assume "\<bar>x\<bar> \<le> 1 / 2 ^ 75 \<and> \<bar>y\<bar> \<le> 1 / 2 ^ 75 \<and> \<bar>z\<bar> \<le> 1 / 2 ^ 75"
  then show "f3_normalize (f3_of x y z) = throw (Invalid_argument ''Cannot normalized zero vector'')"
    using square_underflow[of x] square_underflow[of y] square_underflow[of z]
    by (simp add: f3_normalize_def f3_length_def)
qed

theorem float_normalize_range_witness:
  "f3_normalize (f3_of (2 ^ 64) 1 0) = Inr f3_zero \<and>
    f3_normalize (f3_of (1 / 2 ^ 80) 0 0) = throw (Invalid_argument ''Cannot normalized zero vector'')"
proof (intro conjI)
  show "f3_normalize (f3_of (2 ^ 64) 1 0) = Inr f3_zero"
    using float_normalize_range[of "2 ^ 64" 1 0] by simp
  show "f3_normalize (f3_of (1 / 2 ^ 80) 0 0) = throw (Invalid_argument ''Cannot normalized zero vector'')"
    using float_normalize_range[of "1 / 2 ^ 80" 0 0] by simp
qed

section \<open>The two instances of the templates on small integers\<close>

definition f2_int :: "ivector2 \<Rightarrow> fvector2" where
  "f2_int a = f2_of (of_int (v2x a)) (of_int (v2y a))"

definition f3_int :: "ivector3 \<Rightarrow> fvector3" where
  "f3_int a = f3_of (of_int (v3x a)) (of_int (v3y a)) (of_int (v3z a))"

definition small2 :: "ivector2 \<Rightarrow> bool" where
  "small2 a \<longleftrightarrow> \<bar>v2x a\<bar> \<le> 2048 \<and> \<bar>v2y a\<bar> \<le> 2048"

definition small3 :: "ivector3 \<Rightarrow> bool" where
  "small3 a \<longleftrightarrow> \<bar>v3x a\<bar> \<le> 2048 \<and> \<bar>v3y a\<bar> \<le> 2048 \<and> \<bar>v3z a\<bar> \<le> 2048"

lemma rnd32_int: "\<bar>i\<bar> < 2 ^ 24 \<Longrightarrow> rnd binary32 (of_int i) = Fin (of_int i)"
  by (rule rnd_int[OF formats_wf(1)]) (simp add: binary32_def)

lemma small_fadd: "\<bar>i + j\<bar> < 2 ^ 24 \<Longrightarrow> fadd binary32 (Fin (of_int i)) (Fin (of_int j)) = Fin (of_int (i + j))"
  using rnd32_int[of "i + j"] by simp

lemma small_fsub: "\<bar>i - j\<bar> < 2 ^ 24 \<Longrightarrow> fsub binary32 (Fin (of_int i)) (Fin (of_int j)) = Fin (of_int (i - j))"
  using rnd32_int[of "i - j"] by simp

lemma small_mult: "\<bar>i\<bar> \<le> 2048 \<Longrightarrow> \<bar>j\<bar> \<le> 2048 \<Longrightarrow> \<bar>i * j\<bar> \<le> 2 ^ 22" for i j :: int
  using mult_mono[of "\<bar>i\<bar>" 2048 "\<bar>j\<bar>" 2048] by (simp add: abs_mult)

lemma small_fmul: "\<bar>i\<bar> \<le> 2048 \<Longrightarrow> \<bar>j\<bar> \<le> 2048 \<Longrightarrow>
    fmul binary32 (Fin (of_int i)) (Fin (of_int j)) = Fin (of_int (i * j))"
  using small_mult[of i j] rnd32_int[of "i * j"] by simp

text \<open>Sums and differences of products of small integers are exact.\<close>

lemma small_products:
  assumes "\<bar>a\<bar> \<le> 2048" and "\<bar>b\<bar> \<le> 2048" and "\<bar>c\<bar> \<le> 2048" and "\<bar>d\<bar> \<le> 2048"
  shows "fsub binary32 (fmul binary32 (Fin (of_int a)) (Fin (of_int b))) (fmul binary32 (Fin (of_int c)) (Fin (of_int d))) =
      Fin (of_int (a * b - c * d))"
    and "fadd binary32 (fmul binary32 (Fin (of_int a)) (Fin (of_int b))) (fmul binary32 (Fin (of_int c)) (Fin (of_int d))) =
      Fin (of_int (a * b + c * d))"
proof -
  have "\<bar>a * b - c * d\<bar> < 2 ^ 24" "\<bar>a * b + c * d\<bar> < 2 ^ 24"
    using small_mult[OF assms(1,2)] small_mult[OF assms(3,4)] by simp_all
  then show
    "fsub binary32 (fmul binary32 (Fin (of_int a)) (Fin (of_int b))) (fmul binary32 (Fin (of_int c)) (Fin (of_int d))) =
      Fin (of_int (a * b - c * d))"
    "fadd binary32 (fmul binary32 (Fin (of_int a)) (Fin (of_int b))) (fmul binary32 (Fin (of_int c)) (Fin (of_int d))) =
      Fin (of_int (a * b + c * d))"
    using assms by (simp_all only: small_fmul small_fsub small_fadd)
qed

lemma small_sum3:
  assumes "\<bar>a\<bar> \<le> 2048" "\<bar>b\<bar> \<le> 2048" "\<bar>c\<bar> \<le> 2048" "\<bar>d\<bar> \<le> 2048" "\<bar>e\<bar> \<le> 2048" "\<bar>f\<bar> \<le> 2048"
  shows "fadd binary32 (Fin (of_int (a * b + c * d))) (fmul binary32 (Fin (of_int e)) (Fin (of_int f))) =
      Fin (of_int (a * b + c * d + e * f))"
proof -
  have "\<bar>a * b + c * d + e * f\<bar> < 2 ^ 24"
    using small_mult[OF assms(1,2)] small_mult[OF assms(3,4)] small_mult[OF assms(5,6)] by simp
  then show ?thesis
    using assms(5,6) by (simp only: small_fmul small_fadd)
qed

lemma f3_int_sel: "f3x (f3_int a) = Fin (of_int (v3x a))" "f3y (f3_int a) = Fin (of_int (v3y a))"
  "f3z (f3_int a) = Fin (of_int (v3z a))"
  by (simp_all add: f3_int_def)

lemma f2_int_sel: "f2x (f2_int a) = Fin (of_int (v2x a))" "f2y (f2_int a) = Fin (of_int (v2y a))"
  by (simp_all add: f2_int_def f2_of_def f2_new_def)

lemma v3_add_Inr: "v3_add a b = Inr c \<Longrightarrow> v3x c = v3x a + v3x b \<and> v3y c = v3y a + v3y b \<and> v3z c = v3z a + v3z b"
  by (auto simp: v3_add_def mk3_Inr ck_def split: if_splits)

lemma v3_sub_Inr: "v3_sub a b = Inr c \<Longrightarrow> v3x c = v3x a - v3x b \<and> v3y c = v3y a - v3y b \<and> v3z c = v3z a - v3z b"
  by (auto simp: v3_sub_def mk3_Inr ck_def split: if_splits)

lemma v3_mul_Inr: "v3_mul a b = Inr c \<Longrightarrow> v3x c = v3x a * v3x b \<and> v3y c = v3y a * v3y b \<and> v3z c = v3z a * v3z b"
  by (auto simp: v3_mul_def mk3_Inr ck_def split: if_splits)

lemma agree3_linear:
  assumes "small3 a" and "small3 b"
  shows "v3_add a b = Inr c \<Longrightarrow> f3_add (f3_int a) (f3_int b) = f3_int c"
    and "v3_sub a b = Inr c \<Longrightarrow> f3_sub (f3_int a) (f3_int b) = f3_int c"
    and "v3_mul a b = Inr c \<Longrightarrow> f3_mul (f3_int a) (f3_int b) = f3_int c"
    and "v3_cross a b = Inr c \<Longrightarrow> f3_cross (f3_int a) (f3_int b) = f3_int c"
proof -
  have ab: "\<bar>v3x a\<bar> \<le> 2048" "\<bar>v3y a\<bar> \<le> 2048" "\<bar>v3z a\<bar> \<le> 2048" "\<bar>v3x b\<bar> \<le> 2048" "\<bar>v3y b\<bar> \<le> 2048" "\<bar>v3z b\<bar> \<le> 2048"
    using assms by (simp_all add: small3_def)
  then have sums: "\<bar>v3x a + v3x b\<bar> < 2 ^ 24" "\<bar>v3y a + v3y b\<bar> < 2 ^ 24" "\<bar>v3z a + v3z b\<bar> < 2 ^ 24"
    "\<bar>v3x a - v3x b\<bar> < 2 ^ 24" "\<bar>v3y a - v3y b\<bar> < 2 ^ 24" "\<bar>v3z a - v3z b\<bar> < 2 ^ 24"
    by simp_all
  show "v3_add a b = Inr c \<Longrightarrow> f3_add (f3_int a) (f3_int b) = f3_int c"
    by (drule v3_add_Inr) (simp only: f3_add_def f3_int_sel small_fadd sums f3_int_def[of c] f3_of_def)
  show "v3_sub a b = Inr c \<Longrightarrow> f3_sub (f3_int a) (f3_int b) = f3_int c"
    by (drule v3_sub_Inr) (simp only: f3_sub_def f3_int_sel small_fsub sums f3_int_def[of c] f3_of_def)
  show "v3_mul a b = Inr c \<Longrightarrow> f3_mul (f3_int a) (f3_int b) = f3_int c"
    by (drule v3_mul_Inr) (simp only: f3_mul_def f3_int_sel small_fmul ab f3_int_def[of c] f3_of_def)
  show "v3_cross a b = Inr c \<Longrightarrow> f3_cross (f3_int a) (f3_int b) = f3_int c"
    by (simp only: f3_cross_def f3_int_sel small_products ab f3_int_def[of c] f3_of_def cross_components)
qed

lemma f3_dot_small:
  assumes "small3 a" and "small3 b"
  shows "f3_dot (f3_int a) (f3_int b) = Fin (of_int (inner3 a b))"
proof -
  have "\<bar>v3x a\<bar> \<le> 2048" "\<bar>v3y a\<bar> \<le> 2048" "\<bar>v3z a\<bar> \<le> 2048" "\<bar>v3x b\<bar> \<le> 2048" "\<bar>v3y b\<bar> \<le> 2048" "\<bar>v3z b\<bar> \<le> 2048"
    using assms by (simp_all add: small3_def)
  then show ?thesis
    by (simp only: f3_dot_def f3_int_sel small_products small_sum3 inner3_def)
qed

lemma inner3_small: "small3 a \<Longrightarrow> small3 b \<Longrightarrow> \<bar>inner3 a b\<bar> < 2 ^ 24"
  using small_mult[of "v3x a" "v3x b"] small_mult[of "v3y a" "v3y b"] small_mult[of "v3z a" "v3z b"]
  by (simp add: small3_def inner3_def)

lemma agree3_dot:
  assumes "small3 a" and "small3 b" and "v3_dot a b = Inr x"
  shows "f3_dot (f3_int a) (f3_int b) = x"
  using assms rnd32_int[OF inner3_small[OF assms(1,2)]]
  by (auto simp: v3_dot_def f3_dot_small inner3_def fl_of_int_def elim!: ck_float_cases dest!: sum3_Inr)

lemma agree3_length:
  assumes "small3 a" and "v3_length a = Inr x"
  shows "f3_length (f3_int a) = x"
proof -
  have "x = fl_cvt binary32 (fl_sqrt (fl_of_int binary64 (inner3 a a)))"
    using assms(2) unfolding v3_length_def inner3_def
    by (cases "sum3 (v3x a * v3x a) (v3y a * v3y a) (v3z a * v3z a)") (auto dest!: sum3_Inr)
  then show ?thesis
    using f3_dot_small[OF assms(1,1)] by (simp add: f3_length_def f3_dot_def fl_of_int_def)
qed

lemma agree2:
  assumes "small2 u" and "small2 v"
  shows "v2_add u v = Inr w \<Longrightarrow> f2_add (f2_int u) (f2_int v) = f2_int w"
    and "v2_dot u v = Inr x \<Longrightarrow> f2_dot (f2_int u) (f2_int v) = x"
    and "v2_cross u v = Inr x \<Longrightarrow> f2_cross (f2_int u) (f2_int v) = x"
    and "v2_perp u = Inr w \<Longrightarrow> f2_perp (f2_int u) = f2_int w"
proof -
  have ab: "\<bar>v2x u\<bar> \<le> 2048" "\<bar>v2y u\<bar> \<le> 2048" "\<bar>v2x v\<bar> \<le> 2048" "\<bar>v2y v\<bar> \<le> 2048"
    using assms by (simp_all add: small2_def)
  then have sums: "\<bar>v2x u + v2x v\<bar> < 2 ^ 24" "\<bar>v2y u + v2y v\<bar> < 2 ^ 24"
    by simp_all
  have prods: "\<bar>v2x u * v2x v + v2y u * v2y v\<bar> < 2 ^ 24" "\<bar>v2x u * v2y v - v2y u * v2x v\<bar> < 2 ^ 24"
    using small_mult[OF ab(1,3)] small_mult[OF ab(2,4)] small_mult[OF ab(1,4)] small_mult[OF ab(2,3)] by simp_all
  have "v2_add u v = Inr w \<Longrightarrow> v2x w = v2x u + v2x v \<and> v2y w = v2y u + v2y v"
    by (auto simp: v2_add_def mk2_Inr ck_Inr)
  then show "v2_add u v = Inr w \<Longrightarrow> f2_add (f2_int u) (f2_int v) = f2_int w"
    by (simp only: f2_add_def f2_int_sel small_fadd sums f2_int_def[of w] f2_of_def)
  show "v2_dot u v = Inr x \<Longrightarrow> f2_dot (f2_int u) (f2_int v) = x"
    unfolding f2_dot_def f2_int_sel small_products(2)[OF ab(1,3,2,4)] rnd32_int[OF prods(1), symmetric]
    by (auto simp: v2_dot_def fl_of_int_def elim!: ck_float_cases dest!: sum2_Inr)
  show "v2_cross u v = Inr x \<Longrightarrow> f2_cross (f2_int u) (f2_int v) = x"
    unfolding f2_cross_def f2_int_sel small_products(1)[OF ab(1,4,2,3)] rnd32_int[OF prods(2), symmetric]
    by (auto simp: v2_cross_def fl_of_int_def elim!: ck_float_cases dest!: det2_fits)
  show "v2_perp u = Inr w \<Longrightarrow> f2_perp (f2_int u) = f2_int w"
    by (auto simp: v2_perp_def mk2_Inr ck_Inr f2_perp_def f2_int_def f2_of_def f2_new_def)
qed



end
