(* ===== verification/Vector_Products.thy ===== *)
theory Vector_Products
  imports Vector_Single
begin

text \<open>
  How far the scalar product and the cross product of \<open>IVector3<float>\<close> are from the exact ones. Each product and
  each sum rounds once; the bounds are relative to the sum of the magnitudes of the products, so that they say
  little where large products cancel.
\<close>

section \<open>Sums of rounded products\<close>

lemma fmul_near:
  assumes "\<bar>x\<bar> \<le> 2 ^ 60" and "\<bar>y\<bar> \<le> 2 ^ 60"
  obtains p where "fmul binary32 (Fin x) (Fin y) = Fin p"
    and "\<bar>p - x * y\<bar> \<le> \<bar>x * y\<bar> / 2 ^ 24 + 1 / 2 ^ 150" and "\<bar>x * y\<bar> \<le> 2 ^ 120"
proof -
  have bound: "\<bar>x * y\<bar> \<le> 2 ^ 120"
    using mult_mono[OF assms] by (simp add: abs_mult)
  then have "\<bar>x * y\<bar> \<le> 2 ^ 125"
    by simp
  then obtain p where "rnd binary32 (x * y) = Fin p" "\<bar>p - x * y\<bar> \<le> \<bar>x * y\<bar> / 2 ^ 24 + 1 / 2 ^ 150"
    by (rule rnd32_any)
  with bound show thesis
    by (intro that) simp_all
qed

text \<open>Adding two approximate numbers: \<open>A\<close> bounds the magnitudes, \<open>a\<close> and \<open>b\<close> the errors so far.\<close>

lemma fadd_near:
  assumes "\<bar>p - P\<bar> \<le> a" and "\<bar>q - Q\<bar> \<le> b" and "\<bar>P\<bar> + \<bar>Q\<bar> \<le> A" and "a + b \<le> A / 2 ^ 10 + 1" and "A \<le> 2 ^ 123"
  obtains s where "fadd binary32 (Fin p) (Fin q) = Fin s"
    and "\<bar>s - (P + Q)\<bar> \<le> a + b + (A + a + b) / 2 ^ 24 + 1 / 2 ^ 150"
proof -
  have err: "\<bar>(p + q) - (P + Q)\<bar> \<le> a + b"
    using assms(1,2) by linarith
  then have size: "\<bar>p + q\<bar> \<le> A + a + b"
    using assms(3) by linarith
  have "0 \<le> A"
    using assms(3) by linarith
  then have "A / 2 ^ 10 \<le> A" by simp
  moreover have "2 ^ 123 + (2 ^ 123 + 1) \<le> (2 ^ 125 :: real)" by simp
  ultimately have "\<bar>p + q\<bar> \<le> 2 ^ 125"
    using size assms(4,5) by linarith
  then obtain s where s: "rnd binary32 (p + q) = Fin s" "\<bar>s - (p + q)\<bar> \<le> \<bar>p + q\<bar> / 2 ^ 24 + 1 / 2 ^ 150"
    by (rule rnd32_any)
  have "\<bar>p + q\<bar> / 2 ^ 24 \<le> (A + a + b) / 2 ^ 24"
    using size by (intro divide_right_mono) simp_all
  then have "\<bar>s - (P + Q)\<bar> \<le> a + b + (A + a + b) / 2 ^ 24 + 1 / 2 ^ 150"
    using err s(2) by linarith
  with s(1) show thesis
    by (intro that) simp_all
qed

lemma two_terms_near:
  assumes "\<bar>p - P\<bar> \<le> \<bar>P\<bar> / 2 ^ 24 + 1 / 2 ^ 150" "\<bar>P\<bar> \<le> 2 ^ 120"
    and "\<bar>q - Q\<bar> \<le> \<bar>Q\<bar> / 2 ^ 24 + 1 / 2 ^ 150" "\<bar>Q\<bar> \<le> 2 ^ 120"
  obtains s where "fadd binary32 (Fin p) (Fin q) = Fin s"
    and "\<bar>s - (P + Q)\<bar> \<le> (\<bar>P\<bar> + \<bar>Q\<bar>) * (2 / 2 ^ 24 + 1 / 2 ^ 46) + 1 / 2 ^ 148"
proof -
  define A where "A = \<bar>P\<bar> + \<bar>Q\<bar>"
  have A: "0 \<le> A" "A \<le> 2 ^ 123"
    using assms(2,4) by (simp_all add: A_def)
  have ab: "(\<bar>P\<bar> / 2 ^ 24 + 1 / 2 ^ 150) + (\<bar>Q\<bar> / 2 ^ 24 + 1 / 2 ^ 150) = A / 2 ^ 24 + 2 / 2 ^ 150"
    by (simp add: A_def field_simps)
  then have "(\<bar>P\<bar> / 2 ^ 24 + 1 / 2 ^ 150) + (\<bar>Q\<bar> / 2 ^ 24 + 1 / 2 ^ 150) \<le> A / 2 ^ 10 + 1"
    using A(1) by simp
  from fadd_near[OF assms(1,3) _ this A(2)] obtain s where s: "fadd binary32 (Fin p) (Fin q) = Fin s"
      "\<bar>s - (P + Q)\<bar> \<le> (\<bar>P\<bar> / 2 ^ 24 + 1 / 2 ^ 150) + (\<bar>Q\<bar> / 2 ^ 24 + 1 / 2 ^ 150) +
        (A + (\<bar>P\<bar> / 2 ^ 24 + 1 / 2 ^ 150) + (\<bar>Q\<bar> / 2 ^ 24 + 1 / 2 ^ 150)) / 2 ^ 24 + 1 / 2 ^ 150"
    by (auto simp: A_def)
  note s(2)
  also have "\<dots> \<le> A * (2 / 2 ^ 24 + 1 / 2 ^ 46) + 1 / 2 ^ 148"
    using ab A(1) by (simp add: field_simps)
  finally show thesis
    using s(1) by (intro that) (simp_all add: A_def)
qed

lemma product_sum_near:
  assumes "\<bar>x\<bar> \<le> 2 ^ 60" "\<bar>y\<bar> \<le> 2 ^ 60" "\<bar>u\<bar> \<le> 2 ^ 60" "\<bar>v\<bar> \<le> 2 ^ 60"
  obtains s where "fadd binary32 (fmul binary32 (Fin x) (Fin y)) (fmul binary32 (Fin u) (Fin v)) = Fin s"
    and "\<bar>s - (x * y + u * v)\<bar> \<le> (\<bar>x * y\<bar> + \<bar>u * v\<bar>) * (2 / 2 ^ 24 + 1 / 2 ^ 46) + 1 / 2 ^ 148"
    and "\<bar>x * y\<bar> + \<bar>u * v\<bar> \<le> 2 ^ 121"
proof -
  obtain p where p: "fmul binary32 (Fin x) (Fin y) = Fin p" "\<bar>p - x * y\<bar> \<le> \<bar>x * y\<bar> / 2 ^ 24 + 1 / 2 ^ 150"
      "\<bar>x * y\<bar> \<le> 2 ^ 120"
    using assms(1,2) by (rule fmul_near)
  obtain q where q: "fmul binary32 (Fin u) (Fin v) = Fin q" "\<bar>q - u * v\<bar> \<le> \<bar>u * v\<bar> / 2 ^ 24 + 1 / 2 ^ 150"
      "\<bar>u * v\<bar> \<le> 2 ^ 120"
    using assms(3,4) by (rule fmul_near)
  show thesis
    using two_terms_near[OF p(2,3) q(2,3)] p(1,3) q(1,3) that by fastforce
qed

lemma product_diff_near:
  assumes "\<bar>x\<bar> \<le> 2 ^ 60" "\<bar>y\<bar> \<le> 2 ^ 60" "\<bar>u\<bar> \<le> 2 ^ 60" "\<bar>v\<bar> \<le> 2 ^ 60"
  obtains s where "fsub binary32 (fmul binary32 (Fin x) (Fin y)) (fmul binary32 (Fin u) (Fin v)) = Fin s"
    and "\<bar>s - (x * y - u * v)\<bar> \<le> (\<bar>x * y\<bar> + \<bar>u * v\<bar>) / 2 ^ 22 + 1 / 2 ^ 147"
proof -
  obtain p where p: "fmul binary32 (Fin x) (Fin y) = Fin p" "\<bar>p - x * y\<bar> \<le> \<bar>x * y\<bar> / 2 ^ 24 + 1 / 2 ^ 150"
      "\<bar>x * y\<bar> \<le> 2 ^ 120"
    using assms(1,2) by (rule fmul_near)
  obtain q where q: "fmul binary32 (Fin u) (Fin v) = Fin q" "\<bar>q - u * v\<bar> \<le> \<bar>u * v\<bar> / 2 ^ 24 + 1 / 2 ^ 150"
      "\<bar>u * v\<bar> \<le> 2 ^ 120"
    using assms(3,4) by (rule fmul_near)
  have "\<bar>- q - - (u * v)\<bar> \<le> \<bar>- (u * v)\<bar> / 2 ^ 24 + 1 / 2 ^ 150" "\<bar>- (u * v)\<bar> \<le> 2 ^ 120"
    using q(2,3) by (simp_all add: abs_minus_commute)
  from two_terms_near[OF p(2,3) this] obtain s where s: "fadd binary32 (Fin p) (Fin (- q)) = Fin s"
      "\<bar>s - (x * y + - (u * v))\<bar> \<le> (\<bar>x * y\<bar> + \<bar>- (u * v)\<bar>) * (2 / 2 ^ 24 + 1 / 2 ^ 46) + 1 / 2 ^ 148" .
  have "(\<bar>x * y\<bar> + \<bar>u * v\<bar>) * (2 / 2 ^ 24 + 1 / 2 ^ 46) + 1 / 2 ^ 148 \<le> (\<bar>x * y\<bar> + \<bar>u * v\<bar>) / 2 ^ 22 + 1 / 2 ^ 147"
    by (simp add: field_simps)
  then show thesis
    using s p(1) q(1) by (intro that[of s]) (simp_all add: fsub_def)
qed

section \<open>Scalar and cross product\<close>

lemma dot_near:
  assumes "\<bar>x\<bar> \<le> 2 ^ 60" "\<bar>y\<bar> \<le> 2 ^ 60" "\<bar>z\<bar> \<le> 2 ^ 60" "\<bar>u\<bar> \<le> 2 ^ 60" "\<bar>v\<bar> \<le> 2 ^ 60" "\<bar>w\<bar> \<le> 2 ^ 60"
  shows "\<exists>d. f3_dot (f3_of x y z) (f3_of u v w) = Fin d \<and>
    \<bar>d - (x * u + y * v + z * w)\<bar> \<le> (\<bar>x * u\<bar> + \<bar>y * v\<bar> + \<bar>z * w\<bar>) / 2 ^ 22 + 1 / 2 ^ 147"
proof -
  obtain s where s: "fadd binary32 (fmul binary32 (Fin x) (Fin u)) (fmul binary32 (Fin y) (Fin v)) = Fin s"
      "\<bar>s - (x * u + y * v)\<bar> \<le> (\<bar>x * u\<bar> + \<bar>y * v\<bar>) * (2 / 2 ^ 24 + 1 / 2 ^ 46) + 1 / 2 ^ 148"
      "\<bar>x * u\<bar> + \<bar>y * v\<bar> \<le> 2 ^ 121"
    using assms(1,4,2,5) by (rule product_sum_near)
  obtain r where r: "fmul binary32 (Fin z) (Fin w) = Fin r" "\<bar>r - z * w\<bar> \<le> \<bar>z * w\<bar> / 2 ^ 24 + 1 / 2 ^ 150"
      "\<bar>z * w\<bar> \<le> 2 ^ 120"
    using assms(3,6) by (rule fmul_near)
  define T where "T = \<bar>x * u\<bar> + \<bar>y * v\<bar> + \<bar>z * w\<bar>"
  define a where "a = (\<bar>x * u\<bar> + \<bar>y * v\<bar>) * (2 / 2 ^ 24 + 1 / 2 ^ 46) + 1 / 2 ^ 148"
  define b where "b = \<bar>z * w\<bar> / 2 ^ 24 + 1 / 2 ^ 150"
  have T: "0 \<le> T" "T \<le> 2 ^ 123" "\<bar>x * u + y * v\<bar> + \<bar>z * w\<bar> \<le> T"
    using s(3) r(3) by (simp_all add: T_def abs_triangle_ineq)
  have ab: "a + b \<le> T * (2 / 2 ^ 24 + 1 / 2 ^ 46) + 1 / 2 ^ 148 + 1 / 2 ^ 150"
    by (simp add: a_def b_def T_def field_simps)
  then have "a + b \<le> T / 2 ^ 10 + 1"
    using T(1) by (simp add: field_simps)
  from fadd_near[OF s(2)[folded a_def] r(2)[folded b_def] T(3) this T(2)] obtain d where
    d: "fadd binary32 (Fin s) (Fin r) = Fin d"
      "\<bar>d - (x * u + y * v + z * w)\<bar> \<le> a + b + (T + a + b) / 2 ^ 24 + 1 / 2 ^ 150" .
  note d(2)
  also have "a + b + (T + a + b) / 2 ^ 24 + 1 / 2 ^ 150 \<le> T / 2 ^ 22 + 1 / 2 ^ 147"
    using ab T(1) by (simp add: field_simps)
  finally show ?thesis
    using s(1) r(1) d(1) by (simp add: f3_dot_def T_def)
qed



end
