(* ===== verification/Perlin_Noise.thy ===== *)
theory Perlin_Noise
  imports Vector_Float
begin

text \<open>
  \<open>PerlinNoise2D\<close> (\<^verbatim>\<open>src/src/mathematics/perlin_noise_2D\<close>) in the single-precision arithmetic it computes
  with: the pseudo-random gradients at the corners of a cell, the fade polynomial and the bilinear
  interpolation. The hash of the standard library and the double-precision \<^verbatim>\<open>cos\<close> and \<^verbatim>\<open>sin\<close> of the C
  library are arguments.
\<close>

section \<open>Operations\<close>

record perlin_noise2D =
  pn_generator :: random2D

definition pn_new :: "(64 word \<Rightarrow> 64 word) \<Rightarrow> 64 word \<Rightarrow> 32 word \<Rightarrow> 32 word \<Rightarrow> 64 word \<Rightarrow> perlin_noise2D" where
  "pn_new ptr_hash now pid rand addr = \<lparr>pn_generator = rg_default ptr_hash now pid rand addr\<rparr>"

definition pn_linearInterpolation :: "fp \<Rightarrow> fp \<Rightarrow> fp \<Rightarrow> fp" where
  "pn_linearInterpolation a b t = fadd binary32 a (fmul binary32 t (fsub binary32 b a))"

text \<open>The angle is a whole number of degrees, negative where the remainder is.\<close>

definition pn_angle :: "64 word \<Rightarrow> fp" where
  "pn_angle randVal =
     fdiv binary32 (fmul binary32 (fl_of_int binary32 (sint randVal smod 360)) (rnd binary32 (314159 / 100000))) (Fin 180)"

definition pn_gradient ::
    "(64 word \<Rightarrow> 64 word) \<Rightarrow> (fp \<Rightarrow> fp) \<Rightarrow> (fp \<Rightarrow> fp) \<Rightarrow> perlin_noise2D \<Rightarrow> int \<Rightarrow> int \<Rightarrow> fvector2 res" where
  "pn_gradient hash cosd sind p i j =
     (case rg_call hash (pn_generator p) (word_of_int i) (word_of_int j) of
        Inl e \<Rightarrow> Inl e
      | Inr randVal \<Rightarrow>
          Inr \<lparr>f2x = fl_cvt binary32 (cosd (pn_angle randVal)), f2y = fl_cvt binary32 (sind (pn_angle randVal))\<rparr>)"

definition pn_fade :: "fp \<Rightarrow> fp" where
  "pn_fade t =
     fmul binary32 (fmul binary32 (fmul binary32 t t) t)
       (fadd binary32 (fmul binary32 t (fsub binary32 (fmul binary32 t (Fin 6)) (Fin 15))) (Fin 10))"

text \<open>A call of \<open>gradient\<close> with \<^verbatim>\<open>float\<close> arguments, which are converted to \<open>int\<close>.\<close>

definition pn_gradient_at ::
    "(64 word \<Rightarrow> 64 word) \<Rightarrow> (fp \<Rightarrow> fp) \<Rightarrow> (fp \<Rightarrow> fp) \<Rightarrow> perlin_noise2D \<Rightarrow> fp \<Rightarrow> fp \<Rightarrow> fvector2 res" where
  "pn_gradient_at hash cosd sind p a b =
     (case fl_to_int a of
        Inl e \<Rightarrow> Inl e
      | Inr i \<Rightarrow> (case fl_to_int b of Inl e \<Rightarrow> Inl e | Inr j \<Rightarrow> pn_gradient hash cosd sind p i j))"

text \<open>The second half of \<open>sample\<close>: from the local coordinates and the four gradients to the value.\<close>

definition pn_value :: "fp \<Rightarrow> fp \<Rightarrow> fvector2 \<Rightarrow> fvector2 \<Rightarrow> fvector2 \<Rightarrow> fvector2 \<Rightarrow> fp" where
  "pn_value u v g00 g10 g01 g11 =
     (let u1 = fsub binary32 u (Fin 1);
          v1 = fsub binary32 v (Fin 1);
          dot00 = f2_dot \<lparr>f2x = u, f2y = v\<rparr> g00;
          dot10 = f2_dot \<lparr>f2x = u1, f2y = v\<rparr> g10;
          dot01 = f2_dot \<lparr>f2x = u, f2y = v1\<rparr> g01;
          dot11 = f2_dot \<lparr>f2x = u1, f2y = v1\<rparr> g11;
          fu = pn_fade u;
          fv = pn_fade v;
          ix0 = pn_linearInterpolation dot00 dot10 fu;
          ix1 = pn_linearInterpolation dot01 dot11 fu
      in pn_linearInterpolation ix0 ix1 fv)"

definition pn_sample ::
    "(64 word \<Rightarrow> 64 word) \<Rightarrow> (fp \<Rightarrow> fp) \<Rightarrow> (fp \<Rightarrow> fp) \<Rightarrow> perlin_noise2D \<Rightarrow> fp \<Rightarrow> fp \<Rightarrow> fp res" where
  "pn_sample hash cosd sind p x y =
     (let cell = \<lparr>f2x = fl_floor x, f2y = fl_floor y\<rparr>;
          localCoord = f2_sub_assign \<lparr>f2x = x, f2y = y\<rparr> cell;
          x1 = fadd binary32 (f2x cell) (Fin 1);
          y1 = fadd binary32 (f2y cell) (Fin 1);
          grad = pn_gradient_at hash cosd sind p
      in case grad (f2x cell) (f2y cell) of Inl e \<Rightarrow> Inl e | Inr g00 \<Rightarrow>
         (case grad x1 (f2y cell) of Inl e \<Rightarrow> Inl e | Inr g10 \<Rightarrow>
         (case grad (f2x cell) y1 of Inl e \<Rightarrow> Inl e | Inr g01 \<Rightarrow>
         (case grad x1 y1 of Inl e \<Rightarrow> Inl e | Inr g11 \<Rightarrow>
            Inr (pn_value (f2x localCoord) (f2y localCoord) g00 g10 g01 g11)))))"

section \<open>Single-precision arithmetic on small numbers\<close>

text \<open>
  \<open>near e x r\<close>: the computed number \<open>x\<close> is finite and differs from the exact \<open>r\<close> by at most \<open>e\<close> units of
  \<open>2 ^ -20\<close>, which bounds the rounding error of numbers up to 16.
\<close>

definition near :: "real \<Rightarrow> fp \<Rightarrow> real \<Rightarrow> bool" where
  "near e x r \<longleftrightarrow> (\<exists>y. x = Fin y \<and> \<bar>y - r\<bar> \<le> e / 2 ^ 20)"

lemma near_exact: "near 0 (Fin r) r"
  by (simp add: near_def)

lemma near_weaken: "near e x r \<Longrightarrow> e \<le> e' \<Longrightarrow> near e' x r"
  unfolding near_def by (auto intro: order_trans)

lemma near_rnd:
  assumes "\<bar>z\<bar> \<le> 16" and "\<bar>z - r\<bar> \<le> e / 2 ^ 20"
  shows "near (e + 1) (rnd binary32 z) r"
proof -
  have "\<bar>z\<bar> \<le> 2 powi 4"
    using assms(1) by simp
  moreover obtain y where y: "rnd binary32 z = Fin y"
    by (rule rnd_bound[OF formats_wf(1) \<open>\<bar>z\<bar> \<le> 2 powi 4\<close>]) (simp_all add: fm_emin_def binary32_def)
  ultimately have "\<bar>y - z\<bar> \<le> 2 powi (4 - int (fm_prec binary32))"
    by (intro rnd_abs_error) (simp_all add: fm_emin_def binary32_def)
  then have "\<bar>y - z\<bar> \<le> 1 / 2 ^ 20"
    by (simp add: binary32_def power_int_minus)
  then have "\<bar>y - r\<bar> \<le> (e + 1) / 2 ^ 20"
    using assms(2) unfolding add_divide_distrib by linarith
  with y show ?thesis
    by (auto simp: near_def)
qed

lemma near_add:
  assumes "near d x p" and "near e y q" and "\<bar>p + q\<bar> \<le> 15" and "d + e \<le> 2 ^ 20"
  shows "near (d + e + 1) (fadd binary32 x y) (p + q)"
proof -
  obtain a b where ab: "x = Fin a" "y = Fin b" "\<bar>a - p\<bar> \<le> d / 2 ^ 20" "\<bar>b - q\<bar> \<le> e / 2 ^ 20"
    using assms(1,2) by (auto simp: near_def)
  then have err: "\<bar>(a + b) - (p + q)\<bar> \<le> (d + e) / 2 ^ 20"
    unfolding add_divide_distrib by linarith
  also have "\<dots> \<le> 1"
    using assms(4) by simp
  finally have "\<bar>a + b\<bar> \<le> 16"
    using assms(3) by linarith
  with err show ?thesis
    unfolding ab(1,2) fadd.simps by (intro near_rnd)
qed

lemma near_minus: "near e (Fin a) p \<Longrightarrow> near e (Fin (- a)) (- p)"
  by (simp add: near_def abs_minus_commute)

lemma near_sub:
  assumes "near d x p" and "near e y q" and "\<bar>p - q\<bar> \<le> 15" and "d + e \<le> 2 ^ 20"
  shows "near (d + e + 1) (fsub binary32 x y) (p - q)"
proof -
  obtain a b where "x = Fin a" "y = Fin b"
    using assms(1,2) by (auto simp: near_def)
  then show ?thesis
    using near_add[OF assms(1), of e "Fin (- b)" "- q"] near_minus[of e b q] assms(2-4) by simp
qed

lemma near_mul:
  assumes "near d x p" and "near e y q" and "\<bar>p\<bar> \<le> P" and "\<bar>q\<bar> \<le> Q" and "P * Q \<le> 15"
    and "d * Q + e * P + d * e / 2 ^ 20 \<le> c" and "c \<le> 2 ^ 20"
  shows "near (c + 1) (fmul binary32 x y) (p * q)"
proof -
  obtain a b where ab: "x = Fin a" "y = Fin b" "\<bar>a - p\<bar> \<le> d / 2 ^ 20" "\<bar>b - q\<bar> \<le> e / 2 ^ 20"
    using assms(1,2) by (auto simp: near_def)
  have "a * b - p * q = (a - p) * q + (b - q) * p + (a - p) * (b - q)"
    by (simp add: algebra_simps)
  then have "\<bar>a * b - p * q\<bar> \<le> \<bar>a - p\<bar> * \<bar>q\<bar> + \<bar>b - q\<bar> * \<bar>p\<bar> + \<bar>a - p\<bar> * \<bar>b - q\<bar>"
    unfolding abs_mult[symmetric] by linarith
  also have "\<dots> \<le> d / 2 ^ 20 * Q + e / 2 ^ 20 * P + d / 2 ^ 20 * (e / 2 ^ 20)"
    using ab(3,4) assms(3,4) by (intro add_mono mult_mono) linarith+
  also have "\<dots> \<le> c / 2 ^ 20"
    using assms(6) by (simp add: field_simps)
  finally have err: "\<bar>a * b - p * q\<bar> \<le> c / 2 ^ 20" .
  also have "\<dots> \<le> 1"
    using assms(7) by simp
  finally have "\<bar>a * b\<bar> \<le> \<bar>p\<bar> * \<bar>q\<bar> + 1"
    unfolding abs_mult[symmetric] by linarith
  moreover have "\<bar>p\<bar> * \<bar>q\<bar> \<le> P * Q"
    using assms(3,4) by (intro mult_mono) (auto intro: order_trans[OF abs_ge_zero])
  ultimately have "\<bar>a * b\<bar> \<le> 16"
    using assms(5) by linarith
  with err show ?thesis
    unfolding ab(1,2) fmul.simps by (intro near_rnd)
qed

section \<open>The exact noise\<close>

text \<open>The functions that \<open>fade\<close>, \<open>linearInterpolation\<close> and \<open>sample\<close> approximate, on real numbers.\<close>

definition fade_r :: "real \<Rightarrow> real" where
  "fade_r t = t * t * t * (t * (t * 6 - 15) + 10)"

definition lerp :: "real \<Rightarrow> real \<Rightarrow> real \<Rightarrow> real" where
  "lerp a b t = a + t * (b - a)"

lemma fade_poly:
  fixes t :: real
  assumes "0 \<le> t" and "t \<le> 1"
  shows "1 \<le> t * (t * 6 - 15) + 10" and "t * (t * 6 - 15) + 10 \<le> 10"
proof -
  have "0 \<le> (1 - t) * (9 - 6 * t)" "0 \<le> t * (15 - 6 * t)"
    using assms by simp_all
  then show "1 \<le> t * (t * 6 - 15) + 10" "t * (t * 6 - 15) + 10 \<le> 10"
    by (simp_all add: algebra_simps)
qed

lemma fade_r_nonneg: "0 \<le> t \<Longrightarrow> t \<le> 1 \<Longrightarrow> 0 \<le> fade_r t"
  unfolding fade_r_def using fade_poly[of t] by (intro mult_nonneg_nonneg) linarith+

lemma fade_r_mirror: "fade_r (1 - t) = 1 - fade_r t"
  unfolding fade_r_def by (simp add: algebra_simps)

lemma fade_r_range: "0 \<le> t \<Longrightarrow> t \<le> 1 \<Longrightarrow> 0 \<le> fade_r t \<and> fade_r t \<le> 1"
  using fade_r_nonneg[of t] fade_r_nonneg[of "1 - t"] by (simp add: fade_r_mirror)

text \<open>Interpolation is a convex combination, so squares stay below the interpolated squares.\<close>

lemma lerp_square:
  assumes "0 \<le> t" and "t \<le> 1" and "a\<^sup>2 \<le> A" and "b\<^sup>2 \<le> B"
  shows "(lerp a b t)\<^sup>2 \<le> lerp A B t"
proof -
  have "0 \<le> t * (1 - t) * (b - a)\<^sup>2"
    using assms(1,2) by simp
  then have "(lerp a b t)\<^sup>2 \<le> (1 - t) * a\<^sup>2 + t * b\<^sup>2"
    by (simp add: lerp_def power2_eq_square algebra_simps)
  also have "\<dots> \<le> (1 - t) * A + t * B"
    using assms by (intro add_mono mult_left_mono) simp_all
  finally show ?thesis
    by (simp add: lerp_def algebra_simps)
qed

text \<open>The share of one coordinate in the mean squared distance to the corners.\<close>

lemma corner_share:
  assumes "0 \<le> t" and "t \<le> 1"
  shows "lerp (t\<^sup>2) ((t - 1)\<^sup>2) (fade_r t) \<le> 1 / 4"
proof -
  have decomp: "1 / 4 - lerp (t\<^sup>2) ((t - 1)\<^sup>2) (fade_r t) =
      (t - 1 / 2)\<^sup>2 * (12 * ((t - 1 / 2)\<^sup>2)\<^sup>2 - 10 * (t - 1 / 2)\<^sup>2 + 11 / 4)"
    by (simp add: lerp_def fade_r_def power2_eq_square field_simps)
  have "(t - 1 / 2)\<^sup>2 \<le> (1 / 2)\<^sup>2"
    using assms by (intro abs_le_square_iff[THEN iffD1]) linarith
  then have "(t - 1 / 2)\<^sup>2 \<le> 1 / 4"
    by (simp add: power_divide)
  then have "0 \<le> 12 * ((t - 1 / 2)\<^sup>2)\<^sup>2 - 10 * (t - 1 / 2)\<^sup>2 + 11 / 4"
    using zero_le_power2[of "(t - 1 / 2)\<^sup>2"] by linarith
  then have "0 \<le> 1 / 4 - lerp (t\<^sup>2) ((t - 1)\<^sup>2) (fade_r t)"
    unfolding decomp by simp
  then show ?thesis by simp
qed

lemma dot_square:
  fixes a b p q :: real
  assumes "p\<^sup>2 + q\<^sup>2 = 1"
  shows "(a * p + b * q)\<^sup>2 \<le> a\<^sup>2 + b\<^sup>2"
proof -
  have "(a * p + b * q)\<^sup>2 + (a * q - b * p)\<^sup>2 = (a\<^sup>2 + b\<^sup>2) * (p\<^sup>2 + q\<^sup>2)"
    by (simp add: power2_eq_square algebra_simps)
  then show ?thesis
    unfolding assms mult_1_right by (metis le_add_same_cancel1 zero_le_power2)
qed

text \<open>With unit gradients the exact noise is at most the root of one half in magnitude.\<close>

definition noise_r :: "real \<Rightarrow> real \<Rightarrow> (real \<times> real) \<Rightarrow> (real \<times> real) \<Rightarrow> (real \<times> real) \<Rightarrow> (real \<times> real) \<Rightarrow> real" where
  "noise_r u v g00 g10 g01 g11 =
     lerp (lerp (u * fst g00 + v * snd g00) ((u - 1) * fst g10 + v * snd g10) (fade_r u))
       (lerp (u * fst g01 + (v - 1) * snd g01) ((u - 1) * fst g11 + (v - 1) * snd g11) (fade_r u)) (fade_r v)"

abbreviation unit :: "real \<times> real \<Rightarrow> bool" where
  "unit g \<equiv> (fst g)\<^sup>2 + (snd g)\<^sup>2 = 1"

lemma noise_r_bound:
  assumes "0 \<le> u" "u \<le> 1" "0 \<le> v" "v \<le> 1" and "unit g00" "unit g10" "unit g01" "unit g11"
  shows "(noise_r u v g00 g10 g01 g11)\<^sup>2 \<le> 1 / 2"
proof -
  have "(noise_r u v g00 g10 g01 g11)\<^sup>2
      \<le> lerp (lerp (u\<^sup>2 + v\<^sup>2) ((u - 1)\<^sup>2 + v\<^sup>2) (fade_r u))
          (lerp (u\<^sup>2 + (v - 1)\<^sup>2) ((u - 1)\<^sup>2 + (v - 1)\<^sup>2) (fade_r u)) (fade_r v)"
    unfolding noise_r_def using assms fade_r_range by (intro lerp_square dot_square) blast+
  also have "\<dots> = lerp (u\<^sup>2) ((u - 1)\<^sup>2) (fade_r u) + lerp (v\<^sup>2) ((v - 1)\<^sup>2) (fade_r v)"
    by (simp add: lerp_def algebra_simps)
  also have "\<dots> \<le> 1 / 4 + 1 / 4"
    using assms by (intro add_mono corner_share)
  finally show ?thesis by simp
qed

section \<open>The computed noise\<close>

lemma near_fade:
  assumes "0 \<le> t" and "t \<le> 1"
  shows "near 27 (pn_fade (Fin t)) (fade_r t)"
proof -
  let ?t = "Fin t"
  have "near 1 (fmul binary32 ?t ?t) (t * t)"
    using near_mul[OF near_exact near_exact, of t 1 t 1 0] assms by simp
  then have cube: "near 2 (fmul binary32 (fmul binary32 ?t ?t) ?t) (t * t * t)"
    using near_mul[OF _ near_exact, of 1 _ "t * t" 1 t 1 1] assms by (simp add: mult_le_one abs_mult)
  have "near 1 (fmul binary32 ?t (Fin 6)) (t * 6)"
    using near_mul[OF near_exact near_exact, of t 1 6 6 0] assms by simp
  then have "near 2 (fsub binary32 (fmul binary32 ?t (Fin 6)) (Fin 15)) (t * 6 - 15)"
    using near_sub[OF _ near_exact, of 1 _ "t * 6" 15] assms by simp
  then have "near 3 (fmul binary32 ?t (fsub binary32 (fmul binary32 ?t (Fin 6)) (Fin 15))) (t * (t * 6 - 15))"
    using near_mul[OF near_exact, of 2 _ "t * 6 - 15" t 1 15 2] assms by simp
  then have "near 4 (fadd binary32 (fmul binary32 ?t (fsub binary32 (fmul binary32 ?t (Fin 6)) (Fin 15))) (Fin 10))
      (t * (t * 6 - 15) + 10)"
    using near_add[OF _ near_exact, of 3 _ "t * (t * 6 - 15)" 10] fade_poly[OF assms] by simp
  from near_mul[OF cube this, of 1 10 26] show ?thesis
    using fade_poly[OF assms] assms by (simp add: pn_fade_def fade_r_def mult_le_one abs_mult)
qed

lemma lerp_abs: "\<bar>a\<bar> \<le> 2 \<Longrightarrow> \<bar>b\<bar> \<le> 2 \<Longrightarrow> 0 \<le> t \<Longrightarrow> t \<le> 1 \<Longrightarrow> \<bar>lerp a b t\<bar> \<le> 2"
  using lerp_square[of t a 4 b 4] abs_le_square_iff[of a 2] abs_le_square_iff[of b 2]
    abs_le_square_iff[of "lerp a b t" 2] by (simp add: lerp_def)

lemma near_lerp:
  assumes "near d x a" and "near d y b" and "near e z t" and "\<bar>a\<bar> \<le> 2" and "\<bar>b\<bar> \<le> 2" and "0 \<le> t" and "t \<le> 1"
    and "e * 4 + (2 * d + 1) + e * (2 * d + 1) / 2 ^ 20 \<le> c" and "d + c \<le> 2 ^ 19" and "0 \<le> d" and "0 \<le> c"
  shows "near (d + c + 2) (pn_linearInterpolation x y z) (lerp a b t)"
proof -
  have "near (2 * d + 1) (fsub binary32 y x) (b - a)"
    using near_sub[OF assms(2,1)] assms(4,5,9,11) by simp
  then have "near (c + 1) (fmul binary32 z (fsub binary32 y x)) (t * (b - a))"
    using near_mul[OF assms(3), of "2 * d + 1" _ "b - a" 1 4 c] assms by simp
  moreover have "\<bar>a + t * (b - a)\<bar> \<le> 2"
    using lerp_abs[OF assms(4-7)] by (simp add: lerp_def)
  ultimately show ?thesis
    using near_add[OF assms(1), of "c + 1" _ "t * (b - a)"] assms(9)
    by (simp add: pn_linearInterpolation_def lerp_def add.assoc)
qed

text \<open>A gradient whose components are those of a unit vector up to their rounding.\<close>

definition near_unit :: "fvector2 \<Rightarrow> real \<times> real \<Rightarrow> bool" where
  "near_unit g r \<longleftrightarrow> unit r \<and> near 2 (f2x g) (fst r) \<and> near 2 (f2y g) (snd r)"

lemma unit_abs: "unit r \<Longrightarrow> \<bar>fst r\<bar> \<le> 1 \<and> \<bar>snd r\<bar> \<le> 1"
  using abs_le_square_iff[of "fst r" 1] abs_le_square_iff[of "snd r" 1]
    zero_le_power2[of "fst r"] zero_le_power2[of "snd r"] by simp

lemma near_dot:
  assumes "near 1 x p" and "near 1 y q" and "\<bar>p\<bar> \<le> 1" and "\<bar>q\<bar> \<le> 1" and "near_unit g r"
  shows "near 11 (f2_dot \<lparr>f2x = x, f2y = y\<rparr> g) (p * fst r + q * snd r)" and "\<bar>p * fst r + q * snd r\<bar> \<le> 2"
proof -
  have r: "\<bar>fst r\<bar> \<le> 1" "\<bar>snd r\<bar> \<le> 1" "near 2 (f2x g) (fst r)" "near 2 (f2y g) (snd r)"
    using assms(5) unit_abs by (auto simp: near_unit_def)
  have "near 5 (fmul binary32 x (f2x g)) (p * fst r)" "near 5 (fmul binary32 y (f2y g)) (q * snd r)"
    using near_mul[OF assms(1) r(3) assms(3) r(1), of 4] near_mul[OF assms(2) r(4) assms(4) r(2), of 4] by simp_all
  moreover have "\<bar>p * fst r\<bar> \<le> 1" "\<bar>q * snd r\<bar> \<le> 1"
    using assms(3,4) r(1,2) by (simp_all add: abs_mult mult_le_one)
  moreover from this show "\<bar>p * fst r + q * snd r\<bar> \<le> 2"
    by linarith
  ultimately show "near 11 (f2_dot \<lparr>f2x = x, f2y = y\<rparr> g) (p * fst r + q * snd r)"
    using near_add[of 5 _ "p * fst r" 5 _ "q * snd r"] by (simp add: f2_dot_def)
qed

lemma near_value:
  assumes u: "0 \<le> u" "u \<le> 1" and v: "0 \<le> v" "v \<le> 1"
    and "near_unit g00 r00" "near_unit g10 r10" "near_unit g01 r01" "near_unit g11 r11"
  shows "near 560 (pn_value (Fin u) (Fin v) g00 g10 g01 g11) (noise_r u v r00 r10 r01 r11)"
proof -
  let ?u1 = "fsub binary32 (Fin u) (Fin 1)" and ?v1 = "fsub binary32 (Fin v) (Fin 1)"
  have c: "near 1 (Fin u) u" "near 1 ?u1 (u - 1)" "near 1 (Fin v) v" "near 1 ?v1 (v - 1)"
    using near_sub[OF near_exact near_exact, of u 1] near_sub[OF near_exact near_exact, of v 1] u v
      near_weaken[OF near_exact, of 1] by simp_all
  have b: "\<bar>u\<bar> \<le> 1" "\<bar>u - 1\<bar> \<le> 1" "\<bar>v\<bar> \<le> 1" "\<bar>v - 1\<bar> \<le> 1"
    using u v by simp_all
  note f = fade_r_range[OF u, THEN conjunct1] fade_r_range[OF u, THEN conjunct2]
    fade_r_range[OF v, THEN conjunct1] fade_r_range[OF v, THEN conjunct2]
  note d00 = near_dot[OF c(1,3) b(1,3) assms(5)]
  note d10 = near_dot[OF c(2,3) b(2,3) assms(6)]
  note d01 = near_dot[OF c(1,4) b(1,4) assms(7)]
  note d11 = near_dot[OF c(2,4) b(2,4) assms(8)]
  have "near (11 + 132 + 2) (pn_linearInterpolation (f2_dot \<lparr>f2x = Fin u, f2y = Fin v\<rparr> g00)
        (f2_dot \<lparr>f2x = ?u1, f2y = Fin v\<rparr> g10) (pn_fade (Fin u)))
      (lerp (u * fst r00 + v * snd r00) ((u - 1) * fst r10 + v * snd r10) (fade_r u))"
    "near (11 + 132 + 2) (pn_linearInterpolation (f2_dot \<lparr>f2x = Fin u, f2y = ?v1\<rparr> g01)
        (f2_dot \<lparr>f2x = ?u1, f2y = ?v1\<rparr> g11) (pn_fade (Fin u)))
      (lerp (u * fst r01 + (v - 1) * snd r01) ((u - 1) * fst r11 + (v - 1) * snd r11) (fade_r u))"
    by (rule near_lerp[OF d00(1) d10(1) near_fade[OF u] d00(2) d10(2) f(1,2)]
          near_lerp[OF d01(1) d11(1) near_fade[OF u] d01(2) d11(2) f(1,2)]; simp)+
  note * = near_lerp[OF this near_fade[OF v] lerp_abs[OF d00(2) d10(2) f(1,2)] lerp_abs[OF d01(2) d11(2) f(1,2)] f(3,4),
      of 400]
  have "near (11 + 132 + 2 + 400 + 2) (pn_value (Fin u) (Fin v) g00 g10 g01 g11) (noise_r u v r00 r10 r01 r11)"
    unfolding pn_value_def noise_r_def Let_def by (rule *; simp)
  then show ?thesis
    by (rule near_weaken) simp
qed

lemma value_bound:
  assumes "0 \<le> u" "u \<le> 1" "0 \<le> v" "v \<le> 1"
    and "near_unit g00 r00" "near_unit g10 r10" "near_unit g01 r01" "near_unit g11 r11"
  obtains z where "pn_value (Fin u) (Fin v) g00 g10 g01 g11 = Fin z" and "\<bar>z\<bar> \<le> 3 / 4"
proof -
  obtain z where z: "pn_value (Fin u) (Fin v) g00 g10 g01 g11 = Fin z"
      "\<bar>z - noise_r u v r00 r10 r01 r11\<bar> \<le> 560 / 2 ^ 20"
    using near_value[OF assms] by (auto simp: near_def)
  have "(noise_r u v r00 r10 r01 r11)\<^sup>2 \<le> 1 / 2"
    using assms unfolding near_unit_def by (intro noise_r_bound) blast+
  also have "\<dots> \<le> (177 / 250)\<^sup>2"
    by (simp add: power2_eq_square)
  finally have "\<bar>noise_r u v r00 r10 r01 r11\<bar> \<le> \<bar>177 / 250\<bar>"
    by (simp only: abs_le_square_iff)
  moreover from order_trans[OF z(2), of "1 / 1000"] have "\<bar>z - noise_r u v r00 r10 r01 r11\<bar> \<le> 1 / 1000"
    by simp
  ultimately have "\<bar>z\<bar> \<le> 3 / 4"
    by linarith
  with z(1) show thesis
    by (rule that)
qed

section \<open>The C library's cos and sin\<close>

text \<open>
  What is asked of them: on a finite argument they return a number that differs from the mathematical
  function by at most \<open>2 ^ -30\<close>; the GNU C library documents one unit in the last place.
\<close>

locale trig_lib =
  fixes cosd sind :: "fp \<Rightarrow> fp"
  assumes cos_near: "\<exists>c. cosd (Fin a) = Fin c \<and> \<bar>c - cos a\<bar> \<le> 1 / 2 ^ 30"
    and sin_near: "\<exists>s. sind (Fin a) = Fin s \<and> \<bar>s - sin a\<bar> \<le> 1 / 2 ^ 30"
begin

lemma cvt_near:
  assumes "\<bar>c - r\<bar> \<le> 1 / 2 ^ 30" and "\<bar>r\<bar> \<le> 1"
  shows "near 2 (fl_cvt binary32 (Fin c)) r"
proof -
  have "\<bar>c - r\<bar> \<le> 1 / 2 ^ 20"
    by (rule order_trans[OF assms(1)]) simp
  moreover from order_trans[OF this, of 1] have "\<bar>c\<bar> \<le> 16"
    using assms(2) by simp
  ultimately show ?thesis
    using near_rnd[of c r 1] by simp
qed

lemma gradient_near:
  "\<exists>r. near_unit \<lparr>f2x = fl_cvt binary32 (cosd (Fin a)), f2y = fl_cvt binary32 (sind (Fin a))\<rparr> r"
proof -
  obtain c s where "cosd (Fin a) = Fin c" "\<bar>c - cos a\<bar> \<le> 1 / 2 ^ 30" "sind (Fin a) = Fin s" "\<bar>s - sin a\<bar> \<le> 1 / 2 ^ 30"
    using cos_near[of a] sin_near[of a] by blast
  then show ?thesis
    by (intro exI[of _ "(cos a, sin a)"])
      (simp add: near_unit_def cvt_near del: fl_cvt.simps)
qed

end

text \<open>The correctly rounded functions.\<close>

fun cos_cr :: "fp \<Rightarrow> fp" where
  "cos_cr (Fin x) = rnd binary64 (cos x)"
| "cos_cr _ = NaN"

fun sin_cr :: "fp \<Rightarrow> fp" where
  "sin_cr (Fin x) = rnd binary64 (sin x)"
| "sin_cr _ = NaN"

lemma rnd64_unit: "\<bar>r\<bar> \<le> 1 \<Longrightarrow> \<exists>y. rnd binary64 r = Fin y \<and> \<bar>y - r\<bar> \<le> 1 / 2 ^ 30"
proof -
  assume r: "\<bar>r\<bar> \<le> 1"
  then obtain y where y: "rnd binary64 r = Fin y"
    using rnd_bound[OF formats_wf(2), of r 0] by (auto simp: fm_emin_def binary64_def)
  have "\<bar>y - r\<bar> \<le> 2 powi (0 - int (fm_prec binary64))"
    using y r by (intro rnd_abs_error) (simp_all add: fm_emin_def binary64_def)
  also have "\<dots> \<le> 2 powi (- 30)"
    by (intro power_int_increasing) (simp_all add: binary64_def)
  finally show ?thesis
    using y by (simp add: power_int_minus field_simps)
qed

interpretation trig_cr: trig_lib cos_cr sin_cr
  by unfold_locales (use rnd64_unit in \<open>auto simp only: cos_cr.simps sin_cr.simps abs_cos_le_one abs_sin_le_one\<close>)

section \<open>Cells and gradients\<close>

text \<open>Coordinates whose cell and the next one fit an \<open>int\<close>.\<close>

definition pn_domain :: "real \<Rightarrow> bool" where
  "pn_domain x \<longleftrightarrow> - (2 ^ 31) \<le> x \<and> x \<le> 2 ^ 31 - 2 ^ 8"

lemma trunc_of_int [simp]: "trunc (of_int i) = i"
  by (simp add: trunc_def)

lemma fl_to_int_fits: "fits 32 (trunc y) \<Longrightarrow> fl_to_int (Fin y) = Inr (trunc y)"
  by (simp add: fits_def)

lemma trunc_fits: "- (2 ^ 31) \<le> y \<Longrightarrow> y < 2 ^ 31 \<Longrightarrow> fits 32 (trunc y)"
  by (auto simp: trunc_def fits_def le_floor_iff floor_less_iff ceiling_less_iff le_ceiling_iff)

lemma cell_int:
  assumes "pn_domain x"
  shows "fl_to_int (fl_floor (Fin x)) = Inr \<lfloor>x\<rfloor>" and "fits 32 \<lfloor>x\<rfloor>"
proof -
  show "fits 32 \<lfloor>x\<rfloor>"
    using assms by (auto simp: pn_domain_def fits_def le_floor_iff floor_less_iff)
  then show "fl_to_int (fl_floor (Fin x)) = Inr \<lfloor>x\<rfloor>"
    using fl_to_int_fits[of "of_int \<lfloor>x\<rfloor>"] by simp
qed

lemma next_cell_int:
  assumes "pn_domain x"
  obtains k where "fl_to_int (fadd binary32 (fl_floor (Fin x)) (Fin 1)) = Inr k" and "fits 32 k"
    and "\<bar>x\<bar> \<le> 2 ^ 23 \<Longrightarrow> k = \<lfloor>x\<rfloor> + 1"
proof -
  let ?z = "real_of_int (\<lfloor>x\<rfloor> + 1)"
  have "- (2 ^ 31) \<le> \<lfloor>x\<rfloor>"
    using cell_int(2)[OF assms] by (simp add: fits_def)
  then have "- (2 ^ 31) \<le> real_of_int \<lfloor>x\<rfloor>"
    using of_int_le_iff[of "- (2 ^ 31)" "\<lfloor>x\<rfloor>", where ?'a = real] by simp
  then have z: "- (2 ^ 31) + 1 \<le> ?z" "?z \<le> 2 ^ 31 - 2 ^ 8 + 1"
    using assms of_int_floor_le[of x] by (simp_all add: pn_domain_def)
  then have abs: "\<bar>?z\<bar> \<le> 2 powi 31"
    by (simp add: power_int_def abs_le_iff)
  then obtain y where y: "rnd binary32 ?z = Fin y" "\<bar>y\<bar> \<le> 2 powi 31"
    by (rule rnd_bound[OF formats_wf(1)]) (simp_all add: fm_emin_def binary32_def)
  have "\<bar>y - ?z\<bar> \<le> 2 powi (31 - int (fm_prec binary32))"
    using y(1) abs by (intro rnd_abs_error) (simp_all add: fm_emin_def binary32_def)
  then have "\<bar>y - ?z\<bar> \<le> 128"
    by (simp add: binary32_def power_int_def)
  moreover have "2 ^ 31 - 2 ^ 8 + 1 + 128 < (2 ^ 31 :: real)"
    by simp
  ultimately have "y < 2 ^ 31"
    using z(2) by linarith
  moreover have "- (2 ^ 31) \<le> y"
    using y(2) by (simp add: power_int_def abs_le_iff)
  ultimately have "fits 32 (trunc y)"
    by (intro trunc_fits)
  moreover have "trunc y = \<lfloor>x\<rfloor> + 1" if "\<bar>x\<bar> \<le> 2 ^ 23"
  proof -
    have "\<bar>\<lfloor>x\<rfloor> + 1\<bar> < 2 ^ fm_prec binary32"
      using that by (simp add: binary32_def abs_le_iff abs_less_iff) linarith
    then have "rnd binary32 ?z = Fin ?z"
      by (rule rnd_int[OF formats_wf(1)])
    then show ?thesis
      using y(1) trunc_of_int[of "\<lfloor>x\<rfloor> + 1"] by simp
  qed
  ultimately show thesis
    using that[of "trunc y"] y(1) by (simp add: fl_to_int_fits del: fl_to_int.simps)
qed

lemma local_coord:
  obtains u where "fsub binary32 (Fin x) (fl_floor (Fin x)) = Fin u" and "0 \<le> u" and "u \<le> 1"
proof -
  have x: "0 \<le> x - of_int \<lfloor>x\<rfloor>" "\<bar>x - of_int \<lfloor>x\<rfloor>\<bar> \<le> 2 powi 0"
    by simp_all linarith+
  obtain u where u: "rnd binary32 (x - of_int \<lfloor>x\<rfloor>) = Fin u" "\<bar>u\<bar> \<le> 2 powi 0"
    by (rule rnd_bound[OF formats_wf(1) x(2)]) (simp_all add: fm_emin_def binary32_def)
  then show thesis
    using rnd_nonneg[OF u(1) x(1)] by (intro that[of u]) simp_all
qed

lemma angle_finite: "\<exists>a. pn_angle w = Fin a"
proof -
  let ?d = "sint w smod 360"
  have d: "\<bar>?d\<bar> < 360"
    using smod_int_range[of 360 "sint w"] by auto
  then have "rnd binary32 (of_int ?d) = Fin (of_int ?d)"
    by (intro rnd_int) (simp_all, simp add: binary32_def)
  moreover obtain y where y: "rnd binary32 (314159 / 100000) = Fin y" "\<bar>y\<bar> \<le> 4"
    by (rule rnd_bound[OF formats_wf(1), of "314159 / 100000" 2]) (simp_all add: fm_emin_def binary32_def)
  have "\<bar>of_int ?d\<bar> * \<bar>y\<bar> \<le> 360 * 4"
    using d y(2) by (intro mult_mono) linarith+
  then have "\<bar>of_int ?d * y\<bar> \<le> 2 powi 11"
    by (simp add: abs_mult power_int_def)
  then obtain z where z: "rnd binary32 (of_int ?d * y) = Fin z" "\<bar>z\<bar> \<le> 2 powi 11"
    by (rule rnd_bound[OF formats_wf(1)]) (simp_all add: fm_emin_def binary32_def)
  then have "\<bar>z / 180\<bar> \<le> 2 powi 11"
    by (simp add: abs_divide)
  then obtain a where "rnd binary32 (z / 180) = Fin a"
    by (rule rnd_bound[OF formats_wf(1)]) (simp_all add: fm_emin_def binary32_def)
  ultimately show ?thesis
    using y(1) z(1) by (simp add: pn_angle_def fl_of_int_def)
qed

text \<open>On \<open>int\<close> coordinates the generator is defined and its argument is exact.\<close>

lemma rg_call_int:
  assumes "fits 32 i" and "fits 32 j"
  shows "rg_call hash g (word_of_int i) (word_of_int j) = Inr (hash (rg_seed g XOR word_of_int (i * 7 - j * 13)))"
proof -
  have "sint (word_of_int i :: 64 word) = i" "sint (word_of_int j :: 64 word) = j"
    using assms by (auto simp: fits_def intro!: signed_take_bit_int_eq_self simp: sint_sbintrunc')
  then show ?thesis
    using assms by (simp add: rg_call_def fits_def)
qed

lemma gradient_unit:
  assumes "trig_lib cosd sind" and "fits 32 i" and "fits 32 j"
  obtains g r where "pn_gradient hash cosd sind p i j = Inr g" and "near_unit g r"
proof -
  obtain a where "pn_angle (hash (rg_seed (pn_generator p) XOR word_of_int (i * 7 - j * 13))) = Fin a"
    using angle_finite by blast
  then show thesis
    using that trig_lib.gradient_near[OF assms(1), of a] by (auto simp: pn_gradient_def rg_call_int[OF assms(2,3)])
qed

section \<open>Properties\<close>

text \<open>Inside the domain \<open>sample\<close> reaches its value, from unit gradients and local coordinates in the unit square.\<close>

lemma sample_value:
  assumes "trig_lib cosd sind" and "pn_domain x" and "pn_domain y"
  obtains u v g00 g10 g01 g11 r00 r10 r01 r11 where
    "pn_sample hash cosd sind p (Fin x) (Fin y) = Inr (pn_value (Fin u) (Fin v) g00 g10 g01 g11)"
    and "fsub binary32 (Fin x) (fl_floor (Fin x)) = Fin u" and "fsub binary32 (Fin y) (fl_floor (Fin y)) = Fin v"
    and "0 \<le> u" "u \<le> 1" "0 \<le> v" "v \<le> 1"
    and "near_unit g00 r00" "near_unit g10 r10" "near_unit g01 r01" "near_unit g11 r11"
proof -
  obtain u where u: "fsub binary32 (Fin x) (fl_floor (Fin x)) = Fin u" "0 \<le> u" "u \<le> 1"
    by (rule local_coord)
  obtain v where v: "fsub binary32 (Fin y) (fl_floor (Fin y)) = Fin v" "0 \<le> v" "v \<le> 1"
    by (rule local_coord)
  obtain i where i: "fl_to_int (fadd binary32 (fl_floor (Fin x)) (Fin 1)) = Inr i" "fits 32 i"
    using next_cell_int[OF assms(2)] by blast
  obtain j where j: "fl_to_int (fadd binary32 (fl_floor (Fin y)) (Fin 1)) = Inr j" "fits 32 j"
    using next_cell_int[OF assms(3)] by blast
  note cx = cell_int[OF assms(2)] and cy = cell_int[OF assms(3)]
  obtain g00 r00 where g00: "pn_gradient hash cosd sind p \<lfloor>x\<rfloor> \<lfloor>y\<rfloor> = Inr g00" "near_unit g00 r00"
    using gradient_unit[OF assms(1) cx(2) cy(2)] by blast
  obtain g10 r10 where g10: "pn_gradient hash cosd sind p i \<lfloor>y\<rfloor> = Inr g10" "near_unit g10 r10"
    using gradient_unit[OF assms(1) i(2) cy(2)] by blast
  obtain g01 r01 where g01: "pn_gradient hash cosd sind p \<lfloor>x\<rfloor> j = Inr g01" "near_unit g01 r01"
    using gradient_unit[OF assms(1) cx(2) j(2)] by blast
  obtain g11 r11 where g11: "pn_gradient hash cosd sind p i j = Inr g11" "near_unit g11 r11"
    using gradient_unit[OF assms(1) i(2) j(2)] by blast
  have "pn_sample hash cosd sind p (Fin x) (Fin y) = Inr (pn_value (Fin u) (Fin v) g00 g10 g01 g11)"
    using u(1) v(1) i(1) j(1) cx(1) cy(1) g00(1) g10(1) g01(1) g11(1)
    by (simp add: pn_sample_def pn_gradient_at_def f2_sub_assign_def del: fl_floor.simps fl_to_int.simps fsub_Fin fadd.simps)
  then show thesis
    by (rule that[OF _ u(1) v(1) u(2,3) v(2,3) g00(2) g10(2) g01(2) g11(2)])
qed



text \<open>Zero local coordinates and finite gradients give zero.\<close>

lemma near_finite:
  assumes "near e x r" and "\<bar>r\<bar> \<le> 2" and "e \<le> 2 ^ 20"
  shows "\<exists>y. x = Fin y \<and> \<bar>y\<bar> \<le> 3"
proof -
  obtain y where y: "x = Fin y" "\<bar>y - r\<bar> \<le> e / 2 ^ 20"
    using assms(1) by (auto simp: near_def)
  have "e / 2 ^ 20 \<le> 1"
    using assms(3) by simp
  then have "\<bar>y\<bar> \<le> 3"
    using y(2) assms(2) by linarith
  with y(1) show ?thesis by blast
qed

lemma rnd_small: "\<bar>z\<bar> \<le> 16 \<Longrightarrow> \<exists>y. rnd binary32 z = Fin y"
  using near_rnd[of z z 0] by (auto simp: near_def)

lemma lerp_zero:
  assumes "\<bar>b\<bar> \<le> 3"
  shows "pn_linearInterpolation (Fin 0) (Fin b) (Fin 0) = Fin 0"
  using rnd_small[of b] assms by (auto simp: pn_linearInterpolation_def)

lemma fade_zero: "pn_fade (Fin 0) = Fin 0"
  using rnd_small[of "-15"] rnd_small[of 10] by (auto simp: pn_fade_def)

lemma dot_zero:
  assumes "near_unit g r"
  shows "f2_dot \<lparr>f2x = Fin 0, f2y = Fin 0\<rparr> g = Fin 0"
  using assms by (auto simp: near_unit_def near_def f2_dot_def)

lemma value_zero:
  assumes "near_unit g00 r00" "near_unit g10 r10" "near_unit g01 r01" "near_unit g11 r11"
  shows "pn_value (Fin 0) (Fin 0) g00 g10 g01 g11 = Fin 0"
proof -
  let ?m = "fsub binary32 (Fin 0) (Fin 1)"
  have m: "near 1 ?m (- 1)" "near 1 (Fin 0) 0" "\<bar>- 1 :: real\<bar> \<le> 1" "\<bar>0 :: real\<bar> \<le> 1"
    using near_sub[OF near_exact near_exact, of 0 1] by (simp_all add: near_def)
  note d10 = near_dot[OF m(1,2,3,4) assms(2)] and d01 = near_dot[OF m(2,1,4,3) assms(3)]
    and d11 = near_dot[OF m(1,1,3,3) assms(4)]
  have "near (11 + 24 + 2) (pn_linearInterpolation (f2_dot \<lparr>f2x = Fin 0, f2y = ?m\<rparr> g01) (f2_dot \<lparr>f2x = ?m, f2y = ?m\<rparr> g11) (Fin 0))
      (lerp (0 * fst r01 + - 1 * snd r01) (- 1 * fst r11 + - 1 * snd r11) 0)"
    by (rule near_lerp[OF d01(1) d11(1) near_exact d01(2) d11(2)]) simp_all
  moreover have "\<bar>lerp (0 * fst r01 + - 1 * snd r01) (- 1 * fst r11 + - 1 * snd r11) 0\<bar> \<le> 2"
    using d01(2) d11(2) by (intro lerp_abs) simp_all
  ultimately obtain z where z:
      "pn_linearInterpolation (f2_dot \<lparr>f2x = Fin 0, f2y = ?m\<rparr> g01) (f2_dot \<lparr>f2x = ?m, f2y = ?m\<rparr> g11) (Fin 0) = Fin z"
      "\<bar>z\<bar> \<le> 3"
    using near_finite by fastforce
  obtain w where w: "f2_dot \<lparr>f2x = ?m, f2y = Fin 0\<rparr> g10 = Fin w" "\<bar>w\<bar> \<le> 3"
    using near_finite[OF d10(1,2)] by auto
  show ?thesis
    unfolding pn_value_def Let_def fade_zero dot_zero[OF assms(1)] z(1) w(1) lerp_zero[OF w(2)] lerp_zero[OF z(2)] ..
qed

text \<open>
  The noise vanishes on the lattice: at integer coordinates in range \<open>sample\<close> returns exactly 0,
  in floating-point arithmetic too, for every seed.
\<close>

theorem perlin_lattice:
  assumes "trig_lib cosd sind" and "pn_domain (of_int i)" and "pn_domain (of_int j)"
  shows "pn_sample hash cosd sind p (Fin (of_int i)) (Fin (of_int j)) = Inr (Fin 0)"
proof (rule sample_value[OF assms])
  fix u v g00 g10 g01 g11 r00 r10 r01 r11
  assume s: "pn_sample hash cosd sind p (Fin (of_int i)) (Fin (of_int j)) = Inr (pn_value (Fin u) (Fin v) g00 g10 g01 g11)"
    and uv: "fsub binary32 (Fin (of_int i)) (fl_floor (Fin (of_int i))) = Fin u"
      "fsub binary32 (Fin (of_int j)) (fl_floor (Fin (of_int j))) = Fin v"
    and g: "near_unit g00 r00" "near_unit g10 r10" "near_unit g01 r01" "near_unit g11 r11"
  have "u = 0" "v = 0"
    using uv by simp_all
  then show ?thesis
    using s value_zero[OF g] by simp
qed

theorem perlin_lattice_witness:
  "pn_sample id cos_cr sin_cr \<lparr>pn_generator = rg_new 42\<rparr> (Fin 5) (Fin (- 3)) = Inr (Fin 0)"
  using perlin_lattice[OF trig_cr.trig_lib_axioms, of 5 "- 3" id "\<lparr>pn_generator = rg_new 42\<rparr>"] by (simp add: pn_domain_def)

lemma gradient_periodic:
  assumes "fits 32 i" and "fits 32 j" and "fits 32 (i + 13)" and "fits 32 (j + 7)"
  shows "pn_gradient hash cosd sind p (i + 13) (j + 7) = pn_gradient hash cosd sind p i j"
  unfolding pn_gradient_def rg_call_int[OF assms(1,2)] rg_call_int[OF assms(3,4)] by (simp add: algebra_simps)

text \<open>The corners of a cell near the origin, where adding one to a coordinate is exact.\<close>

lemma near_origin:
  assumes "\<bar>x\<bar> \<le> 2 ^ 23"
  shows "fl_to_int (fl_floor (Fin x)) = Inr \<lfloor>x\<rfloor>"
    and "fl_to_int (fadd binary32 (fl_floor (Fin x)) (Fin 1)) = Inr (\<lfloor>x\<rfloor> + 1)"
    and "fits 32 \<lfloor>x\<rfloor>" and "fits 32 (\<lfloor>x\<rfloor> + 1)"
proof -
  have dom: "pn_domain x"
    using assms by (simp add: pn_domain_def abs_le_iff)
  show "fl_to_int (fl_floor (Fin x)) = Inr \<lfloor>x\<rfloor>" "fits 32 \<lfloor>x\<rfloor>"
    using cell_int[OF dom] .
  show "fl_to_int (fadd binary32 (fl_floor (Fin x)) (Fin 1)) = Inr (\<lfloor>x\<rfloor> + 1)" "fits 32 (\<lfloor>x\<rfloor> + 1)"
    using next_cell_int[OF dom] assms by metis+
qed

definition from_corners :: "fp \<Rightarrow> fp \<Rightarrow> fvector2 res \<Rightarrow> fvector2 res \<Rightarrow> fvector2 res \<Rightarrow> fvector2 res \<Rightarrow> fp res" where
  "from_corners u v a b c d =
     (case a of Inl e \<Rightarrow> Inl e | Inr g00 \<Rightarrow> (case b of Inl e \<Rightarrow> Inl e | Inr g10 \<Rightarrow>
        (case c of Inl e \<Rightarrow> Inl e | Inr g01 \<Rightarrow> (case d of Inl e \<Rightarrow> Inl e | Inr g11 \<Rightarrow> Inr (pn_value u v g00 g10 g01 g11)))))"

lemma sample_near_origin:
  assumes "\<bar>x\<bar> \<le> 2 ^ 23" and "\<bar>y\<bar> \<le> 2 ^ 23"
  shows "pn_sample hash cosd sind p (Fin x) (Fin y) =
    from_corners (rnd binary32 (x - of_int \<lfloor>x\<rfloor>)) (rnd binary32 (y - of_int \<lfloor>y\<rfloor>))
      (pn_gradient hash cosd sind p \<lfloor>x\<rfloor> \<lfloor>y\<rfloor>) (pn_gradient hash cosd sind p (\<lfloor>x\<rfloor> + 1) \<lfloor>y\<rfloor>)
      (pn_gradient hash cosd sind p \<lfloor>x\<rfloor> (\<lfloor>y\<rfloor> + 1)) (pn_gradient hash cosd sind p (\<lfloor>x\<rfloor> + 1) (\<lfloor>y\<rfloor> + 1))"
  using near_origin(1,2)[OF assms(1)] near_origin(1,2)[OF assms(2)]
  by (simp add: pn_sample_def pn_gradient_at_def f2_sub_assign_def from_corners_def Let_def del: fl_to_int.simps cong: sum.case_cong)

text \<open>
  The noise repeats itself along a diagonal: moving a point by (13, 7) leaves the value unchanged,
  for every seed and hash, since the generator only depends on seven times the first coordinate less
  thirteen times the second.
\<close>

theorem perlin_periodic:
  assumes "\<bar>x\<bar> \<le> 2 ^ 22" and "\<bar>y\<bar> \<le> 2 ^ 22"
  shows "pn_sample hash cosd sind p (Fin (x + 13)) (Fin (y + 7)) = pn_sample hash cosd sind p (Fin x) (Fin y)"
proof -
  have b: "\<bar>x\<bar> \<le> 2 ^ 23" "\<bar>y\<bar> \<le> 2 ^ 23" "\<bar>x + 13\<bar> \<le> 2 ^ 23" "\<bar>y + 7\<bar> \<le> 2 ^ 23"
    using assms by (simp_all add: abs_le_iff)
  note * = near_origin(3,4)[OF b(1)] near_origin(3,4)[OF b(2)] near_origin(3,4)[OF b(3)] near_origin(3,4)[OF b(4)]
  have fl: "\<lfloor>x + 13\<rfloor> = \<lfloor>x\<rfloor> + 13" "\<lfloor>y + 7\<rfloor> = \<lfloor>y\<rfloor> + 7"
    by linarith+
  have "pn_gradient hash cosd sind p (\<lfloor>x\<rfloor> + 13 + a) (\<lfloor>y\<rfloor> + 7 + b) = pn_gradient hash cosd sind p (\<lfloor>x\<rfloor> + a) (\<lfloor>y\<rfloor> + b)"
    if "a \<in> {0, 1}" "b \<in> {0, 1}" for a b
    using gradient_periodic[of "\<lfloor>x\<rfloor> + a" "\<lfloor>y\<rfloor> + b" hash cosd sind p] that * unfolding fl by (auto simp: ac_simps)
  from this[of 0 0] this[of 0 1] this[of 1 0] this[of 1 1] show ?thesis
    unfolding sample_near_origin[OF b(1,2)] sample_near_origin[OF b(3,4)] fl by simp
qed

theorem perlin_periodic_witness:
  "pn_sample id cos_cr sin_cr \<lparr>pn_generator = rg_new 42\<rparr> (Fin (1 / 2 + 13)) (Fin (1 / 4 + 7)) =
   pn_sample id cos_cr sin_cr \<lparr>pn_generator = rg_new 42\<rparr> (Fin (1 / 2)) (Fin (1 / 4))"
  by (rule perlin_periodic) simp_all

end
