(* ===== verification/Conformance.thy ===== *)
theory Conformance
  imports Data_Buffer Message Memento Ring_Buffer Pool State_Machine Observers N_Ary_Tree Thread_Safe_Queue
    IO_Stream Mathematics
begin

text \<open>
  The repository's own tests (\<^verbatim>\<open>src/tests/my_google_test\<close>), evaluated in the model: each lemma is one test
  case, with the calls and the expectations of the test. They tie the definitions to what the tests
  demand of the code.
\<close>

definition and_then :: "'a res \<Rightarrow> ('a \<Rightarrow> 'b res) \<Rightarrow> 'b res" where
  "and_then r f = (case r of Inl e \<Rightarrow> Inl e | Inr x \<Rightarrow> f x)"

section \<open>Buffers\<close>

text \<open>\<open>RingBufferTest.WrapAround\<close>, \<open>OverflowThrows\<close> and \<open>PopEmptyThrows\<close>.\<close>

lemmas ring_defs = rb_push_bytes_def rb_pop_def rb_pop_n_def rb_isFull_def rb_isEmpty_def rb_store_def
  rb_load_def vsize_def

definition ring8 :: ring_buffer where
  "ring8 = \<lparr>rb_buffer = [0, 0, 0, 0, 0, 0, 0, 0], rb_head = 0, rb_tail = 0, rb_size = 0\<rparr>"

lemma ring_new: "rb_new 8 = Inr ring8"
proof -
  have "replicate 8 (0 :: byte) = [0, 0, 0, 0, 0, 0, 0, 0]"
    by (simp add: eval_nat_numeral)
  then show ?thesis
    by (simp add: rb_new_def ring8_def)
qed

lemma loads_6: "rb_loads 6 b = rb_loads (Suc (Suc (Suc (Suc (Suc (Suc 0)))))) b"
  by (simp add: eval_nat_numeral)

lemma ring_wrap_around:
  "and_then (rb_new 8) (\<lambda>b. and_then (rb_push_bytes [1, 2, 3, 4, 5] b) (\<lambda>b.
     and_then (rb_pop b) (\<lambda>(x, b). and_then (rb_pop b) (\<lambda>(y, b).
     and_then (rb_push_bytes [6, 7, 8] b) (\<lambda>b. and_then (rb_pop_n 6 b) (\<lambda>(xs, b).
       Inr (x, y, xs, rb_isEmpty b))))))) = Inr (1, 2, [3, 4, 5, 6, 7, 8], True)"
  by (simp add: and_then_def ring_new ring8_def ring_defs loads_6 del: rb_loads.simps(2)) (simp add: ring_defs)

lemma ring_exceptions:
  "and_then (rb_new 8) (rb_push_bytes [255, 255, 255, 255, 255, 255, 255, 255, 255]) =
     throw (Out_of_range ''trying to read more than available in buffer'')"
  "and_then (rb_new 8) rb_pop = throw (Out_of_range ''trying to read on empty buffer'')"
  by (simp_all add: and_then_def ring_new ring8_def ring_defs)

text \<open>\<open>MessageTest.ResetWorks\<close>: after a reset, writing appends and reading starts again.\<close>

lemma message_reset:
  "fst (msg_get 4 (msg_put (msg_reset (snd (msg_get 4 (msg_put (msg_typed 2) (enc_int 2025))))) (enc_int 0))) =
     Inr (enc_int 2025)"
  by code_simp

text \<open>\<open>MessageTest.OutOfBoundsThrows\<close>, \<open>DataBufferTest.EmptyBuffer\<close> and \<open>MementoTest.SnapshotThrows\<close>.\<close>

lemma empty_reads_throw:
  "(\<exists>e. fst (msg_get 4 (msg_reset (msg_typed 4))) = throw (Out_of_range e)) \<and>
   (\<exists>e. fst (db_get 4 db_new) = throw (Out_of_range e)) \<and> (\<exists>e. fst (sn_get 4 sn_new) = throw (Out_of_range e))"
  by (simp add: msg_get_def msg_reset_def msg_typed_def db_reset_def db_get_def db_new_def sn_get_def sn_new_def vsize_def)

text \<open>\<open>DataBufferTest.StringSerialization\<close>: the string \<open>"42"\<close>.\<close>

lemma string_serialization: "fst (db_gets (db_puts db_new [52, 50])) = Inr [52, 50]"
  by code_simp

section \<open>Containers\<close>

text \<open>\<open>ThreadSafeQueue\<close>: \<open>PushFrontPushBackPopSequence\<close>.\<close>

lemma queue_both_ends:
  "and_then (tsq_push_front (10 :: nat) tsq_new) (\<lambda>q. and_then (tsq_push_back 20 q) (\<lambda>q. and_then (tsq_push_front 5 q) (\<lambda>q.
     and_then (tsq_pop_front q) (\<lambda>(x, q). and_then (tsq_pop_back q) (\<lambda>(y, q). and_then (tsq_pop_front q) (\<lambda>(z, q).
       Inr (x, y, z))))))) = Inr (5, 20, 10)"
  by code_simp

text \<open>\<open>NAryTreeTest\<close>: the traversals and \<open>PostorderComputeSum\<close>.\<close>

definition test_tree :: "nat nary_tree res" where
  "test_tree =
     (case nt_setRoot 1 nt_new of (root, t) \<Rightarrow>
        and_then (nt_addChild root 2 t) (\<lambda>(child1, t). and_then (nt_addChild root 3 t) (\<lambda>(child2, t).
        and_then (nt_addChild child1 4 t) (\<lambda>(_, t). and_then (nt_addChild child1 5 t) (\<lambda>(_, t).
        and_then (nt_addChild child2 6 t) (\<lambda>(_, t). Inr t))))))"

lemma tree_orders:
  "and_then test_tree (\<lambda>t. Inr (nt_preorderValues t, nt_postorderValues t)) =
     Inr ([1, 2, 4, 5, 3, 6], [4, 5, 2, 6, 3, 1])"
  by (simp add: test_tree_def and_then_def nt_setRoot_def nt_new_def nt_addChild_def nd_addChild_def nd_new_def
      nt_preorderValues_def nt_postorderValues_def)

lemma tree_sum:
  "and_then test_tree (\<lambda>t. nt_postorderCompute 0 (Some [])
     (t\<lparr>nt_root := map_option (nd_modify (nd_setParentFunct sum_list) [] \<circ> nd_modify (nd_setParentFunct sum_list) [0] \<circ>
        nd_modify (nd_setParentFunct sum_list) [1]) (nt_root t)\<rparr>)) = Inr 15"
  by (simp add: test_tree_def and_then_def nt_setRoot_def nt_new_def nt_addChild_def nd_addChild_def nd_new_def
      nd_setParentFunct_def nt_postorderCompute_def)

section \<open>Patterns\<close>

text \<open>\<open>StateMachineTest\<close>: the sequence of transitions and actions, and both failures.\<close>

definition note_run :: "string \<Rightarrow> 'm \<times> string list \<Rightarrow> unit res \<times> 'm \<times> string list" where
  "note_run f mw = (Inr (), fst mw, snd mw @ [f])"

definition test_machine :: "(string, string) state_machine" where
  "test_machine = sm_addAction ''Idle'' ''idle'' (sm_addAction ''Running'' ''running'' (sm_addAction ''Stopped'' ''stopped''
     (sm_addState ''Stopped'' (sm_addState ''Running'' (sm_addState ''Idle'' (sm_new None))))))"

lemma machine_sequence:
  "and_then (sm_addTransition ''Idle'' ''Running'' ''go'' test_machine)
     (sm_addTransition ''Running'' ''Stopped'' ''halt'') = Inr m \<Longrightarrow>
   sm_update note_run (snd (sm_transitionTo note_run ''Stopped'' (snd (sm_update note_run
     (snd (sm_transitionTo note_run ''Running'' (snd (sm_update note_run (m, []))))))))) =
   (Inr (), m\<lparr>sm_current := Some ''Stopped''\<rparr>, [''idle'', ''go'', ''running'', ''halt'', ''stopped''])"
  by (auto simp: and_then_def sm_addTransition_def test_machine_def sm_addAction_def sm_addState_def sm_new_def
      sm_update_def sm_transitionTo_def note_run_def Let_def)

lemma machine_failures:
  "fst (sm_transitionTo note_run ''Running'' (test_machine, [])) = throw (Invalid_argument ''No transition found'')"
  "fst (sm_update note_run (sm_addState ''Idle'' (sm_new None), [])) = throw (Invalid_argument ''No action found'')"
  by (simp_all add: sm_transitionTo_def sm_update_def test_machine_def sm_addAction_def sm_addState_def sm_new_def)

section \<open>Streams and vectors\<close>

text \<open>\<open>ThreadSafeIOStream\<close>: one prefix on a line made of several insertions.\<close>

lemma stream_single_prefix:
  "snd (io_manip endl (io_put ''3.14'' (io_put '' '' (io_put ''42'' (io_put '' '' (io_put ''A''
     (io_setPrefix ''[X] '' io_new, []))))))) = ''[X] A 42 3.14'' @ [newline]"
  by code_simp

text \<open>\<open>Vector2DTest\<close> and \<open>Vector3DTest\<close> on integers.\<close>

lemma vector_tests:
  "v3_cross \<lparr>v3x = 2, v3y = 3, v3z = 4\<rparr> \<lparr>v3x = 5, v3y = 6, v3z = 7\<rparr> = Inr \<lparr>v3x = - 3, v3y = 6, v3z = - 3\<rparr>"
  "v2_perp \<lparr>v2x = 3, v2y = 4\<rparr> = Inr \<lparr>v2x = - 4, v2y = 3\<rparr>"
  "v3_div \<lparr>v3x = 6, v3y = 8, v3z = 10\<rparr> \<lparr>v3x = 2, v3y = 4, v3z = 5\<rparr> = Inr \<lparr>v3x = 3, v3y = 2, v3z = 2\<rparr>"
  by (simp_all add: v3_cross_def v2_perp_def v3_div_def mk2_def mk3_def det2_def ck_def fits_def)

end
