(* ===== verification/Spec2Isabelle.thy ===== *)
theory Spec2Isabelle
  imports Replies Client_Streams Memento Thread_Safe_Queue Ring_Buffer Pool State_Machine Observers N_Ary_Tree
    Shutdown Logger Chronometre Vector_Products Perlin_Noise Conformance
begin

text \<open>
  \<^bold>\<open>Libftpp: a verification development.\<close> The program is the C++ utility library under
  \<^verbatim>\<open>src/src\<close>: serialisation (\<^verbatim>\<open>data_structures/data_buffer\<close>), an object pool
  (\<^verbatim>\<open>data_structures/pool\<close>), four design patterns (\<^verbatim>\<open>design_patterns\<close>), a client and a server over
  TCP (\<^verbatim>\<open>network\<close>), threads (\<^verbatim>\<open>thread\<close>), vectors and generators (\<^verbatim>\<open>mathematics\<close>) and some extras
  (\<^verbatim>\<open>bonus\<close>). The model is that of a 64-bit little-endian Linux system with libstdc++: \<open>size_t\<close> is a
  64-bit word, \<open>int\<close> has 32 bits, and arithmetic on sizes wraps.

  \<^bold>\<open>How the parts interact.\<close> A \<open>Message\<close> is a typed \<open>DataBuffer\<close>. The server serialises a message and
  sends it (\<open>sendTo\<close>, \<open>sendToArray\<close>, \<open>sendToAll\<close>); client and server collect the bytes that \<^verbatim>\<open>recv\<close>
  delivers in a partial message, cut whole messages off it (\<open>isComplet\<close>, \<open>>>\<close>, \<open>data\<close>, \<open>incr_cursor\<close>)
  and run the actions registered for the message's type (\<open>update\<close>). \<open>Memento\<close> has a serialiser of its
  own with the contract of \<open>DataBuffer\<close>. \<open>Thread\<close> and \<open>Logger\<close> write through \<open>ThreadSafeIOStream\<close>.
  The other classes are independent of each other.

  \<^bold>\<open>Conventions.\<close> A class is a record with the members of the class, an operation a function on it.
  An operation that can fail returns \<open>error + 'a\<close>, where an error is one of the exceptions of the
  library with its text, or \<open>UB\<close>, undefined behaviour: reading or writing outside a vector, using a
  dangling reference, overflow of a signed integer, destroying an object twice. What an operation
  has changed before it throws is part of the result wherever the code changes anything. Loops that
  need not end are partial functions into \<open>option\<close>, \<open>None\<close> meaning that the loop runs for ever; no
  fuel is used, so no bound had to be chosen. System calls, the clock, hash functions and the order in
  which an unordered map is walked are arguments. A callback is a name, executed by an argument
  \<open>run\<close> on the object that calls it and the rest of the world, so that callbacks may throw and,
  where the code allows it, use that object. Concurrent classes are step relations whose steps are
  the critical sections, the notifications and the runs of jobs; all interleavings are runs of the
  relation.

  \<^bold>\<open>Theories.\<close>

  \<^item> \<open>Libftpp_Prelude\<close>: machine types, errors, the object representation of integers (locale \<open>codec\<close>,
    interpreted for \<open>size_t\<close> and \<open>int\<close>), pairs of inverse maps, locale \<open>transition_system\<close> for invariants
    of step relations, and locale \<open>fair_run\<close> for infinite runs under a weakly fair scheduler.
  \<^item> \<open>Byte_Stream\<close>: the contract of the stream operators, locales \<open>byte_stream\<close> and \<open>string_stream\<close>, in
    which it is proved once that a sequence of values and strings is read back as it was written.
    Interpreted by \<open>Data_Buffer\<close> (\<^verbatim>\<open>data_buffer.cpp\<close>, \<^verbatim>\<open>data_buffer.hpp\<close>), by \<open>Message\<close>
    (\<^verbatim>\<open>message.cpp\<close>, \<^verbatim>\<open>message.hpp\<close>, also the wire format and \<open>isComplet\<close>) and by \<open>Memento\<close>
    (\<^verbatim>\<open>memento.cpp\<close>, \<^verbatim>\<open>memento.hpp\<close>).
  \<^item> \<open>Framing\<close>: the loop that cuts messages off a byte stream, common to
    \<^verbatim>\<open>Client::_receiveMessage\<close> and \<^verbatim>\<open>Server::_receiveClientMsg\<close>. For every cut of a stream of messages it
    delivers the whole messages and keeps the rest; it ends unless the bytes end in the size field
    \<open>2 ^ 64 - 12\<close>, and on that header alone it does not end. \<open>Frame_Parser\<close>: the same loop as a parser of byte
    sequences, inverse to writing messages one after the other.
  \<^item> \<open>Posix\<close>: error numbers, outcomes of \<^verbatim>\<open>recv\<close>, descriptor sets. \<open>Client\<close> and \<open>Server\<close>
    (\<^verbatim>\<open>client.cpp\<close>, \<^verbatim>\<open>server.cpp\<close>): every function of the classes. Shown: reassembly of messages by the
    client for every cut into chunks, rounds and calls of \<open>update\<close>, the invariant of the server, what the server does with whole, split and
    overlong messages, termination of \<open>update\<close>, delivery to all clients, \<open>stop\<close>, reuse of descriptors,
    hostile headers. \<open>Client_Streams\<close>: the client parses the concatenation of all chunks it receives.
  \<^item> \<open>Sessions\<close>: an abstract server that only knows who is connected under which identifier and which messages
    wait, and the proof that \<open>sv_update\<close> refines it while clients connect, send any bytes and leave in any order; from it,
    which calls a client's messages lead to. \<open>Relay\<close>: a server that passes every message on with \<open>sendToAll\<close>, from
    the senders' messages to the actions of the receiving client. \<open>Replies\<close>: actions that answer with \<open>sendTo\<close>; what
    each client is sent, and the round trip of requests and answers.
  \<^item> \<open>Fifo\<close>: the contract of a queue, locale \<open>fifo\<close>, and what it gives for sequences of operations;
    interpreted by \<open>Thread_Safe_Queue\<close> (in both directions) and by \<open>Ring_Buffer\<close>.
  \<^item> \<open>Pool\<close>: slots, the stack of free slots, lifetimes of the objects, and the vector with its
    capacity, because growing it copies and destroys slots. Shown: the lending protocol as a
    refinement, and what \<open>resize\<close> and copies of an \<open>Object\<close> break.
  \<^item> \<open>State_Machine\<close>, \<open>Observers\<close> (\<open>Observer\<close>, \<open>ObservableValue\<close>, \<open>Singleton\<close>), \<open>N_Ary_Tree\<close>: every
    operation, with callbacks that may throw. Shown: transitions and their failures, the order of
    notifications, equality of the traversals with reference definitions, pointers to nodes.
  \<^item> \<open>Worker_Pool\<close> and \<open>Persistent_Worker\<close>: step relations, interpretations of \<open>transition_system\<close>.
    Shown: no job is lost or run twice, jobs start in the order of submission, no wake-up is lost,
    progress of single workers, and that joining ends after a bounded number of steps. \<open>Liveness\<close>
    extends \<open>fair_run\<close> to fair runs of both (locales \<open>pool_fair\<close>, \<open>pool_run\<close> and \<open>pw_run_with\<close>, each interpreted
    on a run of the model): every submitted job is executed, every registered task runs infinitely often.
    \<open>Shutdown\<close> does the same for the destructors (\<open>pool_fair\<close>, \<open>pw_fair\<close>): both return, and what is still run
    and what is discarded is determined by the moment they are called.
  \<^item> \<open>IO_Stream\<close> (\<open>ThreadSafeIOStream\<close> and \<open>Thread\<close>) and \<open>Logger\<close>: what reaches the console and the
    files. Shown: whole prefixed lines, order per thread, levels, the names of the log files and their order.
  \<^item> \<open>Floating\<close>: IEEE 754 formats with rounding to nearest, and what rounding preserves. \<open>Chronometre\<close>
    (\<^verbatim>\<open>chronometre.cpp\<close>): time stamps in double precision. Shown: the pairing of \<open>start\<close> and \<open>end\<close>, the
    resolution.
  \<^item> \<open>Mathematics\<close>: \<open>Random2DCoordinateGenerator\<close>, and the members of \<open>IVector2\<close> and \<open>IVector3\<close> with
    integer results; \<open>Vector_Float\<close>: those with \<open>float\<close> results, over the locale \<open>hypot_lib\<close>; \<open>Vector_Single\<close>:
    \<open>IVector2<float>\<close> and \<open>IVector3<float>\<close>, over the locale \<open>hypotf_lib\<close>; \<open>Vector_Products\<close>: the rounding errors of
    their products;
    \<open>Perlin_Noise\<close> (\<^verbatim>\<open>perlin_noise_2D.cpp\<close>) in single precision, over the locale \<open>trig_lib\<close>. Shown: vector
    algebra, what normalising truncates, how close float vectors come to the unit vector and where their
    length overflows or vanishes, agreement of the two instances on small integers, the range and the zeros of the noise, its period. The rounding
    errors are bounded step by step (\<open>near\<close>); the exact noise is bounded by a convexity argument.

  \<^item> \<open>Conformance\<close>: test cases of the repository, evaluated in the model.

  This theory adds what spans client, wire format and server, in both directions: one client of a server
  that sends, and any number of clients whose messages one \<open>update\<close> of the server receives in any number of
  rounds.

  \<^bold>\<open>Hypotheses on what is outside the library.\<close> They appear in the statements: \<^verbatim>\<open>recv\<close> delivers the
  bytes in order and never more than the buffer holds, \<^verbatim>\<open>accept\<close> returns a descriptor that no
  connected client and no listening socket has, vectors of bytes stay below their maximal size, callbacks that are called
  passive do not use the object that calls them, \<^verbatim>\<open>hypot\<close>, \<^verbatim>\<open>cos\<close> and \<^verbatim>\<open>sin\<close> have a relative or absolute
  error below \<open>2 ^ -30\<close> and \<^verbatim>\<open>hypotf\<close> a relative error below \<open>2 ^ -21\<close>, and for liveness the scheduler is weakly fair and jobs end.

  \<^bold>\<open>Not modelled.\<close> The overload of \<open>NAryTree::postorder\<close> that does not compile when it is instantiated;
  \<open>IVector2\<close> and \<open>IVector3\<close> for element types other than \<open>int\<close> and \<open>float\<close>; the headers that only include others;
  the tests, apart from the cases in \<open>Conformance\<close>. In the floating-point model neither the sign of a zero nor the
  bits of a NaN are kept; the code never divides by zero, so no result depends on the former.
\<close>

section \<open>From the server to the client\<close>

text \<open>Sending several messages to one client, in order: the descriptors and bytes handed to \<^verbatim>\<open>send\<close>.\<close>

fun send_seq ::
  "(int \<Rightarrow> byte list \<Rightarrow> int) \<Rightarrow> message list \<Rightarrow> int \<Rightarrow> 'cb server \<Rightarrow> ('cb server \<times> (int \<times> byte list) list) res" where
  "send_seq send [] i s = Inr (s, [])"
| "send_seq send (m # ms) i s =
     (case sv_sendTo send m i s of
        Inl e \<Rightarrow> Inl e
      | Inr (s', out) \<Rightarrow>
          (case send_seq send ms i s' of Inl e \<Rightarrow> Inl e | Inr (s'', out') \<Rightarrow> Inr (s'', out @ out')))"

lemma send_seq_eq:
  assumes "sv_wf s" and "sv_clients s fd = Some i" and "\<forall>m \<in> set ms. msg_wf m"
    and "\<forall>m \<in> set ms. send fd (frame_bytes (frame_of m)) \<noteq> - 1"
  shows "send_seq send ms i s = Inr (s, map (\<lambda>m. (fd, frame_bytes (frame_of m))) ms)"
  using assms(3,4)
proof (induction ms)
  case (Cons m ms)
  then show ?case
    using sendTo_eq[OF assms(1) _ assms(2), of m send] by (simp add: frame_of_def Let_def)
qed simp

text \<open>Values written into a message are read back from what arrives.\<close>

lemma values_arrive:
  assumes "msg_wf m" and "length (vals_bytes vals) < 2 ^ 63"
    and "m = put_vals msg_put msg_puts (msg_typed (m_type m)) vals"
  shows "\<exists>m'. get_vals msg_get msg_gets (map shape_of vals) (frame_message mk (frame_of m)) = (Inr vals, m')"
proof -
  have new: "msg_wf (msg_typed ty)" "msg_view (msg_typed ty) = []" "msg_used (msg_typed ty) = 0" for ty
    by (simp_all add: msg_typed_def msg_wf_def msg_view_def msg_used_def db_new_def db_wf_def db_view_def
        db_used_def vbounded_def)
  have "msg_view (put_vals msg_put msg_puts (msg_typed ty) vals) = vals_bytes vals" for ty
    using msg.put_vals_view[OF new(1), of ty vals] assms(2) new(2,3) by simp
  then have "msg_view m = vals_bytes vals"
    using assms(3) by metis
  then show ?thesis
    using msg.get_vals_prefix[OF arrived_wf[OF assms(1)], of mk vals "[]"] by (auto simp: arrived_view)
qed

text \<open>
  C3. From the server to the client. Let the server send messages to a connected client, each
  \<^verbatim>\<open>send\<close> succeeding, and let the bytes arrive in that order, cut into chunks and readiness rounds in
  any way. Then the client's \<open>update\<close> runs its actions on messages with the same types and the same
  unread bytes, in order; and values that were written into a message with \<open><<\<close> are read back from
  the message that arrives with \<open>>>\<close>, all of them and in order.
\<close>

theorem server_to_client:
  assumes "sv_wf s" and "sv_clients s fd = Some i" and "\<forall>m \<in> set ms. msg_wf m"
    and "\<forall>m \<in> set ms. send fd (frame_bytes (frame_of m)) \<noteq> - 1"
    and "msg_wf (c_tmpMsg c)" and "msg_view (c_tmpMsg c) = []" and "c_msgs c = []"
    and "cl_isConnected gs c \<and> fd_ok (c_fd c)"
    and "\<forall>b \<in> set batches. \<exists>err. snd b = RError err \<and> would_block err"
    and "concat (concat (map fst batches)) = concat (map (\<lambda>m. frame_bytes (frame_of m)) ms)"
    and "db_used (m_buffer (c_tmpMsg c)) + length (concat (concat (map fst batches))) < 2 ^ 63"
  shows "\<exists>outs. send_seq send ms i s = Inr (s, outs) \<and> (\<forall>out \<in> set outs. fst out = fd) \<and>
      concat (map snd outs) = concat (concat (map fst batches)) \<and>
      (\<exists>t. msg_wf t \<and> msg_view t = [] \<and> cl_update run gs se batches c w =
        (case cl_dispatch run (c_triggers c) (map (\<lambda>m. frame_message msg_typed (frame_of m)) ms) w of
           (Inl e, rest, w') \<Rightarrow> Some (Inl e, c\<lparr>c_msgs := rest, c_tmpMsg := t\<rparr>, w')
         | (Inr u, rest, w') \<Rightarrow> Some (Inr (), c\<lparr>c_msgs := [], c_tmpMsg := t\<rparr>, w'))) \<and>
      (\<forall>m \<in> set ms. m_type (frame_message msg_typed (frame_of m)) = m_type m \<and>
        (\<forall>vals. length (vals_bytes vals) < 2 ^ 63 \<longrightarrow> m = put_vals msg_put msg_puts (msg_typed (m_type m)) vals \<longrightarrow>
          (\<exists>m'. get_vals msg_get msg_gets (map shape_of vals) (frame_message msg_typed (frame_of m)) = (Inr vals, m'))))"
proof (intro exI[of _ "map (\<lambda>m. (fd, frame_bytes (frame_of m))) ms"] conjI ballI allI impI)
  show "send_seq send ms i s = Inr (s, map (\<lambda>m. (fd, frame_bytes (frame_of m))) ms)"
    using assms(1-4) by (rule send_seq_eq)
  have bytes: "concat (concat (map fst batches)) = stream_bytes (map frame_of ms)"
    using assms(10) by (simp add: stream_bytes_def comp_def)
  have small: "\<forall>f \<in> set (map frame_of ms). vbounded (snd f)"
    using assms(11) frame_in_stream[of _ "map frame_of ms"] unfolding bytes by (fastforce simp: vbounded_def)
  obtain t where "cl_poll se batches c =
      Some (Inr (), c\<lparr>c_msgs := map (frame_message msg_typed) (map frame_of ms), c_tmpMsg := t\<rparr>)"
      "msg_wf t" "msg_view t = []"
    using poll_all[OF assms(5) _ assms(9) _ _ small, of se] assms(6,7,8,11) bytes
    by (auto simp: cl_isConnected_def)
  then show "\<exists>t. msg_wf t \<and> msg_view t = [] \<and> cl_update run gs se batches c w =
      (case cl_dispatch run (c_triggers c) (map (\<lambda>m. frame_message msg_typed (frame_of m)) ms) w of
         (Inl e, rest, w') \<Rightarrow> Some (Inl e, c\<lparr>c_msgs := rest, c_tmpMsg := t\<rparr>, w')
       | (Inr u, rest, w') \<Rightarrow> Some (Inr (), c\<lparr>c_msgs := [], c_tmpMsg := t\<rparr>, w'))"
    using assms(8) by (intro exI[of _ t]) (auto simp: cl_update_def comp_def split: prod.splits sum.splits)
  fix m vals
  assume m: "m \<in> set ms"
  show "m_type (frame_message msg_typed (frame_of m)) = m_type m"
    by (simp add: frame_message_def frame_of_def msg_typed_def)
  assume "length (vals_bytes vals) < 2 ^ 63" "m = put_vals msg_put msg_puts (msg_typed (m_type m)) vals"
  then show "\<exists>m'. get_vals msg_get msg_gets (map shape_of vals) (frame_message msg_typed (frame_of m)) = (Inr vals, m')"
    using assms(3) m by (intro values_arrive) auto
qed (use assms(10) in \<open>auto simp: comp_def\<close>)

theorem server_to_client_witness:
  "\<exists>(s :: nat server) outs. sv_clients s 5 = Some 0 \<and>
     send_seq (\<lambda>_ _. 14) [put_vals msg_put msg_puts (msg_typed 3) [Raw [65, 66]]] 0 s = Inr (s, outs) \<and>
     concat (map snd outs) = frame_bytes (3, [65, 66])"
proof -
  let ?m = "put_vals msg_put msg_puts (msg_typed 3) [Raw [65, 66]]"
  let ?c = "(cl_new :: nat client)\<lparr>c_fd := 4\<rparr>"
  let ?batches = "[([take 5 (frame_bytes (3, [65, 66]))], RError EAGAIN), ([drop 5 (frame_bytes (3, [65, 66]))], RError EAGAIN)]"
  obtain s where s: "sv_acceptNewConnection 5 (sv_new [] 80 :: nat server) = Inr s" "sv_clients s 5 = Some 0"
    by (simp add: sv_acceptNewConnection_def sv_new_def NB_CONNECTION_def FD_SET_def fd_ok_def
        FD_SETSIZE_def INT_MAX_def)
  have wf: "sv_wf s"
    using sv_wf_new _ s(1) by (rule accept_wf) (simp add: sv_new_def)
  have m: "msg_wf ?m" "frame_of ?m = (3, [65, 66])"
    by (simp_all add: put_vals_def msg_put_def msg_typed_def msg_wf_def db_put_def db_new_def db_wf_def
        vbounded_def frame_of_def msg_view_def db_view_def)
  have c: "msg_wf (c_tmpMsg ?c)" "msg_view (c_tmpMsg ?c) = []" "c_msgs ?c = []" 
      "cl_isConnected (\<lambda>_. True) ?c \<and> fd_ok (c_fd ?c)"
    by (simp_all add: fd_ok_def FD_SETSIZE_def cl_new_def msg_default_def msg_wf_def msg_view_def db_new_def db_wf_def db_view_def
        vbounded_def cl_isConnected_def)
  have chunks: "\<forall>b \<in> set ?batches. \<exists>err. snd b = RError err \<and> would_block err"
    "concat (concat (map fst ?batches)) = concat (map (\<lambda>m. frame_bytes (frame_of m)) [?m])"
    "db_used (m_buffer (c_tmpMsg ?c)) + length (concat (concat (map fst ?batches))) < 2 ^ 63"
    using m(2) by (simp_all add: would_block_def cl_new_def msg_default_def db_new_def db_used_def)
  have ms: "\<forall>m \<in> set [?m]. msg_wf m" "\<forall>m \<in> set [?m]. (\<lambda>_ _. 14 :: int) (5 :: int) (frame_bytes (frame_of m)) \<noteq> - 1"
    using m(1) by simp_all
  obtain outs where "send_seq (\<lambda>_ _. 14) [?m] 0 s = Inr (s, outs)"
      "concat (map snd outs) = concat (concat (map fst ?batches))"
    using server_to_client[where send = "\<lambda>_ _. 14", OF wf s(2) ms c chunks, of "\<lambda>f m w. (Inr (), m, w)" "\<lambda>_. []" "()"] by blast
  with s(2) show ?thesis by auto
qed

section \<open>From the client to the server\<close>

text \<open>
  A round in which the clients of a set are readable and each delivers messages, in chunks of whole
  ones; and what such rounds bring, in the order in which it is queued.
\<close>

type_synonym delivery = "int set \<times> (int \<Rightarrow> message list list)"

definition round_of :: "delivery \<Rightarrow> sel_round" where
  "round_of d = \<lparr>sr_ready = fst d, sr_accept = - 1, sr_recv = (\<lambda>fd. (map chunk_of (snd d fd), RError EAGAIN))\<rparr>"

definition arrivals1 :: "delivery \<Rightarrow> (int \<times> message) list" where
  "arrivals1 d = concat (map (\<lambda>fd. map (Pair fd) (concat (snd d fd))) (sorted_list_of_set (fst d)))"

definition arrivals :: "delivery list \<Rightarrow> (int \<times> message) list" where
  "arrivals ds = concat (map arrivals1 ds)"

definition deliverable :: "'cb server \<Rightarrow> delivery \<Rightarrow> bool" where
  "deliverable s d \<longleftrightarrow> fst d \<subseteq> dom (sv_clients s) - {sv_socket s} \<and>
     (\<forall>fd \<in> fst d. \<forall>ms \<in> set (snd d fd). (\<forall>m \<in> set ms. msg_wf m) \<and>
       length (chunk_of ms) < 2 ^ 63)"

text \<open>A message as the server queues it.\<close>

definition as_queued :: "int \<times> message \<Rightarrow> message" where
  "as_queued p = queued (fst p, frame_of (snd p))"

lemma deliverable_finite:
  assumes "sv_wf s" and "\<forall>d \<in> set ds. deliverable s d"
  shows "\<forall>d \<in> set ds. finite (fst d)"
  using assms(2) sv_wfD(6)[OF assms(1)] by (auto simp: deliverable_def intro: finite_subset)

lemma stay_visits:
  assumes "set fds \<subseteq> dom (ses_clients r) - {sock}"
    and "\<forall>fd \<in> set fds. \<forall>ms \<in> set (snd d fd). \<forall>m \<in> set ms. msg_wf m"
  shows "fold (serve_fd sock (round_of d)) fds r =
    r\<lparr>ses_queue := ses_queue r @ map as_queued (concat (map (\<lambda>fd. map (Pair fd) (concat (snd d fd))) fds))\<rparr>"
  using assms
proof (induction fds arbitrary: r)
  case (Cons fd fds)
  then obtain i where "ses_clients r fd = Some i" "fd \<noteq> sock" by auto
  then have "serve_fd sock (round_of d) fd r = r\<lparr>ses_queue := ses_queue r @ map as_queued (map (Pair fd) (concat (snd d fd)))\<rparr>"
    using Cons.prems(2)
    by (simp add: serve_fd_def round_of_def leaves_def would_block_def comp_def frames_in_chunks as_queued_def)
  then show ?case
    using Cons by simp
qed simp

lemma delivery_fds:
  assumes "sv_wf s" and "deliverable s d" and "fd \<in> fst d"
  shows "0 \<le> fd" and "fd \<in> dom (sv_clients s) - {sv_socket s}"
  using assms sv_wfD(3)[OF assms(1), of fd] by (auto simp: deliverable_def sv_watched_def fd_ok_def)

lemma delivery_round:
  assumes "sv_wf s" and "deliverable s d" and "finite (fst d)" and "ses_clients r = sv_clients s"
  shows "session_round (sv_socket s) (round_of d) r = r\<lparr>ses_queue := ses_queue r @ map as_queued (arrivals1 d)\<rparr>"
proof -
  have "{fd \<in> insert (- 1) (fst d). 0 \<le> fd} = fst d"
    using delivery_fds(1)[OF assms(1,2)] by auto
  then have "visits (round_of d) 0 = sorted_list_of_set (fst d)"
    by (simp add: visits_def round_of_def)
  moreover have "set (sorted_list_of_set (fst d)) \<subseteq> dom (ses_clients r) - {sv_socket s}"
    unfolding set_sorted_list_of_set[OF assms(3)] assms(4) using delivery_fds(2)[OF assms(1,2)] by blast
  moreover have "\<forall>fd \<in> set (sorted_list_of_set (fst d)). \<forall>ms \<in> set (snd d fd). \<forall>m \<in> set ms. msg_wf m"
    unfolding set_sorted_list_of_set[OF assms(3)] using assms(2) by (simp add: deliverable_def)
  ultimately show ?thesis
    by (simp add: session_round_def stay_visits arrivals1_def)
qed

lemma delivery_ok:
  assumes "sv_wf s" and "deliverable s d" and "finite (fst d)" and "ses_clients r = sv_clients s"
  shows "round_ok (sv_socket s) r (round_of d)"
proof -
  have "sv_clients s (- 1) = None"
    using sv_wfD(3)[OF assms(1), of "- 1"] by (cases "sv_clients s (- 1)") (auto simp: sv_watched_def fd_ok_def)
  then show ?thesis
    using assms(2-4) by (auto simp: round_ok_def round_of_def deliverable_def FD_SETSIZE_def vbounded_def intro: chunk_honest)
qed

lemma deliveries_refine:
  assumes "sv_wf s" and "\<forall>d \<in> set ds. deliverable s d" and "ses_clients r = sv_clients s"
  shows "sessions_ok (sv_socket s) (map round_of ds) r \<and>
    fold (session_round (sv_socket s)) (map round_of ds) r = r\<lparr>ses_queue := ses_queue r @ map as_queued (arrivals ds)\<rparr>"
  using assms(2,3) deliverable_finite[OF assms(1,2)]
proof (induction ds arbitrary: r)
  case (Cons d ds)
  let ?r = "session_round (sv_socket s) (round_of d) r"
  have r: "?r = r\<lparr>ses_queue := ses_queue r @ map as_queued (arrivals1 d)\<rparr>"
    using delivery_round[OF assms(1)] Cons.prems by simp
  have "round_ok (sv_socket s) r (round_of d)"
    using delivery_ok[OF assms(1)] Cons.prems by simp
  then show ?case
    using Cons.IH[of ?r] Cons.prems by (simp add: r arrivals_def)
qed (simp add: arrivals_def)

lemma poll_deliveries:
  assumes "sv_wf s" and "\<forall>d \<in> set ds. deliverable s d" and "sv_max_fd s < FD_SETSIZE"
  obtains t where "sv_poll (map round_of ds) lst s = sv_poll [] lst t" and "sv_wf t"
    and "sv_msgs t = sv_msgs s @ map as_queued (arrivals ds)" and "sv_clients t = sv_clients s" and "sv_tasks t = sv_tasks s"
proof -
  have "\<forall>d \<in> set (map round_of ds). sv_socket s \<in> sr_ready d \<longrightarrow> sv_socket s \<le> sv_max_fd s"
    using assms(2) by (auto simp: deliverable_def round_of_def)
  moreover note deliveries_refine[OF assms(1,2), of "session_of s"]
  ultimately obtain t where t: "sv_poll (map round_of ds) lst s = sv_poll [] lst t" "sv_wf t" "same_setup s t"
      "session_of t = (session_of s)\<lparr>ses_queue := sv_msgs s @ map as_queued (arrivals ds)\<rparr>"
    using poll_refines[OF assms(1,3), of "map round_of ds" lst] by (auto simp del: sv_poll.simps)
  from t(4) have "sv_msgs t = sv_msgs s @ map as_queued (arrivals ds)" "sv_clients t = sv_clients s"
    by (simp_all add: session_of_def)
  then show thesis
    using t(1-3) by (intro that[of t]) (simp_all only: same_setup_def)
qed

lemma owed_queued:
  "owed eff tasks clients (as_queued p) = (\<lambda>w. case (tasks (m_type (snd p)), clients (fst p)) of
     (Some task, Some i) \<Rightarrow> eff task i (as_queued p) w | _ \<Rightarrow> w)"
proof -
  have "m_fd (as_queued p) = Some (fst p)" "m_type (as_queued p) = m_type (snd p)"
    by (simp_all add: as_queued_def frame_of_def)
  then show ?thesis
    by (intro ext) (simp add: owed_def)
qed

text \<open>What the rounds bring from one client: what it sent, in order.\<close>

lemma arrivals1_from:
  assumes "finite (fst d)"
  shows "map snd (filter (\<lambda>p. fst p = fd) (arrivals1 d)) = (if fd \<in> fst d then concat (snd d fd) else [])"
proof -
  have "filter (\<lambda>p. fst p = fd) (map (Pair k) ms) = (if k = fd then map (Pair k) ms else [])" for k and ms :: "message list"
    by (induction ms) auto
  then have "map snd (filter (\<lambda>p. fst p = fd) (concat (map (\<lambda>k. map (Pair k) (concat (snd d k))) ks))) =
      (if fd \<in> set ks then concat (snd d fd) else [])" if "distinct ks" for ks
    using that by (induction ks) (auto simp: comp_def)
  from this[of "sorted_list_of_set (fst d)"] assms show ?thesis
    by (simp add: arrivals1_def)
qed

lemma arrivals_from:
  assumes "\<forall>d \<in> set ds. finite (fst d)"
  shows "map snd (filter (\<lambda>p. fst p = fd) (arrivals ds)) =
    concat (map (\<lambda>d. if fd \<in> fst d then concat (snd d fd) else []) ds)"
  using assms by (induction ds) (simp_all add: arrivals_def arrivals1_from)

lemma arrivals_wf:
  assumes "sv_wf s" and "\<forall>d \<in> set ds. deliverable s d" and "p \<in> set (arrivals ds)"
  shows "msg_wf (snd p)"
proof -
  have "\<exists>d \<in> set ds. fst p \<in> fst d \<and> (\<exists>ms \<in> set (snd d (fst p)). snd p \<in> set ms)"
    using assms(3) deliverable_finite[OF assms(1,2)] by (force simp: arrivals_def arrivals1_def)
  then show ?thesis
    using assms(2) unfolding deliverable_def by blast
qed

text \<open>
  C12. From the clients to the server. Let any number of connected clients send messages, and let them arrive
  in any number of rounds of \<open>update\<close>, in chunks that each hold whole messages. Then \<open>update\<close> runs, for
  every message, the task registered for its type (if there is one) with the identifier of the client that
  sent it, on a message with the type, the unread bytes and the descriptor: round after round, in a round by
  ascending descriptor, and for each client in the order of sending. Afterwards the queue is empty and the
  invariant holds. Values written into a message with \<open><<\<close> are read back from it with \<open>>>\<close>. When the loop ends with
  \<^verbatim>\<open>errno\<close> at \<open>EBADF\<close> or \<open>EINTR\<close>, no action runs and the messages stay in the queue; so they do in every further
  \<open>update\<close> that finds nothing to read and \<^verbatim>\<open>errno\<close> unchanged, although \<^verbatim>\<open>select\<close> did not fail then.
\<close>

theorem client_to_server:
  assumes "sv_wf s" and "sv_msgs s = []" and "sv_max_fd s < FD_SETSIZE" and "\<forall>d \<in> set ds. deliverable s d"
  shows "(\<forall>p \<in> set (arrivals ds). cl_send (snd p) c = Inr (c_fd c, frame_bytes (frame_of (snd p)))) \<and>
    (\<forall>fd. map snd (filter (\<lambda>p. fst p = fd) (arrivals ds)) =
      concat (map (\<lambda>d. if fd \<in> fst d then concat (snd d fd) else []) ds)) \<and>
    (sl_errno lst \<notin> {Some EBADF, Some EINTR} \<longrightarrow>
      (\<exists>s'. sv_update (passive_run eff) (map round_of ds) lst (s, w) =
         Some (Inr (), s', fold (\<lambda>p w. case (sv_tasks s (m_type (snd p)), sv_clients s (fst p)) of
           (Some task, Some i) \<Rightarrow> eff task i (as_queued p) w | _ \<Rightarrow> w) (arrivals ds) w) \<and>
         sv_msgs s' = [] \<and> sv_wf s')) \<and>
    (sl_errno lst \<in> {Some EBADF, Some EINTR} \<longrightarrow>
      (\<exists>s'. sv_update run (map round_of ds) lst (s, v) = Some (Inr (), s', v) \<and>
         sv_msgs s' = map as_queued (arrivals ds) \<and>
         (\<exists>s''. sv_update run [] lst (s', v) = Some (Inr (), s'', v) \<and> sv_msgs s'' = sv_msgs s'))) \<and>
    (\<forall>p \<in> set (arrivals ds). \<forall>vals. length (vals_bytes vals) < 2 ^ 63 \<longrightarrow>
       snd p = put_vals msg_put msg_puts (msg_typed (m_type (snd p))) vals \<longrightarrow>
       (\<exists>m'. get_vals msg_get msg_gets (map shape_of vals) (as_queued p) = (Inr vals, m')))"
proof (intro conjI ballI allI impI)
  note fin = deliverable_finite[OF assms(1,4)] and wf = arrivals_wf[OF assms(1,4)]
  show "cl_send (snd p) c = Inr (c_fd c, frame_bytes (frame_of (snd p)))" if "p \<in> set (arrivals ds)" for p
    using wf[OF that] by (simp add: cl_send_def serialized_data frame_of_def)
  show "map snd (filter (\<lambda>p. fst p = fd) (arrivals ds)) =
      concat (map (\<lambda>d. if fd \<in> fst d then concat (snd d fd) else []) ds)" for fd
    using fin by (rule arrivals_from)
  let ?s = "s\<lparr>sv_running := True\<rparr>"
  obtain t where t: "sv_poll (map round_of ds) lst ?s = sv_poll [] lst t" "sv_wf t" "sv_msgs t = map as_queued (arrivals ds)"
      "sv_clients t = sv_clients s" "sv_tasks t = sv_tasks s"
    using poll_deliveries[of ?s ds lst] assms by (auto simp: deliverable_def simp del: sv_poll.simps)
  show "\<exists>s'. sv_update (passive_run eff) (map round_of ds) lst (s, w) =
      Some (Inr (), s', fold (\<lambda>p w. case (sv_tasks s (m_type (snd p)), sv_clients s (fst p)) of
        (Some task, Some i) \<Rightarrow> eff task i (as_queued p) w | _ \<Rightarrow> w) (arrivals ds) w) \<and> sv_msgs s' = [] \<and> sv_wf s'"
    if "sl_errno lst \<notin> {Some EBADF, Some EINTR}"
  proof -
    let ?u = "t\<lparr>sv_readyRead := sl_ready lst, sv_running := False\<rparr>"
    have "sv_dispatch (passive_run eff) 0 (?u, w) =
        Some (Inr (), ?u\<lparr>sv_msgs := []\<rparr>, fold (owed eff (sv_tasks s) (sv_clients s)) (map as_queued (arrivals ds)) w)"
      using dispatch_passive[of ?u eff 0 w] sv_wfD(5)[OF t(2)] t(3-5) by simp
    moreover have "sv_wf (?u\<lparr>sv_msgs := []\<rparr>)"
      using t(2) by (intro queue_emptied_wf) simp
    ultimately show ?thesis
      using that t(1) by (intro exI[of _ "?u\<lparr>sv_msgs := []\<rparr>"]) (simp add: sv_update_def fold_map comp_def owed_queued)
  qed
  show "\<exists>s'. sv_update run (map round_of ds) lst (s, v) = Some (Inr (), s', v) \<and>
      sv_msgs s' = map as_queued (arrivals ds) \<and>
      (\<exists>s''. sv_update run [] lst (s', v) = Some (Inr (), s'', v) \<and> sv_msgs s'' = sv_msgs s')"
    if "sl_errno lst \<in> {Some EBADF, Some EINTR}"
    using that t(1,3) by (auto simp: sv_update_def)
  show "\<exists>m'. get_vals msg_get msg_gets (map shape_of vals) (as_queued p) = (Inr vals, m')"
    if "p \<in> set (arrivals ds)" "length (vals_bytes vals) < 2 ^ 63"
      "snd p = put_vals msg_put msg_puts (msg_typed (m_type (snd p))) vals" for p vals
    unfolding as_queued_def queued_def fst_conv snd_conv using wf[OF that(1)] that(2,3) by (rule values_arrive)
qed

theorem client_to_server_witness:
  "\<exists>(s :: nat server) s' m. sv_clients s 5 = Some 0 \<and> sv_clients s 6 = Some 1 \<and> sv_tasks s 3 = Some 9 \<and>
     frame_of m = (3, [65, 66]) \<and>
     sv_update (passive_run (\<lambda>f i m w. w @ [(f, i)]))
       (map round_of [({5, 6}, \<lambda>fd. [[m]]), ({6}, \<lambda>fd. [[m], [m]])]) \<lparr>sl_ready = {}, sl_errno = None\<rparr> (s, []) =
     Some (Inr (), s', [(9, 0), (9, 1), (9, 1), (9, 1)])"
proof -
  let ?m = "put_vals msg_put msg_puts (msg_typed 3) [Raw [65, 66]]"
  let ?ds = "[({5, 6}, \<lambda>fd. [[?m]]), ({6}, \<lambda>fd. [[?m], [?m]])]"
  obtain s0 where s0: "sv_acceptNewConnection 5 (sv_new [] 80 :: nat server) = Inr s0" "sv_clients s0 = [5 \<mapsto> 0]"
      "sv_msgs s0 = []" "sv_socket s0 = - 1" "sv_max_fd s0 = 5" "sv_next_id s0 = 1"
    by (simp add: sv_acceptNewConnection_def sv_new_def NB_CONNECTION_def FD_SET_def fd_ok_def
        FD_SETSIZE_def INT_MAX_def)
  then obtain s1 where s1: "sv_acceptNewConnection 6 s0 = Inr s1" "sv_clients s1 = [5 \<mapsto> 0, 6 \<mapsto> 1]"
      "sv_msgs s1 = []" "sv_socket s1 = - 1" "sv_max_fd s1 = 6"
    by (simp add: sv_acceptNewConnection_def NB_CONNECTION_def FD_SET_def fd_ok_def FD_SETSIZE_def INT_MAX_def Let_def)
  let ?s = "sv_defineAction 3 9 s1"
  have "sv_wf s0"
    using sv_wf_new _ s0(1) by (rule accept_wf) (simp add: sv_new_def)
  then have "sv_wf s1"
    using _ s1(1) by (rule accept_wf) (simp add: s0(2))
  then have s: "sv_wf ?s" "sv_msgs ?s = []" "sv_max_fd ?s < FD_SETSIZE"
      "sv_clients ?s = [5 \<mapsto> 0, 6 \<mapsto> 1]" "sv_tasks ?s 3 = Some 9" "sv_socket ?s = - 1"
    using s1 by (simp_all add: sv_defineAction_def FD_SETSIZE_def)
  have m: "msg_wf ?m" "frame_of ?m = (3, [65, 66])"
    by (simp_all add: put_vals_def msg_put_def msg_typed_def msg_wf_def db_put_def db_new_def db_wf_def
        vbounded_def frame_of_def msg_view_def db_view_def)
  then have ds: "\<forall>d \<in> set ?ds. deliverable ?s d" and ty: "m_type ?m = 3"
    using s(4,6) by (simp_all add: deliverable_def frame_of_def chunk_of_def)
  obtain s' where "sv_update (passive_run (\<lambda>f i m w. w @ [(f, i)])) (map round_of ?ds)
      \<lparr>sl_ready = {}, sl_errno = None\<rparr> (?s, []) = Some (Inr (), s', [(9, 0), (9, 1), (9, 1), (9, 1)])"
    using client_to_server[OF s(1-3) ds, of "cl_new :: nat client" "\<lparr>sl_ready = {}, sl_errno = None\<rparr>"
        "\<lambda>f i m w. w @ [(f, i)]" "[]"] s(4,5) ty by (auto simp: arrivals_def arrivals1_def)
  then show ?thesis
    using s(4,5) m(2) by (intro exI[of _ ?s] exI[of _ s'] exI[of _ ?m]) simp
qed

end
